(* ===== verification/Prelude.thy ===== *)
theory Prelude
  imports Main "HOL-Library.Word"
begin

text \<open>
  Shared vocabulary of the development.  Rust's machine integers are \<open>len word\<close>s: \<open>+\<close>, \<open>-\<close> and
  \<open>*\<close> wrap, and the saturating and checked operations of the standard library are the functions
  below.  A value of type \<^verbatim>\<open>Result<T, &'static str>\<close> is a value of \<open>string + 'a\<close> whose left
  summand carries the message of the source.  Fixed-size arrays are total functions from their
  index; every access the code makes is shown in range where it matters.  The collection
  \<open>unat_ops\<close> turns goals on words into goals of natural-number arithmetic.
\<close>

unbundle bit_operations_syntax

named_theorems unat_ops \<open>value of a machine-integer operation as a natural number\<close>

type_synonym u8 = "8 word"
type_synonym u16 = "16 word"
type_synonym u32 = "32 word"
type_synonym u64 = "64 word"
type_synonym 'a res = "string + 'a"

section \<open>Saturating and checked arithmetic\<close>

definition saturating_add :: "'a::len word \<Rightarrow> 'a word \<Rightarrow> 'a word" where
  "saturating_add x y = (if unat x + unat y < 2 ^ LENGTH('a) then x + y else - 1)"

definition saturating_sub :: "'a::len word \<Rightarrow> 'a word \<Rightarrow> 'a word" where
  "saturating_sub x y = (if y \<le> x then x - y else 0)"

definition saturating_mul :: "'a::len word \<Rightarrow> 'a word \<Rightarrow> 'a word" where
  "saturating_mul x y = (if unat x * unat y < 2 ^ LENGTH('a) then x * y else - 1)"

definition checked_add :: "'a::len word \<Rightarrow> 'a word \<Rightarrow> 'a word option" where
  "checked_add x y = (if unat x + unat y < 2 ^ LENGTH('a) then Some (x + y) else None)"

definition checked_mul :: "'a::len word \<Rightarrow> 'a word \<Rightarrow> 'a word option" where
  "checked_mul x y = (if unat x * unat y < 2 ^ LENGTH('a) then Some (x * y) else None)"

lemma unat_minus_one_word: "unat (- 1 :: 'a::len word) = 2 ^ LENGTH('a) - 1"
  by (simp add: unsigned_minus_1_eq_mask mask_eq_exp_minus_1)

lemma unat_lt2p_le: "unat (x :: 'a::len word) \<le> 2 ^ LENGTH('a) - 1"
  using unsigned_less [of x, where ?'a = nat] by linarith

lemma unat_neq_max: "x \<noteq> (- 1 :: 'a::len word) \<Longrightarrow> unat x < 2 ^ LENGTH('a) - 1"
  using unat_lt2p_le [of x] unat_minus_one_word [where ?'a = 'a] by (metis le_neq_implies_less word_unat_eq_iff)

lemma unat_saturating_add [unat_ops]:
  "unat (saturating_add x y) = min (2 ^ LENGTH('a) - 1) (unat x + unat (y :: 'a::len word))"
  by (auto simp: saturating_add_def unat_word_ariths unat_minus_one_word)

lemma unat_saturating_sub [unat_ops]:
  "unat (saturating_sub x y) = unat x - unat (y :: 'a::len word)"
  by (auto simp: saturating_sub_def unat_sub word_le_nat_alt)

lemma unat_saturating_mul [unat_ops]:
  "unat (saturating_mul x y) = min (2 ^ LENGTH('a) - 1) (unat x * unat (y :: 'a::len word))"
  by (auto simp: saturating_mul_def unat_word_ariths unat_minus_one_word)

lemma checked_add_eq_Some:
  "checked_add x y = Some z \<longleftrightarrow> z = x + y \<and> unat z = unat x + unat (y :: 'a::len word)"
  by (auto simp: checked_add_def unat_add_lem)

lemma checked_mul_eq_Some:
  "checked_mul x y = Some z \<longleftrightarrow> z = x * y \<and> unat z = unat x * unat (y :: 'a::len word)"
  by (auto simp: checked_mul_def unat_mult_lem)

lemma unat_word_cmp [unat_ops]:
  "(x \<le> y) = (unat x \<le> unat (y :: 'a::len word))"
  "(x < y) = (unat x < unat y)"
  "(x = y) = (unat x = unat y)"
  by (simp_all add: word_le_nat_alt word_less_nat_alt word_unat_eq_iff)

lemma unat_of_nat_small: "n < 2 ^ LENGTH('a) \<Longrightarrow> unat (of_nat n :: 'a::len word) = n"
  by (simp add: unat_of_nat)

section \<open>Masking and alignment\<close>

lemma and_not_mask_word:
  "(x :: 'a::len word) AND NOT (mask k) = push_bit k (drop_bit k x)"
  by (rule bit_eqI) (auto simp: bit_simps)

lemma unat_push_drop_bit:
  "unat (push_bit k (drop_bit k (x :: 'a::len word))) = unat x div 2 ^ k * 2 ^ k"
proof -
  have "unat x div 2 ^ k * 2 ^ k < 2 ^ LENGTH('a)"
    using unsigned_less [of x, where ?'a = nat] by (meson div_times_less_eq_dividend le_less_trans)
  then have "take_bit LENGTH('a) (push_bit k (drop_bit k (unat x))) = unat x div 2 ^ k * 2 ^ k"
    by (simp add: drop_bit_eq_div push_bit_eq_mult take_bit_nat_eq_self)
  moreover have "unat (push_bit k (drop_bit k x))
      = take_bit LENGTH('a) (push_bit k (drop_bit k (unat x)))"
    by (simp only: unsigned_push_bit_eq unat_drop_bit_eq)
  ultimately show ?thesis by simp
qed

lemma unat_and_not_mask:
  "unat ((x :: 'a::len word) AND NOT (mask k)) = unat x div 2 ^ k * 2 ^ k"
  by (simp add: and_not_mask_word unat_push_drop_bit)

lemma unat_and_mask:
  "unat ((x :: 'a::len word) AND mask k) = unat x mod 2 ^ k"
proof -
  have "x AND mask k = take_bit k x"
    by (simp add: take_bit_eq_mask)
  then have "unat (x AND mask k) = take_bit k (unat x)"
    by (simp only: unsigned_take_bit_eq)
  then show ?thesis by (simp add: take_bit_eq_mod)
qed

lemma unat_pow2: "k < LENGTH('a) \<Longrightarrow> unat (2 ^ k :: 'a::len word) = 2 ^ k"
  by (metis of_nat_numeral of_nat_power power_strict_increasing_iff one_less_numeral_iff
      semiring_norm(76) unat_of_nat_small)

lemma unat_align_up_pow2:
  fixes x :: "'a::len word"
  assumes "k < LENGTH('a)" "unat x + 2 ^ k \<le> 2 ^ LENGTH('a)"
  shows "unat ((x + 2 ^ k - 1) AND NOT (2 ^ k - 1)) = (unat x + 2 ^ k - 1) div 2 ^ k * 2 ^ k"
proof -
  have m: "(2 ^ k - 1 :: 'a word) = mask k" by (simp add: mask_eq_exp_minus_1)
  have "unat (mask k :: 'a word) = 2 ^ k - 1"
    using assms(1) by (simp add: mask_eq_exp_minus_1 unat_sub word_le_nat_alt unat_pow2)
  moreover have "unat x + (2 ^ k - 1) < 2 ^ LENGTH('a)"
    using assms(2) zero_less_power [of "2::nat" k] by linarith
  ultimately have "unat (x + mask k) = unat x + (2 ^ k - 1)"
    by (metis unat_add_lem)
  moreover have "(x + 2 ^ k - 1) AND NOT (2 ^ k - 1) = (x + mask k) AND NOT (mask k)"
    by (simp add: add_diff_eq flip: m)
  ultimately show ?thesis by (simp add: unat_and_not_mask)
qed

lemma round_up_bounds:
  fixes n d :: nat
  assumes "0 < d"
  shows "n \<le> (n + d - 1) div d * d" "(n + d - 1) div d * d < n + d"
proof -
  have "(n + d - 1) div d * d + (n + d - 1) mod d = n + d - 1" by simp
  moreover have "(n + d - 1) mod d < d" using assms by simp
  ultimately show "n \<le> (n + d - 1) div d * d" "(n + d - 1) div d * d < n + d"
    using assms by linarith+
qed

lemma of_nat_word_inj:
  "i < 2 ^ LENGTH('a) \<Longrightarrow> j < 2 ^ LENGTH('a) \<Longrightarrow> (of_nat i = (of_nat j :: 'a::len word)) \<longleftrightarrow> i = j"
  by (metis unat_of_nat_small)

section \<open>Lists\<close>

text \<open>Rust's \<open>Iterator::position\<close>.\<close>

fun find_position :: "('a \<Rightarrow> bool) \<Rightarrow> 'a list \<Rightarrow> nat option" where
  "find_position P [] = None"
| "find_position P (x # xs) = (if P x then Some 0 else map_option Suc (find_position P xs))"

lemma find_position_Some:
  "find_position P xs = Some i \<Longrightarrow> i < length xs \<and> P (xs ! i) \<and> (\<forall>j<i. \<not> P (xs ! j))"
  by (induction xs arbitrary: i) (auto split: if_splits simp: nth_Cons less_Suc_eq_0_disj split: nat.splits)

lemma find_position_None: "find_position P xs = None \<longleftrightarrow> (\<forall>x\<in>set xs. \<not> P x)"
  by (induction xs) auto

lemma find_position_nth: "distinct xs \<Longrightarrow> i < length xs \<Longrightarrow> find_position (\<lambda>x. x = xs ! i) xs = Some i"
proof (induction xs arbitrary: i)
  case (Cons x xs)
  then show ?case by (cases i) (auto simp: nth_eq_iff_index_eq)
qed simp

lemma find_position_append:
  "find_position P (xs @ ys) = (case find_position P xs of
     None \<Rightarrow> map_option (\<lambda>i. length xs + i) (find_position P ys) | Some i \<Rightarrow> Some i)"
proof (induction xs)
  case Nil
  show ?case by (cases "find_position P ys") auto
next
  case (Cons x xs)
  then show ?case by (cases "find_position P xs"; cases "find_position P ys") auto
qed

text \<open>Removal of an entry by its index, as \<open>Vec::remove\<close> does it.\<close>

definition remove_nth :: "nat \<Rightarrow> 'a list \<Rightarrow> 'a list" where
  "remove_nth n xs = take n xs @ drop (Suc n) xs"

lemma remove_nth_distinct:
  assumes "distinct (map f xs)" "n < length xs"
  shows "distinct (map f (remove_nth n xs)) \<and> f ` set (remove_nth n xs) = f ` set xs - {f (xs ! n)}
    \<and> set (remove_nth n xs) \<subseteq> set xs"
proof -
  define a b where "a = take n xs" and "b = drop (Suc n) xs"
  have xs: "xs = a @ xs ! n # b" using assms(2) by (simp add: a_def b_def id_take_nth_drop)
  have r: "remove_nth n xs = a @ b" by (simp add: remove_nth_def a_def b_def)
  have d: "distinct (map f (a @ xs ! n # b))" using assms(1) xs by metis
  have "set xs = insert (xs ! n) (set a \<union> set b)" using xs by (metis set_append list.simps(15) Un_insert_right)
  moreover have "f ` insert (xs ! n) (set a \<union> set b) - {f (xs ! n)} = f ` (set a \<union> set b)"
    using d by (simp add: image_Un)
  ultimately show ?thesis using d r by auto
qed

lemma find_append: "find P (xs @ ys) = (case find P xs of None \<Rightarrow> find P ys | Some x \<Rightarrow> Some x)"
  by (induction xs) auto

text \<open>The bounded logs of the kernel: push at the back, then drop the oldest entry if the vector has
  grown beyond its bound.\<close>

definition push_bounded :: "nat \<Rightarrow> 'a \<Rightarrow> 'a list \<Rightarrow> 'a list" where
  "push_bounded n x xs = (let ys = xs @ [x] in if length ys > n then tl ys else ys)"

lemma push_bounded_window:
  "push_bounded n x (drop (length xs - n) xs) = drop (length (xs @ [x]) - n) (xs @ [x])"
proof (cases "n \<le> length xs")
  case True
  define k where "k = length xs - n"
  have k: "k \<le> length xs" "length xs - k = n" "Suc (length xs) - n = Suc k" using True by (auto simp: k_def)
  have "tl (drop k (xs @ [x])) = drop (Suc k) (xs @ [x])" by (simp only: drop_Suc drop_tl)
  with k show ?thesis by (simp add: push_bounded_def Let_def flip: k_def)
next
  case False
  then show ?thesis by (simp add: push_bounded_def Let_def)
qed

lemma length_push_bounded: "length (push_bounded n x xs) = (if length xs < n then Suc (length xs) else length xs)"
  by (auto simp: push_bounded_def Let_def)

text \<open>A change of the first entry that satisfies a predicate, as \<open>iter_mut().find(..)\<close> allows it.\<close>

fun update_first :: "('a \<Rightarrow> bool) \<Rightarrow> ('a \<Rightarrow> 'a) \<Rightarrow> 'a list \<Rightarrow> 'a list" where
  "update_first P f [] = []"
| "update_first P f (x # xs) = (if P x then f x # xs else x # update_first P f xs)"

lemma update_first_id: "\<forall>x\<in>set xs. \<not> P x \<Longrightarrow> update_first P f xs = xs"
  by (induction xs) auto

lemma length_update_first [simp]: "length (update_first P f xs) = length xs"
  by (induction xs) auto

lemma map_update_first: "(\<And>x. g (f x) = g x) \<Longrightarrow> map g (update_first P f xs) = map g xs"
  by (induction xs) auto

lemma update_first_distinct:
  assumes "distinct (map g xs)"
  shows "update_first (\<lambda>x. g x = k) f xs = map (\<lambda>x. if g x = k then f x else x) xs"
  using assms
proof (induction xs)
  case (Cons x xs)
  then have "g x = k \<Longrightarrow> map (\<lambda>x. if g x = k then f x else x) xs = xs"
    by (intro map_idI) (auto simp: image_iff)
  with Cons show ?case by simp
qed simp

lemma find_update_first:
  "(\<And>x. P x \<Longrightarrow> P (f x)) \<Longrightarrow> find P (update_first P f xs) = map_option f (find P xs)"
  by (induction xs) auto

lemma find_update_first_other:
  "(\<And>x. P x \<Longrightarrow> \<not> Q x \<and> \<not> Q (f x)) \<Longrightarrow> find Q (update_first P f xs) = find Q xs"
  by (induction xs) auto

lemma set_update_first: "set (update_first P f xs) \<subseteq> set xs \<union> f ` {x \<in> set xs. P x}"
  by (induction xs) auto

lemma find_Some_in: "find P xs = Some x \<Longrightarrow> x \<in> set xs \<and> P x"
  by (induction xs) (auto split: if_splits)

lemma find_unique: "distinct (map g xs) \<Longrightarrow> x \<in> set xs \<Longrightarrow> g x = k \<Longrightarrow> find (\<lambda>y. g y = k) xs = Some x"
  by (induction xs) (auto simp: image_iff)

lemma snd_case_res [simp]:
  "snd (case x of (Inl e, s) \<Rightarrow> (Inl (f e), s) | (Inr y, s) \<Rightarrow> (Inr (g y), s)) = snd x"
  by (simp split: prod.split sum.split)

end
