(* ===== verification/Phys_Mem.thy ===== *)
theory Phys_Mem
  imports Prelude
begin

text \<open>
  The physical page allocator: \<^verbatim>\<open>seed/saios/src/driver/memory.rs\<close> (the bitmap allocator) and its
  facade \<^verbatim>\<open>seed/saios/src/pmm.rs\<close>.  The global \<^verbatim>\<open>PMM\<close> cell is the state passed through every
  operation.  A bit set in the bitmap means that the page is in use.  Page indices and counts are
  natural numbers (they stay below \<open>2 ^ 24\<close>); physical addresses are 64-bit words.
\<close>

section \<open>Data\<close>

datatype MemoryType =
    Reserved | Usable | Reclaimable | ACPI | ACPINvs | MMIO | MMIOPort | Persistent | Bad
  | Loader | Seed | Framebuffer

record MemoryRegion =
  region_base :: u64
  region_length :: u64
  region_type :: MemoryType
  region_attributes :: u64

definition PAGE_SIZE :: u64 where
  "PAGE_SIZE = 4096"

definition MAX_TRACKED_MEMORY_BYTES :: nat where
  "MAX_TRACKED_MEMORY_BYTES = 64 * 1024 * 1024 * 1024"

definition MAX_PAGES :: nat where
  "MAX_PAGES = MAX_TRACKED_MEMORY_BYTES div 4096"

record pmm =
  bitmap :: "nat \<Rightarrow> u64"
  tracked_pages :: nat
  free_pages :: nat
  next_hint :: nat
  pmm_initialized :: bool

definition pmm_new :: pmm where
  "pmm_new = \<lparr>bitmap = (\<lambda>_. - 1), tracked_pages = 0, free_pages = 0, next_hint = 0,
     pmm_initialized = False\<rparr>"

section \<open>Operations\<close>

definition pmm_reset :: "pmm \<Rightarrow> pmm" where
  "pmm_reset p = p\<lparr>bitmap := (\<lambda>_. - 1), tracked_pages := 0, free_pages := 0, next_hint := 1,
     pmm_initialized := True\<rparr>"

definition is_used :: "pmm \<Rightarrow> nat \<Rightarrow> bool" where
  "is_used p page =
     (let word = page div 64; b = page mod 64
      in bitmap p word AND push_bit b 1 \<noteq> 0)"

definition set_used :: "pmm \<Rightarrow> nat \<Rightarrow> pmm" where
  "set_used p page =
     (let word = page div 64; b = page mod 64
      in p\<lparr>bitmap := (bitmap p)(word := bitmap p word OR push_bit b 1)\<rparr>)"

definition set_free :: "pmm \<Rightarrow> nat \<Rightarrow> pmm" where
  "set_free p page =
     (let word = page div 64; b = page mod 64
      in p\<lparr>bitmap := (bitmap p)(word := bitmap p word AND NOT (push_bit b 1))\<rparr>)"

definition align_up :: "u64 \<Rightarrow> u64 \<Rightarrow> u64" where
  "align_up value align = (value + align - 1) AND NOT (align - 1)"

definition align_down :: "u64 \<Rightarrow> u64 \<Rightarrow> u64" where
  "align_down value align = value AND NOT (align - 1)"

definition highest_end :: "MemoryRegion list \<Rightarrow> u64" where
  "highest_end entries =
     fold (\<lambda>entry highest.
       let e = saturating_add (region_base entry) (region_length entry)
       in if e > highest then e else highest) entries 0"

definition init_page :: "nat \<Rightarrow> pmm \<Rightarrow> pmm" where
  "init_page page p =
     (if is_used p page then (set_free p page)\<lparr>free_pages := free_pages p + 1\<rparr> else p)"

definition init_region :: "MemoryRegion \<Rightarrow> pmm \<Rightarrow> pmm" where
  "init_region entry p =
     (if region_type entry \<noteq> Usable then p
      else let start = unat (align_up (region_base entry) PAGE_SIZE div PAGE_SIZE);
               e = unat (align_down (saturating_add (region_base entry) (region_length entry))
                     PAGE_SIZE div PAGE_SIZE);
               limit = min e (tracked_pages p)
           in fold init_page [start..<limit] p)"

definition pmm_init :: "MemoryRegion list \<Rightarrow> pmm \<Rightarrow> pmm" where
  "pmm_init entries p0 =
     (let p = pmm_reset p0;
          highest = highest_end entries;
          tracked = unat (align_up highest PAGE_SIZE div PAGE_SIZE);
          p = p\<lparr>tracked_pages := min tracked MAX_PAGES\<rparr>;
          p = fold init_region entries p
      in if tracked_pages p > 0 \<and> \<not> is_used p 0
         then (set_used p 0)\<lparr>free_pages := free_pages p - 1\<rparr>
         else p)"

definition range_free :: "pmm \<Rightarrow> nat \<Rightarrow> nat \<Rightarrow> bool" where
  "range_free p first count = list_all (\<lambda>page. \<not> is_used p page) [first..<first + count]"

definition alloc_pages_below :: "nat \<Rightarrow> u64 \<Rightarrow> pmm \<Rightarrow> u64 option \<times> pmm" where
  "alloc_pages_below count max_phys p =
     (if count = 0 then (None, p)
      else if \<not> pmm_initialized p \<or> free_pages p < count \<or> tracked_pages p < count then (None, p)
      else let first_allocatable = 1 in
      if tracked_pages p \<le> first_allocatable \<or> tracked_pages p - first_allocatable < count
      then (None, p)
      else let max_page_exclusive =
                 (if max_phys = - 1 then tracked_pages p
                  else unat (saturating_add max_phys (PAGE_SIZE - 1) div PAGE_SIZE));
               bounded_tracked_pages = min (tracked_pages p) max_page_exclusive in
      if bounded_tracked_pages \<le> first_allocatable
         \<or> bounded_tracked_pages - first_allocatable < count
      then (None, p)
      else let start =
                 (if next_hint p \<ge> first_allocatable
                     \<and> next_hint p < (bounded_tracked_pages - count) + 1
                  then next_hint p else first_allocatable);
               max_start = bounded_tracked_pages - count;
               search_slots = (max_start - first_allocatable) + 1;
               slot = (\<lambda>offset. first_allocatable
                        + ((start - first_allocatable + offset) mod search_slots))
           in case find (\<lambda>offset. range_free p (slot offset) count) [0..<search_slots] of
                None \<Rightarrow> (None, p)
              | Some offset \<Rightarrow>
                  let first = slot offset;
                      p' = fold (\<lambda>page q. set_used q page) [first..<first + count] p
                  in (Some (of_nat first * PAGE_SIZE),
                      p'\<lparr>free_pages := free_pages p - count, next_hint := first + count\<rparr>))"

definition alloc_pages :: "nat \<Rightarrow> pmm \<Rightarrow> u64 option \<times> pmm" where
  "alloc_pages count p = alloc_pages_below count (- 1) p"

definition alloc_page :: "pmm \<Rightarrow> u64 option \<times> pmm" where
  "alloc_page p = alloc_pages 1 p"

definition alloc_page_below :: "u64 \<Rightarrow> pmm \<Rightarrow> u64 option \<times> pmm" where
  "alloc_page_below max_phys p = alloc_pages_below 1 max_phys p"

definition free_page :: "u64 \<Rightarrow> pmm \<Rightarrow> bool \<times> pmm" where
  "free_page phys_addr p =
     (if phys_addr AND (PAGE_SIZE - 1) \<noteq> 0 then (False, p)
      else if \<not> pmm_initialized p then (False, p)
      else let page = unat (phys_addr div PAGE_SIZE) in
      if page = 0 \<or> page \<ge> tracked_pages p \<or> \<not> is_used p page then (False, p)
      else let q = (set_free p page)\<lparr>free_pages := free_pages p + 1\<rparr>
           in (True, if page < next_hint q then q\<lparr>next_hint := page\<rparr> else q))"

definition reserve_page :: "nat \<Rightarrow> pmm \<Rightarrow> pmm" where
  "reserve_page page p =
     (if \<not> is_used p page then (set_used p page)\<lparr>free_pages := free_pages p - 1\<rparr> else p)"

definition reserve :: "u64 \<Rightarrow> u64 \<Rightarrow> pmm \<Rightarrow> pmm" where
  "reserve base len p =
     (if \<not> pmm_initialized p \<or> len = 0 then p
      else let start = unat (align_down base PAGE_SIZE div PAGE_SIZE);
               e = unat (align_up (saturating_add base len) PAGE_SIZE div PAGE_SIZE);
               limit = min e (tracked_pages p)
           in fold reserve_page [start..<limit] p)"

definition used_bytes :: "pmm \<Rightarrow> u64" where
  "used_bytes p =
     (if \<not> pmm_initialized p then 0 else of_nat (tracked_pages p - free_pages p) * PAGE_SIZE)"

definition available_bytes :: "pmm \<Rightarrow> u64" where
  "available_bytes p = (if \<not> pmm_initialized p then 0 else of_nat (free_pages p) * PAGE_SIZE)"

definition pmm_total_pages :: "pmm \<Rightarrow> nat" where
  "pmm_total_pages p = (if \<not> pmm_initialized p then 0 else tracked_pages p)"

definition pmm_free_pages :: "pmm \<Rightarrow> nat" where
  "pmm_free_pages p = (if \<not> pmm_initialized p then 0 else free_pages p)"

definition pmm_used_pages :: "pmm \<Rightarrow> nat" where
  "pmm_used_pages p = (if \<not> pmm_initialized p then 0 else tracked_pages p - free_pages p)"

subsection \<open>The facade\<close>

fun free_pages_loop :: "nat \<Rightarrow> u64 \<Rightarrow> bool \<Rightarrow> pmm \<Rightarrow> bool \<times> pmm" where
  "free_pages_loop 0 current ok p = (ok, p)"
| "free_pages_loop (Suc n) current ok p =
     (let (freed, q) = free_page current p
      in free_pages_loop n (saturating_add current PAGE_SIZE) (if \<not> freed then False else ok) q)"

definition free_pages_range :: "u64 \<Rightarrow> nat \<Rightarrow> pmm \<Rightarrow> bool \<times> pmm" where
  "free_pages_range base count p = (if count = 0 then (False, p) else free_pages_loop count base True p)"

definition total_ram_mb :: "pmm \<Rightarrow> nat" where
  "total_ram_mb p = (pmm_total_pages p * 4096) div (1024 * 1024)"

fun alloc_round :: "nat \<Rightarrow> pmm \<Rightarrow> u64 list \<times> pmm" where
  "alloc_round 0 p = ([], p)"
| "alloc_round (Suc n) p =
     (case alloc_page p of
        (None, q) \<Rightarrow> ([], q)
      | (Some page, q) \<Rightarrow> (let (pages, r) = alloc_round n q in (page # pages, r)))"

definition run_reuse_test :: "nat \<Rightarrow> pmm \<Rightarrow> (nat \<times> nat) \<times> (nat \<times> nat) \<times> pmm" where
  "run_reuse_test page_count p =
     (let before_free = pmm_free_pages p;
          before_used = pmm_used_pages p;
          (first_round, p1) = alloc_round (min page_count 1000) p;
          p2 = fold (\<lambda>page q. snd (free_page page q)) first_round p1;
          (second_round, p3) = alloc_round (length first_round) p2;
          p4 = fold (\<lambda>page q. snd (free_page page q)) second_round p3
      in ((before_used, before_free), (pmm_used_pages p4, pmm_free_pages p4), p4))"

section \<open>The bitmap\<close>

lemma is_used_bit: "is_used p page = bit (bitmap p (page div 64)) (page mod 64)"
  by (simp add: is_used_def Let_def bit_iff_and_push_bit_not_eq_0)

lemma set_used_frame [simp]:
  "tracked_pages (set_used p i) = tracked_pages p"
  "free_pages (set_used p i) = free_pages p"
  "next_hint (set_used p i) = next_hint p"
  "pmm_initialized (set_used p i) = pmm_initialized p"
  by (simp_all add: set_used_def Let_def)

lemma set_free_frame [simp]:
  "tracked_pages (set_free p i) = tracked_pages p"
  "free_pages (set_free p i) = free_pages p"
  "next_hint (set_free p i) = next_hint p"
  "pmm_initialized (set_free p i) = pmm_initialized p"
  by (simp_all add: set_free_def Let_def)

lemma is_used_frame [simp]:
  "is_used (p\<lparr>free_pages := x\<rparr>) i = is_used p i"
  "is_used (p\<lparr>next_hint := x\<rparr>) i = is_used p i"
  "is_used (p\<lparr>tracked_pages := x\<rparr>) i = is_used p i"
  by (simp_all add: is_used_def)

lemma page_pos_eq: "(i div 64 = j div 64 \<and> i mod 64 = j mod 64) \<longleftrightarrow> i = (j :: nat)"
  by (metis div_mult_mod_eq)

lemma is_used_set_used [simp]: "is_used (set_used p i) j \<longleftrightarrow> j = i \<or> is_used p j"
  using page_pos_eq [of j i]
  by (auto simp: is_used_bit set_used_def Let_def bit_simps)

lemma is_used_set_free [simp]: "is_used (set_free p i) j \<longleftrightarrow> j \<noteq> i \<and> is_used p j"
  using page_pos_eq [of j i]
  by (auto simp: is_used_bit set_free_def Let_def bit_simps)

section \<open>Page arithmetic\<close>

lemma PAGE_SIZE_mask: "PAGE_SIZE - 1 = mask 12" "unat PAGE_SIZE = 4096"
  by (simp_all add: PAGE_SIZE_def mask_eq_exp_minus_1)

lemma unat_div_PAGE_SIZE [unat_ops]: "unat (x div PAGE_SIZE) = unat x div 4096"
  by (simp add: PAGE_SIZE_def unat_div)

lemma unat_align_down [unat_ops]: "unat (align_down x PAGE_SIZE) = unat x div 4096 * 4096"
  by (simp only: align_down_def PAGE_SIZE_mask unat_and_not_mask) simp

lemma unat_align_up:
  assumes "unat x + 4095 < 2 ^ 64"
  shows "unat (align_up x PAGE_SIZE) = (unat x + 4095) div 4096 * 4096"
proof -
  have "x + PAGE_SIZE - 1 = x + 4095" by (simp add: PAGE_SIZE_def)
  moreover from assms have "unat (x + 4095) = unat x + 4095"
    by (simp add: unat_word_ariths)
  ultimately show ?thesis
    by (simp only: align_up_def PAGE_SIZE_mask unat_and_not_mask) simp
qed

lemma page_offset_zero: "(x AND (PAGE_SIZE - 1) = 0) = (unat x mod 4096 = 0)"
proof -
  have "(x AND (PAGE_SIZE - 1) = 0) = (unat (x AND mask 12) = 0)"
    by (simp add: PAGE_SIZE_mask unat_eq_0)
  then show ?thesis by (simp add: unat_and_mask)
qed

lemma MAX_PAGES_eq: "MAX_PAGES = 16777216"
  by (simp add: MAX_PAGES_def MAX_TRACKED_MEMORY_BYTES_def)

lemma unat_next_page:
  "unat a = i * 4096 \<Longrightarrow> i \<le> MAX_PAGES \<Longrightarrow> unat (saturating_add a PAGE_SIZE) = Suc i * 4096"
  by (simp add: unat_saturating_add PAGE_SIZE_mask MAX_PAGES_eq)

lemma unat_page_address:
  assumes "n \<le> MAX_PAGES"
  shows "unat (of_nat n * PAGE_SIZE) = n * 4096"
proof -
  have "n * 4096 < 2 ^ 64"
    using assms by (simp add: MAX_PAGES_eq)
  moreover from this have "unat (of_nat n :: u64) = n"
    by (simp add: unat_of_nat)
  ultimately show ?thesis
    by (simp add: PAGE_SIZE_def unat_word_ariths)
qed

section \<open>The allocator invariant\<close>

definition free_set :: "pmm \<Rightarrow> nat set" where
  "free_set p = {i. i < tracked_pages p \<and> \<not> is_used p i}"

definition pmm_inv :: "pmm \<Rightarrow> bool" where
  "pmm_inv p \<longleftrightarrow> pmm_initialized p \<and> tracked_pages p \<le> MAX_PAGES
     \<and> free_pages p = card (free_set p) \<and> 0 \<notin> free_set p"

lemma mem_free_set: "i \<in> free_set p \<longleftrightarrow> i < tracked_pages p \<and> \<not> is_used p i"
  by (simp add: free_set_def)

lemma finite_free_set [simp]: "finite (free_set p)"
  by (simp add: free_set_def)

lemma free_set_frame [simp]:
  "free_set (p\<lparr>free_pages := x\<rparr>) = free_set p"
  "free_set (p\<lparr>next_hint := x\<rparr>) = free_set p"
  by (simp_all add: free_set_def)

lemma free_set_set_used [simp]: "free_set (set_used p i) = free_set p - {i}"
  by (auto simp: free_set_def)

lemma free_set_set_free:
  "i < tracked_pages p \<Longrightarrow> free_set (set_free p i) = insert i (free_set p)"
  by (auto simp: free_set_def)

lemma card_free_set_le: "card (free_set p) \<le> tracked_pages p"
  using card_mono [of "{..<tracked_pages p}" "free_set p"] by (auto simp: free_set_def)

lemma fold_set_used_frame [simp]:
  "tracked_pages (fold (\<lambda>i q. set_used q i) xs p) = tracked_pages p"
  "pmm_initialized (fold (\<lambda>i q. set_used q i) xs p) = pmm_initialized p"
  "free_set (fold (\<lambda>i q. set_used q i) xs p) = free_set p - set xs"
  by (induction xs arbitrary: p) auto

subsection \<open>Initialisation\<close>

definition counted :: "pmm \<Rightarrow> bool" where
  "counted p \<longleftrightarrow> pmm_initialized p \<and> tracked_pages p \<le> MAX_PAGES \<and> free_pages p = card (free_set p)"

lemma init_page_step:
  assumes "counted p" "i < tracked_pages p"
  shows "counted (init_page i p) \<and> tracked_pages (init_page i p) = tracked_pages p
    \<and> free_set (init_page i p) = insert i (free_set p)"
  using assms by (auto simp: counted_def init_page_def free_set_set_free mem_free_set card_insert_if)

lemma init_pages_fold:
  assumes "counted p" "\<forall>i\<in>set xs. i < tracked_pages p"
  shows "counted (fold init_page xs p) \<and> tracked_pages (fold init_page xs p) = tracked_pages p
    \<and> free_set (fold init_page xs p) = set xs \<union> free_set p"
  using assms by (induction xs arbitrary: p) (auto simp: init_page_step)

definition region_pages :: "MemoryRegion \<Rightarrow> nat set" where
  "region_pages r = {i. unat (region_base r) \<le> i * 4096
     \<and> (i + 1) * 4096 \<le> unat (region_base r) + unat (region_length r)}"


lemma init_region_step:
  assumes "counted p"
    and "0 < tracked_pages p \<Longrightarrow> unat (region_base r) + unat (region_length r) + 4095 < 2 ^ 64"
  shows "counted (init_region r p) \<and> tracked_pages (init_region r p) = tracked_pages p
    \<and> free_set (init_region r p) = free_set p
        \<union> (if region_type r = Usable then region_pages r \<inter> {..<tracked_pages p} else {})"
proof (cases "region_type r = Usable \<and> 0 < tracked_pages p")
  case True
  define xs where "xs = [unat (align_up (region_base r) PAGE_SIZE div PAGE_SIZE)..<
    min (unat (align_down (saturating_add (region_base r) (region_length r)) PAGE_SIZE
           div PAGE_SIZE)) (tracked_pages p)]"
  have "set xs = region_pages r \<inter> {..<tracked_pages p}"
    using True assms(2)
    by (auto simp: xs_def region_pages_def unat_ops unat_align_up)
  moreover have "init_region r p = fold init_page xs p"
    using True by (simp add: init_region_def xs_def Let_def)
  ultimately show ?thesis
    using init_pages_fold [of p xs] assms(1) True by auto
next
  case False
  then show ?thesis using assms(1) by (auto simp: init_region_def Let_def)
qed

lemma init_regions_fold:
  assumes "counted p"
    and "0 < tracked_pages p \<Longrightarrow>
      \<forall>r\<in>set es. unat (region_base r) + unat (region_length r) + 4095 < 2 ^ 64"
  shows "counted (fold init_region es p) \<and> tracked_pages (fold init_region es p) = tracked_pages p
    \<and> free_set (fold init_region es p) = free_set p
        \<union> (\<Union>r\<in>{r \<in> set es. region_type r = Usable}. region_pages r \<inter> {..<tracked_pages p})"
  using assms
proof (induction es arbitrary: p)
  case (Cons r es)
  note step = init_region_step [of p r]
  have "counted (init_region r p)" "tracked_pages (init_region r p) = tracked_pages p"
    "free_set (init_region r p) = free_set p
       \<union> (if region_type r = Usable then region_pages r \<inter> {..<tracked_pages p} else {})"
    using step Cons.prems by auto
  with Cons.IH [of "init_region r p"] Cons.prems show ?case by auto
qed simp

lemma highest_end_aux:
  defines "F \<equiv> \<lambda>entry highest. let e = saturating_add (region_base entry) (region_length entry)
      in if e > highest then e else highest"
  shows "h \<le> fold F es h \<and>
    (\<forall>r\<in>set es. saturating_add (region_base r) (region_length r) \<le> fold F es h)"
proof (induction es arbitrary: h)
  case (Cons r es)
  have "h \<le> F r h" "saturating_add (region_base r) (region_length r) \<le> F r h"
    by (auto simp: F_def Let_def)
  with Cons.IH [of "F r h"] show ?case by (auto intro: order_trans)
qed simp

lemma highest_end_ge:
  "r \<in> set es \<Longrightarrow>
    min (2 ^ 64 - 1) (unat (region_base r) + unat (region_length r)) \<le> unat (highest_end es)"
  using highest_end_aux [where h = 0 and es = es] by (fastforce simp: highest_end_def unat_ops)

lemma align_up_div_wraps:
  assumes "2 ^ 64 \<le> unat x + 4095"
  shows "unat (align_up x PAGE_SIZE div PAGE_SIZE) = 0"
proof -
  have "unat (x + 4095) = unat x + 4095 - 2 ^ 64"
    using assms unat_plus_if' [of x 4095] by simp
  then have "unat (x + 4095) < 4096"
    using unsigned_less [of x, where ?'a = nat] by simp
  moreover have "x + PAGE_SIZE - 1 = x + 4095" by (simp add: PAGE_SIZE_def)
  ultimately have "unat (align_up x PAGE_SIZE) = 0"
    by (simp only: align_up_def PAGE_SIZE_mask unat_and_not_mask) simp
  then show ?thesis by (simp add: unat_ops)
qed

lemma counted_reset: "counted (pmm_reset p\<lparr>tracked_pages := min n MAX_PAGES\<rparr>)"
  "free_set (pmm_reset p\<lparr>tracked_pages := n\<rparr>) = {}"
  by (auto simp: counted_def pmm_reset_def free_set_def is_used_bit)

text \<open>What initialisation makes allocatable: the pages other than page 0 that lie whole inside a
  usable region and below the tracked limit; and the free counter counts exactly these.\<close>

lemma pmm_init_correct:
  "pmm_inv (pmm_init es p0)
   \<and> free_set (pmm_init es p0) = {i. 0 < i \<and> i < tracked_pages (pmm_init es p0)
        \<and> (\<exists>r\<in>set es. region_type r = Usable \<and> i \<in> region_pages r)}"
proof -
  define n where "n = unat (align_up (highest_end es) PAGE_SIZE div PAGE_SIZE)"
  define p where "p = pmm_reset p0\<lparr>tracked_pages := min n MAX_PAGES\<rparr>"
  define q where "q = fold init_region es p"
  have tp: "tracked_pages p = min n MAX_PAGES" by (simp add: p_def)
  have small: "\<forall>r\<in>set es. unat (region_base r) + unat (region_length r) + 4095 < 2 ^ 64"
    if "0 < tracked_pages p"
  proof (rule ccontr)
    assume "\<not> ?thesis"
    then obtain r where "r \<in> set es" "2 ^ 64 \<le> unat (region_base r) + unat (region_length r) + 4095"
      by (auto simp: not_less)
    with highest_end_ge [of r es] have "2 ^ 64 \<le> unat (highest_end es) + 4095" by auto
    then have "n = 0" unfolding n_def by (rule align_up_div_wraps)
    with that tp show False by simp
  qed
  have p0: "counted p" "free_set p = {}"
    unfolding p_def by (rule counted_reset)+
  have q: "counted q" "tracked_pages q = tracked_pages p"
    "free_set q = (\<Union>r\<in>{r \<in> set es. region_type r = Usable}. region_pages r \<inter> {..<tracked_pages p})"
    using init_regions_fold [of p es] p0 small by (simp_all add: q_def)
  have init: "pmm_init es p0 = (if 0 \<in> free_set q
      then (set_used q 0)\<lparr>free_pages := free_pages q - 1\<rparr> else q)"
    by (simp add: pmm_init_def Let_def q_def p_def n_def mem_free_set)
  then have "pmm_inv (pmm_init es p0)"
    using q(1) by (auto simp: pmm_inv_def counted_def card_Diff_singleton)
  moreover from init have "free_set (pmm_init es p0) = free_set q - {0}"
    "tracked_pages (pmm_init es p0) = tracked_pages p"
    using q(2) by auto
  ultimately show ?thesis using q(3) by auto
qed

subsection \<open>Allocation\<close>

definition page_bound :: "u64 \<Rightarrow> pmm \<Rightarrow> nat" where
  "page_bound max_phys p = min (tracked_pages p)
     (if max_phys = - 1 then tracked_pages p
      else unat (saturating_add max_phys (PAGE_SIZE - 1) div PAGE_SIZE))"

definition free_run :: "pmm \<Rightarrow> nat \<Rightarrow> nat \<Rightarrow> bool" where
  "free_run p first count \<longleftrightarrow> {first..<first + count} \<subseteq> free_set p"

lemma range_free_iff:
  "first + count \<le> tracked_pages p \<Longrightarrow> range_free p first count = free_run p first count"
  by (auto simp: range_free_def free_run_def list_all_iff mem_free_set)

lemma mod_cover:
  assumes "(s :: nat) < n" "k < n"
  shows "\<exists>offset<n. (s + offset) mod n = k"
proof (cases "s \<le> k")
  case True
  with assms show ?thesis by (intro exI [of _ "k - s"]) auto
next
  case False
  with assms show ?thesis by (intro exI [of _ "n + k - s"]) (auto simp: le_mod_geq)
qed

text \<open>The circular search from the hint visits every candidate start, so it fails only when no run
  of free pages exists below the bound.\<close>

lemma alloc_search:
  assumes "1 \<le> start" "start < slots + 1"
    and tracked: "slots + count \<le> tracked_pages p"
  defines "slot \<equiv> \<lambda>offset. 1 + ((start - 1 + offset) mod slots)"
  shows "(find (\<lambda>i. range_free p (slot i) count) [0..<slots] = None
            \<longleftrightarrow> (\<forall>first. 1 \<le> first \<and> first \<le> slots \<longrightarrow> \<not> free_run p first count))
    \<and> (\<forall>i. find (\<lambda>i. range_free p (slot i) count) [0..<slots] = Some i
            \<longrightarrow> 1 \<le> slot i \<and> slot i \<le> slots \<and> free_run p (slot i) count)"
proof -
  have pos: "0 < slots" using assms by linarith
  have range: "1 \<le> slot i" "slot i \<le> slots" for i
    using pos by (simp_all add: slot_def Suc_le_eq)
  have free: "range_free p (slot i) count = free_run p (slot i) count" for i
    using range(2) [of i] tracked by (intro range_free_iff) linarith
  have cover: "\<exists>i < slots. slot i = first" if "1 \<le> first" "first \<le> slots" for first
  proof -
    have "start - 1 < slots" "first - 1 < slots" using assms(1,2) that by linarith+
    then obtain i where "i < slots" "(start - 1 + i) mod slots = first - 1"
      using mod_cover by blast
    with that show ?thesis by (auto simp: slot_def)
  qed
  have "find (\<lambda>i. range_free p (slot i) count) [0..<slots] = None
      \<longleftrightarrow> (\<forall>i < slots. \<not> free_run p (slot i) count)"
    by (auto simp: find_None_iff free)
  also have "\<dots> \<longleftrightarrow> (\<forall>first. 1 \<le> first \<and> first \<le> slots \<longrightarrow> \<not> free_run p first count)"
    using cover range by metis
  finally show ?thesis
    using range free by (auto simp: find_Some_iff)
qed

lemma free_run_card: "free_run p first count \<Longrightarrow> count \<le> card (free_set p)"
  unfolding free_run_def using card_mono [OF finite_free_set, of "{first..<first + count}" p] by simp


lemma alloc_pages_below_cases:
  assumes inv: "pmm_inv p" and "0 < count"
  obtains (none) "alloc_pages_below count max_phys p = (None, p)"
      "\<forall>first. 1 \<le> first \<and> first + count \<le> page_bound max_phys p \<longrightarrow> \<not> free_run p first count"
  | (some) first where "1 \<le> first" "first + count \<le> page_bound max_phys p" "free_run p first count"
      "alloc_pages_below count max_phys p =
        (Some (of_nat first * PAGE_SIZE),
         (fold (\<lambda>page q. set_used q page) [first..<first + count] p)
           \<lparr>free_pages := free_pages p - count, next_hint := first + count\<rparr>)"
proof -
  define b where "b = page_bound max_phys p"
  have b_le: "b \<le> tracked_pages p" by (simp add: b_def page_bound_def)
  consider (few) "free_pages p < count \<or> tracked_pages p < count \<or> tracked_pages p \<le> 1
      \<or> tracked_pages p - 1 < count \<or> b \<le> 1 \<or> b - 1 < count"
    | (search) "count \<le> free_pages p" "count \<le> b - 1" "1 < b"
    by linarith
  then show ?thesis
  proof cases
    case few
    then have "\<not> free_run p first count" if "1 \<le> first" "first + count \<le> b" for first
      using that b_le inv free_run_card [of p first count] \<open>0 < count\<close>
      by (auto simp: pmm_inv_def)
    moreover have "alloc_pages_below count max_phys p = (None, p)"
      using few by (auto simp: alloc_pages_below_def Let_def b_def page_bound_def)
    ultimately show ?thesis using none by (simp add: b_def)
  next
    case search
    define start where "start = (if 1 \<le> next_hint p \<and> next_hint p < (b - count) + 1
      then next_hint p else 1)"
    define slots where "slots = (b - count - 1) + 1"
    define slot where "slot = (\<lambda>offset. 1 + ((start - 1 + offset) mod slots))"
    have "1 \<le> start" "start < slots + 1" "slots + count = b"
      using search \<open>0 < count\<close> by (auto simp: start_def slots_def)
    then have S: "(find (\<lambda>i. range_free p (slot i) count) [0..<slots] = None
            \<longleftrightarrow> (\<forall>first. 1 \<le> first \<and> first \<le> slots \<longrightarrow> \<not> free_run p first count))
        \<and> (\<forall>i. find (\<lambda>i. range_free p (slot i) count) [0..<slots] = Some i
            \<longrightarrow> 1 \<le> slot i \<and> slot i \<le> slots \<and> free_run p (slot i) count)"
      unfolding slot_def using b_le by (intro alloc_search) simp_all
    have A: "alloc_pages_below count max_phys p =
        (case find (\<lambda>i. range_free p (slot i) count) [0..<slots] of
           None \<Rightarrow> (None, p)
         | Some i \<Rightarrow> (Some (of_nat (slot i) * PAGE_SIZE),
             (fold (\<lambda>page q. set_used q page) [slot i..<slot i + count] p)
               \<lparr>free_pages := free_pages p - count, next_hint := slot i + count\<rparr>))"
    proof -
      have "count \<noteq> 0" using \<open>0 < count\<close> by simp
      moreover have "\<not> (\<not> pmm_initialized p \<or> free_pages p < count \<or> tracked_pages p < count)"
        "\<not> (tracked_pages p \<le> 1 \<or> tracked_pages p - 1 < count)" "\<not> (b \<le> 1 \<or> b - 1 < count)"
        using search inv b_le by (auto simp: pmm_inv_def)
      ultimately show ?thesis
        unfolding alloc_pages_below_def Let_def slot_def slots_def start_def b_def page_bound_def
        by (simp only: if_False)
    qed
    show ?thesis
      using S A none some \<open>slots + count = b\<close>
      by (cases "find (\<lambda>i. range_free p (slot i) count) [0..<slots]") (auto simp: b_def)
  qed
qed


lemma alloc_None_unchanged: "alloc_pages_below n m p = (None, q) \<Longrightarrow> q = p"
  by (auto simp: alloc_pages_below_def Let_def split: if_splits option.splits)

lemma alloc_zero: "alloc_pages_below 0 m p = (None, p)"
  by (simp add: alloc_pages_below_def)

lemma alloc_Some_spec:
  assumes inv: "pmm_inv p" and alloc: "alloc_pages_below n m p = (Some a, q)"
  shows "\<exists>first. 0 < n \<and> 1 \<le> first \<and> first + n \<le> page_bound m p \<and> unat a = first * 4096
    \<and> {first..<first + n} \<subseteq> free_set p \<and> free_set q = free_set p - {first..<first + n}
    \<and> tracked_pages q = tracked_pages p \<and> pmm_inv q"
proof -
  from alloc have n: "0 < n" by (cases n) (simp_all add: alloc_zero)
  from inv n alloc obtain first where f: "1 \<le> first" "first + n \<le> page_bound m p" "free_run p first n"
    and a: "a = of_nat first * PAGE_SIZE"
    and q: "q = (fold (\<lambda>page q. set_used q page) [first..<first + n] p)
       \<lparr>free_pages := free_pages p - n, next_hint := first + n\<rparr>"
    by (cases rule: alloc_pages_below_cases [of p n m]) auto
  have fs: "free_set q = free_set p - {first..<first + n}" by (simp add: q)
  moreover have "card (free_set q) = card (free_set p) - n"
    using f(3) by (simp add: fs free_run_def card_Diff_subset)
  then have "pmm_inv q"
    using inv fs by (simp add: pmm_inv_def q)
  moreover have "unat a = first * 4096"
    using f(2) inv by (simp add: a unat_page_address page_bound_def pmm_inv_def)
  ultimately show ?thesis
    using n f by (auto simp: free_run_def q)
qed

subsection \<open>Freeing and reserving\<close>

lemma free_page_spec:
  fixes a :: u64
  assumes "pmm_inv p"
  defines "page \<equiv> unat a div 4096"
  shows "free_page a p = (b, q) \<Longrightarrow>
    (b \<longleftrightarrow> unat a mod 4096 = 0 \<and> 0 < page \<and> page < tracked_pages p \<and> page \<notin> free_set p)
    \<and> (if b then free_set q = insert page (free_set p) else q = p)
    \<and> tracked_pages q = tracked_pages p \<and> pmm_inv q"
  using assms
  by (auto simp: free_page_def Let_def page_offset_zero unat_div_PAGE_SIZE pmm_inv_def mem_free_set
      free_set_set_free card_insert_if split: if_splits)

lemma free_page_ok:
  assumes "pmm_inv p" "0 < i" "i < tracked_pages p" "i \<notin> free_set p" "unat a = i * 4096"
  shows "\<exists>q. free_page a p = (True, q) \<and> free_set q = insert i (free_set p)
    \<and> tracked_pages q = tracked_pages p \<and> pmm_inv q"
  using assms free_page_spec [of p a "fst (free_page a p)" "snd (free_page a p)"]
  by (cases "free_page a p") (auto split: if_splits)

lemma free_pages_loop_ok:
  assumes "pmm_inv p" "0 < i" "i + n \<le> tracked_pages p"
    "\<forall>j. i \<le> j \<and> j < i + n \<longrightarrow> j \<notin> free_set p"
    "unat a = i * 4096"
  shows "\<exists>q. free_pages_loop n a True p = (True, q) \<and> free_set q = {i..<i + n} \<union> free_set p
    \<and> tracked_pages q = tracked_pages p \<and> pmm_inv q"
  using assms
proof (induction n arbitrary: i a p)
  case (Suc n)
  then obtain p' where p': "free_page a p = (True, p')" "free_set p' = insert i (free_set p)"
    "tracked_pages p' = tracked_pages p" "pmm_inv p'"
    using free_page_ok [of p i a] by auto
  have "i \<le> MAX_PAGES" using Suc.prems(1,3) by (simp add: pmm_inv_def)
  then have "unat (saturating_add a PAGE_SIZE) = Suc i * 4096"
    using unat_next_page [OF Suc.prems(5)] by simp
  moreover have "\<forall>j. Suc i \<le> j \<and> j < Suc i + n \<longrightarrow> j \<notin> free_set p'"
    using Suc.prems(4) p'(2) by auto
  ultimately obtain q where "free_pages_loop n (saturating_add a PAGE_SIZE) True p' = (True, q)"
    "free_set q = {Suc i..<Suc i + n} \<union> free_set p'" "tracked_pages q = tracked_pages p'" "pmm_inv q"
    using Suc.IH [of p' "Suc i" "saturating_add a PAGE_SIZE"] Suc.prems(3) p'(3,4) by auto
  moreover have "insert i ({Suc i..<Suc i + n} \<union> free_set p) = {i..<i + Suc n} \<union> free_set p"
    by auto
  ultimately show ?case using p' by simp
qed simp

lemma reserve_page_step:
  assumes "pmm_inv p" "i < tracked_pages p"
  shows "pmm_inv (reserve_page i p) \<and> tracked_pages (reserve_page i p) = tracked_pages p
    \<and> free_set (reserve_page i p) = free_set p - {i}"
proof (cases "i \<in> free_set p")
  case True
  with assms show ?thesis
    by (auto simp: pmm_inv_def reserve_page_def mem_free_set card_Diff_singleton)
next
  case False
  with assms show ?thesis by (auto simp: reserve_page_def mem_free_set)
qed

lemma reserve_fold:
  assumes "pmm_inv p" "\<forall>i\<in>set xs. i < tracked_pages p"
  shows "pmm_inv (fold reserve_page xs p) \<and> tracked_pages (fold reserve_page xs p) = tracked_pages p
    \<and> free_set (fold reserve_page xs p) = free_set p - set xs"
  using assms by (induction xs arbitrary: p) (auto simp: reserve_page_step)

lemma reserve_spec:
  assumes "pmm_inv p" "unat base + unat len + 4095 < 2 ^ 64" "0 < unat len"
  shows "pmm_inv (reserve base len p)
    \<and> free_set (reserve base len p) = free_set p
        - {i. i * 4096 < unat base + unat len \<and> unat base < (i + 1) * 4096}"
proof -
  define xs where "xs = [unat (align_down base PAGE_SIZE div PAGE_SIZE)..<
    min (unat (align_up (saturating_add base len) PAGE_SIZE div PAGE_SIZE)) (tracked_pages p)]"
  have "reserve base len p = fold reserve_page xs p"
    using assms(1,3) by (auto simp: reserve_def Let_def xs_def pmm_inv_def)
  moreover have "set xs = {i. i * 4096 < unat base + unat len \<and> unat base < (i + 1) * 4096}
      \<inter> {..<tracked_pages p}"
    using assms(2) by (auto simp: xs_def unat_ops unat_align_up)
  ultimately show ?thesis
    using reserve_fold [of p xs] assms(1) by (auto simp: mem_free_set)
qed

lemma reserve_inv: "pmm_inv p \<Longrightarrow> pmm_inv (reserve base len p)"
  using reserve_fold [of p] by (simp add: reserve_def Let_def)

section \<open>The interface the rest of the kernel relies on\<close>

text \<open>
  The heap and the virtual memory manager see the allocator as two operations on a state and a
  set of pages available for allocation.  Pages that are handed out leave the set, so two live
  allocations never share a page; a failed call changes nothing.
\<close>

locale page_allocator =
  fixes alloc :: "nat \<Rightarrow> u64 \<Rightarrow> 's \<Rightarrow> u64 option \<times> 's"
    and release :: "u64 \<Rightarrow> 's \<Rightarrow> bool \<times> 's"
    and avail :: "'s \<Rightarrow> nat set"
    and wf :: "'s \<Rightarrow> bool"
  assumes alloc_None: "wf s \<Longrightarrow> alloc n m s = (None, s') \<Longrightarrow> s' = s"
    and alloc_Some: "wf s \<Longrightarrow> alloc n m s = (Some a, s') \<Longrightarrow>
      \<exists>first. 0 < n \<and> 1 \<le> first \<and> first + n \<le> MAX_PAGES \<and> unat a = first * 4096
        \<and> {first..<first + n} \<subseteq> avail s \<and> avail s' = avail s - {first..<first + n} \<and> wf s'"
    and release_True: "wf s \<Longrightarrow> release a s = (True, s') \<Longrightarrow>
      unat a div 4096 \<notin> avail s \<and> avail s' = insert (unat a div 4096) (avail s) \<and> wf s'"
    and release_False: "wf s \<Longrightarrow> release a s = (False, s') \<Longrightarrow> s' = s"
begin

lemma alloc_wf: "wf s \<Longrightarrow> wf (snd (alloc n m s))"
  using alloc_None [of s n m] alloc_Some [of s n m]
  by (cases "alloc n m s"; cases "fst (alloc n m s)") auto

lemma release_wf: "wf s \<Longrightarrow> wf (snd (release a s))"
  using release_True [of s a] release_False [of s a]
  by (cases "release a s"; cases "fst (release a s)") auto

lemma alloc_avail_mono: "wf s \<Longrightarrow> avail (snd (alloc n m s)) \<subseteq> avail s"
  using alloc_None [of s n m] alloc_Some [of s n m]
  by (cases "alloc n m s"; cases "fst (alloc n m s)") auto

end

interpretation pm: page_allocator alloc_pages_below free_page free_set pmm_inv
proof
  fix n m s a s'
  assume "pmm_inv s" and "alloc_pages_below n m s = (Some a, s')"
  from alloc_Some_spec [OF this] \<open>pmm_inv s\<close>
  show "\<exists>first. 0 < n \<and> 1 \<le> first \<and> first + n \<le> MAX_PAGES \<and> unat a = first * 4096
      \<and> {first..<first + n} \<subseteq> free_set s \<and> free_set s' = free_set s - {first..<first + n}
      \<and> pmm_inv s'"
    by (auto simp: page_bound_def pmm_inv_def)
next
  fix a s s'
  assume "pmm_inv s" and "free_page a s = (True, s')"
  from free_page_spec [OF this]
  show "unat a div 4096 \<notin> free_set s \<and> free_set s' = insert (unat a div 4096) (free_set s)
      \<and> pmm_inv s'"
    by simp
next
  fix a s s'
  assume "pmm_inv s" and "free_page a s = (False, s')"
  from free_page_spec [OF this] show "s' = s" by simp
qed (rule alloc_None_unchanged)

section \<open>Properties\<close>

lemma alloc_round_spec:
  assumes "pmm_inv p" "alloc_round n p = (pages, q)"
  shows "pmm_inv q \<and> tracked_pages q = tracked_pages p \<and> distinct (map (\<lambda>a. unat a div 4096) pages)
    \<and> (\<forall>a\<in>set pages. unat a mod 4096 = 0 \<and> 0 < unat a div 4096 \<and> unat a div 4096 \<in> free_set p)
    \<and> free_set q = free_set p - (\<lambda>a. unat a div 4096) ` set pages"
  using assms
proof (induction n arbitrary: p pages)
  case (Suc n)
  show ?case
  proof (cases "alloc_page p")
    case (Pair r p')
    show ?thesis
    proof (cases r)
      case None
      with Suc.prems Pair alloc_None_unchanged show ?thesis
        by (auto simp: alloc_page_def alloc_pages_def)
    next
      case (Some a)
      obtain first where f: "1 \<le> first" "unat a = first * 4096" "first \<in> free_set p"
        "free_set p' = free_set p - {first}" "tracked_pages p' = tracked_pages p" "pmm_inv p'"
        using alloc_Some_spec [of p 1 "- 1" a p'] Suc.prems(1) Pair Some
        by (auto simp: alloc_page_def alloc_pages_def)
      obtain ps where ps: "alloc_round n p' = (ps, q)" "pages = a # ps"
        using Suc.prems(2) Pair Some by (auto split: prod.splits)
      from Suc.IH [OF f(6) ps(1)] f ps(2) show ?thesis by auto
    qed
  qed
qed simp

lemma free_round_spec:
  assumes "pmm_inv p" "distinct (map (\<lambda>a. unat a div 4096) pages)"
    "\<forall>a\<in>set pages. unat a mod 4096 = 0 \<and> 0 < unat a div 4096 \<and> unat a div 4096 < tracked_pages p
       \<and> unat a div 4096 \<notin> free_set p"
  shows "pmm_inv (fold (\<lambda>page q. snd (free_page page q)) pages p)
    \<and> tracked_pages (fold (\<lambda>page q. snd (free_page page q)) pages p) = tracked_pages p
    \<and> free_set (fold (\<lambda>page q. snd (free_page page q)) pages p)
        = free_set p \<union> (\<lambda>a. unat a div 4096) ` set pages"
  using assms
proof (induction pages arbitrary: p)
  case (Cons a pages)
  have "unat a = unat a div 4096 * 4096"
    using Cons.prems(3) by (auto simp: div_mult_mod_eq)
  then obtain q where q: "free_page a p = (True, q)" "free_set q = insert (unat a div 4096) (free_set p)"
    "tracked_pages q = tracked_pages p" "pmm_inv q"
    using free_page_ok [of p "unat a div 4096" a] Cons.prems by auto
  have "unat a div 4096 \<notin> (\<lambda>b. unat b div 4096) ` set pages"
    using Cons.prems(2) by simp
  then have "\<forall>b\<in>set pages. unat b div 4096 \<noteq> unat a div 4096"
    by (metis image_eqI)
  then have "\<forall>b\<in>set pages. unat b div 4096 \<notin> free_set q"
    using Cons.prems(3) q(2) by simp
  then show ?case
    using Cons.IH [OF q(4)] Cons.prems q by auto
qed simp


subsection \<open>A small machine for the examples\<close>

definition demo_map :: "MemoryRegion list" where
  "demo_map =
     [\<lparr>region_base = 0, region_length = 0x5000, region_type = Usable, region_attributes = 0\<rparr>,
      \<lparr>region_base = 0x5000, region_length = 0x1000, region_type = Reserved, region_attributes = 0\<rparr>]"

definition demo_pmm :: pmm where
  "demo_pmm = pmm_init demo_map pmm_new"

lemma demo_inv: "pmm_inv demo_pmm"
  unfolding demo_pmm_def using pmm_init_correct by blast

lemmas demo_eval = demo_pmm_def pmm_init_def Let_def highest_end_def align_up_def align_down_def
  PAGE_SIZE_def MAX_PAGES_eq demo_map_def init_region_def saturating_add_def pmm_reset_def
  init_page_def upt_conv_Cons is_used_def set_free_def set_used_def

lemma demo_fields:
  "tracked_pages demo_pmm = 6" "pmm_initialized demo_pmm" "free_pages demo_pmm = 4"
  "next_hint demo_pmm = 1"
  by (simp_all add: demo_eval)

lemma demo_used: "\<not> is_used demo_pmm 1" "\<not> is_used demo_pmm 2"
  by (simp_all add: demo_eval)

lemma demo_alloc: "fst (alloc_pages_below 2 (- 1) demo_pmm) = Some 0x1000"
  using demo_used
  by (simp add: alloc_pages_below_def Let_def demo_fields range_free_def upt_conv_Cons PAGE_SIZE_def
      numeral_2_eq_2)

subsection \<open>Theorems\<close>

text \<open>C32 (initialisation).  From any firmware memory map the allocator comes up with a consistent
  free counter, and the pages it will hand out are exactly the tracked pages other than page 0 that
  lie entirely inside a usable region: a page shared with a partial or reserved region is never
  given away.\<close>

theorem pmm_init_frees_usable:
  "pmm_inv (pmm_init es p0)
   \<and> free_set (pmm_init es p0) = {i. 0 < i \<and> i < tracked_pages (pmm_init es p0)
        \<and> (\<exists>r\<in>set es. region_type r = Usable \<and> i \<in> region_pages r)}"
  by (rule pmm_init_correct)

text \<open>C1 (allocation is exclusive).  A successful allocation returns a page-aligned, non-null
  address of a run of pages that were all free, takes exactly these pages out of the free set, keeps
  the invariant, and stays below the requested limit rounded up to a page.\<close>

theorem pmm_alloc_exclusive:
  assumes "pmm_inv p" "alloc_pages_below n m p = (Some a, q)"
  shows "\<exists>first. 0 < n \<and> 1 \<le> first \<and> unat a = first * 4096 \<and> first + n \<le> tracked_pages p
    \<and> {first..<first + n} \<subseteq> free_set p \<and> free_set q = free_set p - {first..<first + n}
    \<and> free_pages q + n = free_pages p \<and> pmm_inv q
    \<and> (m \<noteq> - 1 \<longrightarrow> unat a + n * 4096 \<le> (unat m + 4095) div 4096 * 4096)"
proof -
  from alloc_Some_spec [OF assms] obtain first where
    f: "0 < n" "1 \<le> first" "first + n \<le> page_bound m p" "unat a = first * 4096"
    "{first..<first + n} \<subseteq> free_set p" "free_set q = free_set p - {first..<first + n}" "pmm_inv q"
    by blast
  have bound: "page_bound m p \<le> tracked_pages p" by (simp add: page_bound_def)
  have "free_pages q + n = free_pages p"
    using f(5,6,7) assms(1) card_mono [OF finite_free_set f(5)]
    by (simp add: pmm_inv_def card_Diff_subset)
  moreover have "page_bound m p \<le> (unat m + 4095) div 4096" if "m \<noteq> - 1"
  proof -
    have "unat (saturating_add m (PAGE_SIZE - 1)) \<le> unat m + 4095"
      by (simp add: unat_saturating_add PAGE_SIZE_def)
    then have "unat (saturating_add m (PAGE_SIZE - 1) div PAGE_SIZE) \<le> (unat m + 4095) div 4096"
      by (simp add: unat_div_PAGE_SIZE div_le_mono)
    with that show ?thesis by (simp add: page_bound_def)
  qed
  then have "m \<noteq> - 1 \<Longrightarrow> (first + n) * 4096 \<le> (unat m + 4095) div 4096 * 4096"
    using f(3) by (meson mult_le_mono1 order_trans)
  ultimately show ?thesis
    using f bound by (intro exI [of _ first]) (auto simp: add_mult_distrib)
qed

theorem pmm_alloc_exclusive_witness:
  "\<exists>first. 0 < (2::nat) \<and> 1 \<le> first \<and> unat (0x1000 :: u64) = first * 4096
    \<and> first + 2 \<le> tracked_pages demo_pmm \<and> {first..<first + 2} \<subseteq> free_set demo_pmm
    \<and> free_set (snd (alloc_pages_below 2 (- 1) demo_pmm)) = free_set demo_pmm - {first..<first + 2}
    \<and> free_pages (snd (alloc_pages_below 2 (- 1) demo_pmm)) + 2 = free_pages demo_pmm
    \<and> pmm_inv (snd (alloc_pages_below 2 (- 1) demo_pmm))
    \<and> ((- 1 :: u64) \<noteq> - 1 \<longrightarrow>
         unat (0x1000 :: u64) + 2 * 4096 \<le> (unat (- 1 :: u64) + 4095) div 4096 * 4096)"
proof (rule pmm_alloc_exclusive [OF demo_inv])
  show "alloc_pages_below 2 (- 1) demo_pmm
      = (Some 0x1000, snd (alloc_pages_below 2 (- 1) demo_pmm))"
    by (metis demo_alloc prod.collapse)
qed

text \<open>C17 (allocation is complete).  The allocator refuses a request for a positive number of pages
  only when no run of that many free pages exists below the limit: the circular search from the hint
  misses nothing.\<close>

theorem pmm_alloc_complete:
  assumes "pmm_inv p" "0 < n"
  shows "fst (alloc_pages_below n m p) = None
    \<longleftrightarrow> \<not> (\<exists>first. 1 \<le> first \<and> first + n \<le> page_bound m p \<and> free_run p first n)"
  using assms by (cases rule: alloc_pages_below_cases [of p n m]) auto

theorem pmm_alloc_complete_witness:
  "fst (alloc_pages_below 5 (- 1) demo_pmm) = None
    \<longleftrightarrow> \<not> (\<exists>first. 1 \<le> first \<and> first + 5 \<le> page_bound (- 1) demo_pmm \<and> free_run demo_pmm first 5)"
  by (rule pmm_alloc_complete [OF demo_inv]) simp

text \<open>C33 (round trip).  Freeing the whole range that an allocation returned succeeds page by page
  and restores the allocator's free set and counter.\<close>

theorem pmm_alloc_free_roundtrip:
  assumes "pmm_inv p" "alloc_pages_below n m p = (Some a, q)"
  shows "\<exists>r. free_pages_range a n q = (True, r) \<and> free_set r = free_set p
    \<and> free_pages r = free_pages p \<and> pmm_inv r"
proof -
  from alloc_Some_spec [OF assms] obtain first where
    f: "0 < n" "1 \<le> first" "first + n \<le> page_bound m p" "unat a = first * 4096"
    "{first..<first + n} \<subseteq> free_set p" "free_set q = free_set p - {first..<first + n}"
    "tracked_pages q = tracked_pages p" "pmm_inv q"
    by blast
  have "\<exists>r. free_pages_loop n a True q = (True, r) \<and> free_set r = {first..<first + n} \<union> free_set q
      \<and> tracked_pages r = tracked_pages q \<and> pmm_inv r"
    using f by (intro free_pages_loop_ok) (auto simp: page_bound_def)
  moreover have "{first..<first + n} \<union> free_set q = free_set p"
    using f(5,6) by blast
  ultimately show ?thesis
    using f(1) assms(1) by (auto simp: free_pages_range_def pmm_inv_def)
qed

theorem pmm_alloc_free_roundtrip_witness:
  "\<exists>r. free_pages_range 0x1000 2 (snd (alloc_pages_below 2 (- 1) demo_pmm)) = (True, r)
    \<and> free_set r = free_set demo_pmm \<and> free_pages r = free_pages demo_pmm \<and> pmm_inv r"
proof (rule pmm_alloc_free_roundtrip [OF demo_inv])
  show "alloc_pages_below 2 (- 1) demo_pmm
      = (Some 0x1000, snd (alloc_pages_below 2 (- 1) demo_pmm))"
    by (metis demo_alloc prod.collapse)
qed


lemma alloc_then_free_round:
  assumes "pmm_inv p" "alloc_round n p = (pages, q)"
  shows "pmm_inv (fold (\<lambda>page q. snd (free_page page q)) pages q)
    \<and> tracked_pages (fold (\<lambda>page q. snd (free_page page q)) pages q) = tracked_pages p
    \<and> free_set (fold (\<lambda>page q. snd (free_page page q)) pages q) = free_set p"
proof -
  note A = alloc_round_spec [OF assms]
  have "\<forall>a\<in>set pages. unat a mod 4096 = 0 \<and> 0 < unat a div 4096
      \<and> unat a div 4096 < tracked_pages q \<and> unat a div 4096 \<notin> free_set q"
    using A by (auto simp: mem_free_set)
  then have "pmm_inv (fold (\<lambda>page q. snd (free_page page q)) pages q)
    \<and> tracked_pages (fold (\<lambda>page q. snd (free_page page q)) pages q) = tracked_pages q
    \<and> free_set (fold (\<lambda>page q. snd (free_page page q)) pages q)
        = free_set q \<union> (\<lambda>a. unat a div 4096) ` set pages"
    using A by (intro free_round_spec) auto
  moreover have "free_set q \<union> (\<lambda>a. unat a div 4096) ` set pages = free_set p"
    using A by auto
  ultimately show ?thesis using A by simp
qed

text \<open>The allocate, free, reallocate, free diagnostic of the facade ends
  in a consistent state with the same free pages, so the two lines it prints always agree.\<close>

lemma run_reuse_test_restores:
  assumes "pmm_inv p" "run_reuse_test n p = (before, after, q)"
  shows "after = before \<and> free_set q = free_set p \<and> pmm_inv q"
proof -
  obtain first_round p1 where r1: "alloc_round (min n 1000) p = (first_round, p1)" by fastforce
  define p2 where "p2 = fold (\<lambda>page q. snd (free_page page q)) first_round p1"
  obtain second_round p3 where r2: "alloc_round (length first_round) p2 = (second_round, p3)"
    by fastforce
  define p4 where "p4 = fold (\<lambda>page q. snd (free_page page q)) second_round p3"
  have p2: "pmm_inv p2" "tracked_pages p2 = tracked_pages p" "free_set p2 = free_set p"
    using alloc_then_free_round [OF assms(1) r1] by (simp_all add: p2_def)
  have p4: "pmm_inv p4" "tracked_pages p4 = tracked_pages p" "free_set p4 = free_set p"
    using alloc_then_free_round [OF p2(1) r2] p2 by (simp_all add: p4_def)
  have "q = p4" "before = (pmm_used_pages p, pmm_free_pages p)"
    "after = (pmm_used_pages p4, pmm_free_pages p4)"
    using assms(2) r1 r2 by (auto simp: run_reuse_test_def Let_def simp flip: p2_def p4_def)
  moreover have "free_pages p4 = free_pages p" "pmm_initialized p4 = pmm_initialized p"
    using p4 assms(1) by (simp_all add: pmm_inv_def)
  ultimately show ?thesis
    using p4 by (simp add: pmm_used_pages_def pmm_free_pages_def)
qed

end
