(* ===== verification/Kernel_Heap.thy ===== *)
theory Kernel_Heap
  imports Phys_Mem
begin

text \<open>
  The kernel heap of \<^verbatim>\<open>seed/saios/src/heap.rs\<close>: a bump allocator over up to 512 chunks of
  physical pages.  The page source (\<^verbatim>\<open>pmm::alloc_pages_below\<close>) is an argument \<open>alloc\<close> of the
  operations that grow the heap, so that their lemmas are proved once for any \<open>page_allocator\<close> and
  hold for the bitmap allocator through its interpretation.  The static cells (\<^verbatim>\<open>STATE\<close> and
  \<^verbatim>\<open>IDENTITY_HEAP_MAX_PHYS\<close>) are passed explicitly; the spin lock serialises the operations, so one
  operation is one step.
\<close>

section \<open>Data\<close>

definition INITIAL_HEAP_BYTES :: u64 where
  "INITIAL_HEAP_BYTES = 32 * 1024 * 1024"

definition FALLBACK_INITIAL_HEAP_BYTES :: u64 where
  "FALLBACK_INITIAL_HEAP_BYTES = 2 * 1024 * 1024"

definition RESERVED_VIRTUAL_HEAP_BYTES :: u64 where
  "RESERVED_VIRTUAL_HEAP_BYTES = 1024 * 1024 * 1024"

definition FALLBACK_MAX_HEAP_BYTES :: u64 where
  "FALLBACK_MAX_HEAP_BYTES = 32 * 1024 * 1024"

definition HEAP_GROW_STEP_SMALL_BYTES :: u64 where
  "HEAP_GROW_STEP_SMALL_BYTES = 2 * 1024 * 1024"

definition HEAP_GROW_STEP_LARGE_BYTES :: u64 where
  "HEAP_GROW_STEP_LARGE_BYTES = 4 * 1024 * 1024"

definition MAX_HEAP_CHUNKS :: nat where
  "MAX_HEAP_CHUNKS = 512"

record HeapChunk =
  chunk_base :: u64
  chunk_current :: u64
  chunk_end :: u64

definition chunk_empty :: HeapChunk where
  "chunk_empty = \<lparr>chunk_base = 0, chunk_current = 0, chunk_end = 0\<rparr>"

definition chunk_is_empty :: "HeapChunk \<Rightarrow> bool" where
  "chunk_is_empty c \<longleftrightarrow> chunk_base c = 0 \<and> chunk_current c = 0 \<and> chunk_end c = 0"

record HeapState =
  chunks :: "nat \<Rightarrow> HeapChunk"
  chunk_count :: nat
  active_chunk :: nat
  committed_bytes :: u64
  max_bytes :: u64
  target_bytes :: u64
  heap_initialized :: bool

definition heap_new :: HeapState where
  "heap_new = \<lparr>chunks = (\<lambda>_. chunk_empty), chunk_count = 0, active_chunk = 0, committed_bytes = 0,
     max_bytes = 0, target_bytes = 0, heap_initialized = False\<rparr>"

record Layout =
  layout_size :: u64
  layout_align :: u64

record HeapStats =
  stats_total :: u64
  stats_used :: u64
  stats_free :: u64

section \<open>Operations\<close>

definition heap_align_up :: "u64 \<Rightarrow> u64 \<Rightarrow> u64" where
  "heap_align_up value align = (value + align - 1) AND NOT (align - 1)"

definition bytes_to_pages_ceil :: "u64 \<Rightarrow> nat" where
  "bytes_to_pages_ceil bytes =
     (let page = PAGE_SIZE; with_tail = saturating_add bytes (saturating_sub page 1)
      in max 1 (unat (with_tail div page)))"

definition identity_heap_max_phys :: "u64 \<Rightarrow> u64 option" where
  "identity_heap_max_phys cell = (if cell = 0 then None else Some cell)"

definition configure_identity_mode :: "u64 option \<Rightarrow> u64" where
  "configure_identity_mode max_phys = (case max_phys of None \<Rightarrow> 0 | Some v \<Rightarrow> v)"

fun alloc_best_effort_pages ::
    "(nat \<Rightarrow> u64 \<Rightarrow> 's \<Rightarrow> u64 option \<times> 's) \<Rightarrow> u64 \<Rightarrow> nat \<Rightarrow> 's \<Rightarrow> (u64 \<times> nat) option \<times> 's" where
  "alloc_best_effort_pages alloc cell pages s =
     (if pages = 0 then (None, s)
      else case (case identity_heap_max_phys cell of
                   Some max_phys \<Rightarrow> alloc pages max_phys s
                 | None \<Rightarrow> alloc pages (- 1) s) of
             (Some base, s') \<Rightarrow> (Some (base, pages), s')
           | (None, s') \<Rightarrow> alloc_best_effort_pages alloc cell (pages div 2) s')"

declare alloc_best_effort_pages.simps [simp del]

definition add_chunk :: "HeapState \<Rightarrow> u64 \<Rightarrow> u64 \<Rightarrow> bool \<times> HeapState" where
  "add_chunk st base bytes =
     (if chunk_count st \<ge> MAX_HEAP_CHUNKS \<or> bytes = 0 then (False, st)
      else if committed_bytes st \<ge> max_bytes st then (False, st)
      else let available = saturating_sub (max_bytes st) (committed_bytes st);
               bytes = min bytes available in
      if bytes = 0 then (False, st)
      else let idx = chunk_count st in
        (True, st\<lparr>chunks := (chunks st)(idx := \<lparr>chunk_base = base, chunk_current = base,
                     chunk_end = saturating_add base bytes\<rparr>),
                 chunk_count := idx + 1,
                 committed_bytes := saturating_add (committed_bytes st) bytes\<rparr>))"

lemma add_chunk_count: "add_chunk st b n = (True, st') \<Longrightarrow> chunk_count st' = Suc (chunk_count st)"
  by (auto simp: add_chunk_def Let_def split: if_splits)

function grow_loop ::
    "(nat \<Rightarrow> u64 \<Rightarrow> 's \<Rightarrow> u64 option \<times> 's) \<Rightarrow> u64 \<Rightarrow> u64 \<Rightarrow> u64 \<Rightarrow> HeapState \<Rightarrow> 's \<Rightarrow> HeapState \<times> 's" where
  "grow_loop alloc cell desired growth_step_bytes st s =
     (if committed_bytes st < desired \<and> chunk_count st < MAX_HEAP_CHUNKS
      then let remaining = saturating_sub desired (committed_bytes st);
               request_bytes = min remaining growth_step_bytes;
               request_pages = bytes_to_pages_ceil request_bytes
           in case alloc_best_effort_pages alloc cell request_pages s of
                (None, s') \<Rightarrow> (st, s')
              | (Some (base, pages), s') \<Rightarrow>
                  let bytes = saturating_mul (of_nat pages) PAGE_SIZE
                  in case add_chunk st base bytes of
                       (False, st') \<Rightarrow> (st', s')
                     | (True, st') \<Rightarrow> grow_loop alloc cell desired growth_step_bytes st' s'
      else (st, s))"
  by pat_completeness auto
termination
  by (relation "measure (\<lambda>(_, _, _, _, st, _). MAX_HEAP_CHUNKS - chunk_count st)")
     (auto dest: add_chunk_count [OF sym])

declare grow_loop.simps [simp del]

definition grow_heap_locked ::
    "(nat \<Rightarrow> u64 \<Rightarrow> 's \<Rightarrow> u64 option \<times> 's) \<Rightarrow> u64 \<Rightarrow> HeapState \<Rightarrow> u64 \<Rightarrow> u64 \<Rightarrow> 's \<Rightarrow> HeapState \<times> 's" where
  "grow_heap_locked alloc cell st desired_bytes growth_step_bytes s =
     (let desired = min desired_bytes (max_bytes st)
      in grow_loop alloc cell desired growth_step_bytes st s)"

definition chunk_fit :: "HeapChunk \<Rightarrow> Layout \<Rightarrow> (u64 \<times> u64) option" where
  "chunk_fit c layout =
     (if chunk_is_empty c then None
      else let alloc_start = heap_align_up (chunk_current c) (layout_align layout);
               alloc_end = saturating_add alloc_start (layout_size layout)
           in if alloc_end \<le> chunk_end c then Some (alloc_start, alloc_end) else None)"

fun try_chunks :: "HeapState \<Rightarrow> Layout \<Rightarrow> nat list \<Rightarrow> u64 option \<times> HeapState" where
  "try_chunks st layout [] = (None, st)"
| "try_chunks st layout (i # is) =
     (let idx = (active_chunk st + i) mod chunk_count st; chunk = chunks st idx
      in case chunk_fit chunk layout of
           None \<Rightarrow> try_chunks st layout is
         | Some (alloc_start, alloc_end) \<Rightarrow>
             (Some alloc_start,
              st\<lparr>chunks := (chunks st)(idx := chunk\<lparr>chunk_current := alloc_end\<rparr>),
                 active_chunk := idx\<rparr>))"

definition try_alloc_from_chunks :: "HeapState \<Rightarrow> Layout \<Rightarrow> u64 option \<times> HeapState" where
  "try_alloc_from_chunks st layout =
     (if chunk_count st = 0 then (None, st) else try_chunks st layout [0..<chunk_count st])"

definition compute_used_bytes :: "HeapState \<Rightarrow> u64" where
  "compute_used_bytes st =
     fold (\<lambda>i used. let c = chunks st i
                    in saturating_add used (saturating_sub (chunk_current c) (chunk_base c)))
       [0..<chunk_count st] 0"

text \<open>Pointers are addresses; the null pointer is 0 and the dangling pointer of \<^verbatim>\<open>u8\<close> is 1.\<close>

definition heap_alloc ::
    "(nat \<Rightarrow> u64 \<Rightarrow> 's \<Rightarrow> u64 option \<times> 's) \<Rightarrow> u64 \<Rightarrow> Layout \<Rightarrow> HeapState \<Rightarrow> 's \<Rightarrow> u64 \<times> HeapState \<times> 's" where
  "heap_alloc alloc cell layout st s =
     (if layout_size layout = 0 then (1, st, s)
      else if \<not> heap_initialized st then (0, st, s)
      else case try_alloc_from_chunks st layout of
        (Some p, st') \<Rightarrow> (p, st', s)
      | (None, st) \<Rightarrow>
          let (st, s) =
                (if committed_bytes st < target_bytes st
                 then let growth_step =
                            (if layout_size layout > HEAP_GROW_STEP_SMALL_BYTES
                             then HEAP_GROW_STEP_LARGE_BYTES else HEAP_GROW_STEP_SMALL_BYTES);
                          min_extra = max (layout_size layout) growth_step;
                          desired = min (target_bytes st)
                                      (saturating_add (committed_bytes st) min_extra)
                      in grow_heap_locked alloc cell st desired growth_step s
                 else (st, s))
          in case try_alloc_from_chunks st layout of
               (Some p, st') \<Rightarrow> (p, st', s)
             | (None, st') \<Rightarrow> (0, st', s))"

definition heap_dealloc :: "u64 \<Rightarrow> Layout \<Rightarrow> HeapState \<Rightarrow> HeapState" where
  "heap_dealloc p layout st = st"

text \<open>\<open>heap_init\<close> returns None where the source's assertion panics.\<close>

definition heap_init ::
    "(nat \<Rightarrow> u64 \<Rightarrow> 's \<Rightarrow> u64 option \<times> 's) \<Rightarrow> nat \<Rightarrow> u64 \<Rightarrow> 's \<Rightarrow> HeapState option \<times> 's" where
  "heap_init alloc total_pages cell s =
     (let total_ram_bytes = saturating_mul (of_nat total_pages) PAGE_SIZE;
          fallback_mode = (identity_heap_max_phys cell \<noteq> None);
          max = (if fallback_mode then min total_ram_bytes FALLBACK_MAX_HEAP_BYTES
                 else min total_ram_bytes RESERVED_VIRTUAL_HEAP_BYTES);
          st = heap_new\<lparr>max_bytes := max, target_bytes := max\<rparr>;
          initial = (if fallback_mode then min FALLBACK_INITIAL_HEAP_BYTES (max_bytes st)
                     else min INITIAL_HEAP_BYTES (max_bytes st));
          (st, s) = grow_heap_locked alloc cell st initial HEAP_GROW_STEP_LARGE_BYTES s;
          st = st\<lparr>heap_initialized := chunk_count st > 0\<rparr>
      in (if heap_initialized st then Some st else None, s))"

definition heap_stats :: "HeapState \<Rightarrow> HeapStats" where
  "heap_stats st =
     (if \<not> heap_initialized st then \<lparr>stats_total = 0, stats_used = 0, stats_free = 0\<rparr>
      else let total = committed_bytes st; used = compute_used_bytes st;
               free = saturating_sub total used
           in \<lparr>stats_total = total, stats_used = used, stats_free = free\<rparr>)"

text \<open>A client that allocates a list of layouts one after the other.\<close>

fun heap_run ::
    "(nat \<Rightarrow> u64 \<Rightarrow> 's \<Rightarrow> u64 option \<times> 's) \<Rightarrow> u64 \<Rightarrow> Layout list \<Rightarrow> HeapState \<Rightarrow> 's
      \<Rightarrow> (u64 \<times> Layout) list \<times> HeapState \<times> 's" where
  "heap_run alloc cell [] st s = ([], st, s)"
| "heap_run alloc cell (l # ls) st s =
     (let (a, st, s) = heap_alloc alloc cell l st s;
          (rs, st, s) = heap_run alloc cell ls st s
      in ((a, l) # rs, st, s))"

section \<open>The heap invariant\<close>

text \<open>What the standard library guarantees of a \<^verbatim>\<open>Layout\<close>: the alignment is a power of two and the
  size, rounded up to it, fits in \<^verbatim>\<open>isize\<close>.\<close>

definition layout_ok :: "Layout \<Rightarrow> bool" where
  "layout_ok l \<longleftrightarrow> (\<exists>k<63. layout_align l = 2 ^ k) \<and> unat (layout_size l) + unat (layout_align l) \<le> 2 ^ 63"

definition chunk_ok :: "HeapChunk \<Rightarrow> bool" where
  "chunk_ok c \<longleftrightarrow> 4096 \<le> unat (chunk_base c) \<and> unat (chunk_base c) \<le> unat (chunk_current c)
     \<and> unat (chunk_current c) \<le> unat (chunk_end c) \<and> unat (chunk_end c) \<le> 2 ^ 36
     \<and> unat (chunk_end c) \<le> unat (chunk_base c) + 4194304"

definition chunk_span :: "HeapChunk \<Rightarrow> nat set" where
  "chunk_span c = {unat (chunk_base c)..<unat (chunk_end c)}"

definition chunk_consumed :: "HeapChunk \<Rightarrow> nat set" where
  "chunk_consumed c = {unat (chunk_base c)..<unat (chunk_current c)}"

definition consumed :: "HeapState \<Rightarrow> nat set" where
  "consumed st = (\<Union>i<chunk_count st. chunk_consumed (chunks st i))"

definition heap_wf :: "nat set \<Rightarrow> HeapState \<Rightarrow> bool" where
  "heap_wf A st \<longleftrightarrow>
     (\<forall>i<chunk_count st. chunk_ok (chunks st i) \<and> (\<forall>x\<in>chunk_span (chunks st i). x div 4096 \<notin> A))
     \<and> (\<forall>i<chunk_count st. \<forall>j<chunk_count st. i \<noteq> j \<longrightarrow>
          chunk_span (chunks st i) \<inter> chunk_span (chunks st j) = {})
     \<and> chunk_count st \<le> MAX_HEAP_CHUNKS
     \<and> unat (committed_bytes st) =
         (\<Sum>i<chunk_count st. unat (chunk_end (chunks st i)) - unat (chunk_base (chunks st i)))
     \<and> committed_bytes st \<le> max_bytes st \<and> unat (max_bytes st) \<le> 2 ^ 30"

lemma heap_wf_antimono: "heap_wf A st \<Longrightarrow> B \<subseteq> A \<Longrightarrow> heap_wf B st"
  by (fastforce simp: heap_wf_def)

lemma heap_wf_frame [simp]:
  "heap_wf A (st\<lparr>active_chunk := i\<rparr>) = heap_wf A st"
  "heap_wf A (st\<lparr>heap_initialized := b\<rparr>) = heap_wf A st"
  by (simp_all add: heap_wf_def)

lemma consumed_frame [simp]: "consumed (st\<lparr>active_chunk := i\<rparr>) = consumed st"
  by (simp add: consumed_def)

subsection \<open>Bumping a chunk\<close>

lemma chunk_fit_spec:
  assumes "chunk_ok c" "layout_ok l" "chunk_fit c l = Some (a, e)"
  shows "unat (chunk_current c) \<le> unat a" "unat a mod unat (layout_align l) = 0"
    "unat e = unat a + unat (layout_size l)" "unat e \<le> unat (chunk_end c)"
proof -
  from assms(2) obtain k where k: "k < 63" "layout_align l = 2 ^ k" by (auto simp: layout_ok_def)
  have al: "unat (layout_align l) = 2 ^ k" using k by (simp add: unat_pow2)
  have le: "(2::nat) ^ k \<le> 2 ^ 62" using k(1) by (intro power_increasing) auto
  from assms(3) have a: "a = heap_align_up (chunk_current c) (layout_align l)"
    and e: "e = saturating_add a (layout_size l)" and fit: "unat e \<le> unat (chunk_end c)"
    by (auto simp: chunk_fit_def Let_def word_le_nat_alt split: if_splits)
  have cur: "unat (chunk_current c) \<le> 2 ^ 36" using assms(1) by (simp add: chunk_ok_def)
  then have ua: "unat a = (unat (chunk_current c) + 2 ^ k - 1) div 2 ^ k * 2 ^ k"
    unfolding a heap_align_up_def k(2) using k(1) le
    by (intro unat_align_up_pow2) simp_all
  then show "unat (chunk_current c) \<le> unat a" "unat a mod unat (layout_align l) = 0"
    using round_up_bounds(1) [of "2 ^ k" "unat (chunk_current c)"] al by simp_all
  show "unat e \<le> unat (chunk_end c)" by (rule fit)
  moreover have "unat (chunk_end c) \<le> 2 ^ 36" using assms(1) by (simp add: chunk_ok_def)
  ultimately show "unat e = unat a + unat (layout_size l)"
    unfolding e by (simp add: unat_saturating_add)
qed

lemma bump_chunk_wf:
  assumes "heap_wf A st" "idx < chunk_count st"
    "unat (chunk_current (chunks st idx)) \<le> unat e" "unat e \<le> unat (chunk_end (chunks st idx))"
  shows "heap_wf A (st\<lparr>chunks := (chunks st)(idx := (chunks st idx)\<lparr>chunk_current := e\<rparr>)\<rparr>)"
proof -
  define st' where "st' = st\<lparr>chunks := (chunks st)(idx := (chunks st idx)\<lparr>chunk_current := e\<rparr>)\<rparr>"
  have same: "chunk_span (chunks st' i) = chunk_span (chunks st i)"
    "chunk_end (chunks st' i) = chunk_end (chunks st i)"
    "chunk_base (chunks st' i) = chunk_base (chunks st i)" for i
    by (simp_all add: st'_def chunk_span_def)
  have "chunk_ok (chunks st' i)" if "i < chunk_count st" for i
    using assms that by (auto simp: st'_def heap_wf_def chunk_ok_def)
  then have "heap_wf A st'"
    using assms(1) unfolding heap_wf_def same by (simp add: st'_def)
  then show ?thesis by (simp add: st'_def)
qed


definition block :: "u64 \<Rightarrow> Layout \<Rightarrow> nat set" where
  "block a l = {unat a..<unat a + unat (layout_size l)}"

text \<open>A block handed out by one step: aligned, never null, inside a chunk, fresh with respect to
  everything consumed before, and consumed afterwards.\<close>

definition fresh_block :: "HeapState \<Rightarrow> Layout \<Rightarrow> u64 \<Rightarrow> HeapState \<Rightarrow> bool" where
  "fresh_block st l a st' \<longleftrightarrow>
     unat a mod unat (layout_align l) = 0 \<and> 4096 \<le> unat a
     \<and> (\<exists>i<chunk_count st'. block a l \<subseteq> chunk_span (chunks st' i))
     \<and> block a l \<inter> consumed st = {} \<and> consumed st \<union> block a l \<subseteq> consumed st'"

lemma consumed_subset_span:
  "heap_wf A st \<Longrightarrow> i < chunk_count st \<Longrightarrow>
    chunk_consumed (chunks st i) \<subseteq> chunk_span (chunks st i)"
  by (auto simp: heap_wf_def chunk_ok_def chunk_consumed_def chunk_span_def)

lemma bump_consumed:
  assumes wf: "heap_wf A st" and idx: "idx < chunk_count st"
    and c: "c = chunks st idx" and lo: "unat (chunk_current c) \<le> unat a" and ae: "unat a \<le> unat e"
    and hi: "unat e \<le> unat (chunk_end c)"
  defines "st' \<equiv> st\<lparr>chunks := (chunks st)(idx := c\<lparr>chunk_current := e\<rparr>)\<rparr>"
  shows "{unat a..<unat e} \<inter> consumed st = {}" "consumed st \<union> {unat a..<unat e} \<subseteq> consumed st'"
    "{unat a..<unat e} \<subseteq> chunk_span (chunks st' idx)"
proof -
  have ok: "chunk_ok c" using wf idx c by (simp add: heap_wf_def)
  have sub: "{unat a..<unat e} \<subseteq> chunk_span c" "{unat a..<unat e} \<inter> chunk_consumed c = {}"
    using ok lo hi by (auto simp: chunk_ok_def chunk_span_def chunk_consumed_def)
  then show "{unat a..<unat e} \<subseteq> chunk_span (chunks st' idx)"
    by (simp add: st'_def chunk_span_def)
  have "{unat a..<unat e} \<inter> chunk_consumed (chunks st i) = {}" if "i < chunk_count st" for i
  proof (cases "i = idx")
    case False
    then have "chunk_span (chunks st i) \<inter> chunk_span c = {}"
      using wf idx that c by (auto simp: heap_wf_def)
    then show ?thesis using sub(1) consumed_subset_span [OF wf that] by blast
  qed (use sub(2) c in simp)
  then show "{unat a..<unat e} \<inter> consumed st = {}" by (auto simp: consumed_def)
  have "chunk_consumed (chunks st i) \<subseteq> chunk_consumed (chunks st' i)" for i
    using ok lo ae c by (auto simp: st'_def chunk_consumed_def chunk_ok_def)
  moreover have "{unat a..<unat e} \<subseteq> chunk_consumed (chunks st' idx)"
    using ok lo by (auto simp: st'_def chunk_consumed_def chunk_ok_def)
  moreover have "chunk_count st' = chunk_count st" by (simp add: st'_def)
  ultimately show "consumed st \<union> {unat a..<unat e} \<subseteq> consumed st'"
    using idx by (fastforce simp: consumed_def)
qed

lemma try_chunks_spec:
  assumes "heap_wf A st" "layout_ok l" "0 < chunk_count st" "try_chunks st l is = (r, st')"
  shows "heap_wf A st' \<and> chunk_count st' = chunk_count st
    \<and> (case r of None \<Rightarrow> st' = st | Some a \<Rightarrow> fresh_block st l a st')"
  using assms
proof (induction "is")
  case (Cons i "is")
  define idx where "idx = (active_chunk st + i) mod chunk_count st"
  have idx: "idx < chunk_count st" using Cons.prems(3) by (simp add: idx_def)
  then have ok: "chunk_ok (chunks st idx)" using Cons.prems(1) by (simp add: heap_wf_def)
  show ?case
  proof (cases "chunk_fit (chunks st idx) l")
    case None
    then show ?thesis using Cons by (simp add: Let_def flip: idx_def)
  next
    case (Some ae)
    obtain a e where ae: "ae = (a, e)" by fastforce
    note fit = chunk_fit_spec [OF ok Cons.prems(2) Some [unfolded ae]]
    have le: "unat a \<le> unat e" using fit(3) by simp
    define bumped where
      "bumped = st\<lparr>chunks := (chunks st)(idx := (chunks st idx)\<lparr>chunk_current := e\<rparr>)\<rparr>"
    have res: "r = Some a" "st' = bumped\<lparr>active_chunk := idx\<rparr>"
      using Cons.prems(4) Some ae by (simp_all add: Let_def bumped_def flip: idx_def)
    have blk: "block a l = {unat a..<unat e}" using fit(3) by (simp add: block_def)
    note B = bump_consumed [OF Cons.prems(1) idx refl fit(1) le fit(4), folded bumped_def]
    have "fresh_block st l a bumped"
      unfolding fresh_block_def blk
      using fit(1,2) B idx ok by (auto simp: chunk_ok_def bumped_def)
    moreover have "heap_wf A bumped"
      unfolding bumped_def using bump_chunk_wf [OF Cons.prems(1) idx _ fit(4)] fit(1) le by simp
    ultimately show ?thesis
      by (simp add: res fresh_block_def bumped_def)
  qed
qed simp

lemma try_alloc_spec:
  assumes "heap_wf A st" "layout_ok l" "try_alloc_from_chunks st l = (r, st')"
  shows "heap_wf A st' \<and> chunk_count st' = chunk_count st
    \<and> (case r of None \<Rightarrow> st' = st | Some a \<Rightarrow> fresh_block st l a st')"
  using assms try_chunks_spec [OF assms(1,2), of "[0..<chunk_count st]" r st']
  by (auto simp: try_alloc_from_chunks_def split: if_splits)

subsection \<open>Growing the heap\<close>

lemma pages_request_small:
  assumes "unat b \<le> 4194304"
  shows "bytes_to_pages_ceil b \<le> 1024" "0 < bytes_to_pages_ceil b"
proof -
  have "unat (saturating_add b (saturating_sub PAGE_SIZE 1)) = unat b + 4095"
    using assms by (simp add: unat_saturating_add unat_saturating_sub PAGE_SIZE_mask)
  then show "bytes_to_pages_ceil b \<le> 1024" "0 < bytes_to_pages_ceil b"
    using assms by (simp_all add: bytes_to_pages_ceil_def Let_def unat_div_PAGE_SIZE)
qed

lemma span_pages:
  assumes "unat (chunk_base c) = first * 4096" "unat (chunk_end c) \<le> (first + n) * 4096"
    "x \<in> chunk_span c"
  shows "x div 4096 \<in> {first..<first + n}"
proof -
  have "first * 4096 \<le> x" "x < (first + n) * 4096"
    using assms by (auto simp: chunk_span_def)
  then show ?thesis by (auto simp: less_mult_imp_div_less less_eq_div_iff_mult_less_eq)
qed

lemma add_chunk_spec:
  assumes wf: "heap_wf A st" and n: "0 < n" "n \<le> 1024"
    and run: "1 \<le> first" "first + n \<le> MAX_PAGES" "{first..<first + n} \<subseteq> A"
    and base: "unat base = first * 4096"
    and add: "add_chunk st base (saturating_mul (of_nat n) PAGE_SIZE) = (ok, st')"
  shows "heap_wf (A - {first..<first + n}) st' \<and> consumed st' = consumed st
    \<and> chunk_count st \<le> chunk_count st' \<and> max_bytes st' = max_bytes st
    \<and> target_bytes st' = target_bytes st \<and> heap_initialized st' = heap_initialized st"
proof (cases ok)
  case False
  then have "st' = st" using add by (auto simp: add_chunk_def Let_def split: if_splits)
  then show ?thesis using heap_wf_antimono [OF wf] by auto
next
  case True
  define bytes where "bytes = min (saturating_mul (of_nat n) PAGE_SIZE)
    (saturating_sub (max_bytes st) (committed_bytes st))"
  define c where
    "c = \<lparr>chunk_base = base, chunk_current = base, chunk_end = saturating_add base bytes\<rparr>"
  from add True have st': "st' = st\<lparr>chunks := (chunks st)(chunk_count st := c),
      chunk_count := chunk_count st + 1,
      committed_bytes := saturating_add (committed_bytes st) bytes\<rparr>"
    and room: "chunk_count st < MAX_HEAP_CHUNKS"
    by (auto simp: add_chunk_def Let_def bytes_def c_def split: if_splits)
  have "unat (of_nat n :: u64) = n" using n(2) by (simp add: unat_of_nat)
  then have mul: "unat (saturating_mul (of_nat n) PAGE_SIZE) = n * 4096"
    using n(2) by (simp add: unat_saturating_mul PAGE_SIZE_mask)
  then have bytes: "unat bytes \<le> n * 4096"
    "unat bytes \<le> unat (max_bytes st) - unat (committed_bytes st)"
    by (auto simp: bytes_def min_def unat_ops)
  have e: "unat (chunk_end c) = first * 4096 + unat bytes"
    using base bytes(1) n(2) run(2) by (simp add: c_def unat_saturating_add MAX_PAGES_eq)
  have pages: "x div 4096 \<in> {first..<first + n}" if "x \<in> chunk_span c" for x
    by (rule span_pages [OF _ _ that]) (use base e bytes(1) in \<open>auto simp: c_def add_mult_distrib\<close>)
  have "chunk_ok c"
    using base e bytes(1) n(2) run(1,2)
    by (auto simp: chunk_ok_def c_def MAX_PAGES_eq)
  moreover have "chunk_span (chunks st i) \<inter> chunk_span c = {}" if "i < chunk_count st" for i
    using wf that pages run(3) by (fastforce simp: heap_wf_def)
  moreover have "unat (saturating_add (committed_bytes st) bytes)
      = unat (committed_bytes st) + unat bytes"
    "unat (committed_bytes st) + unat bytes \<le> unat (max_bytes st)"
    using wf bytes(2) by (auto simp: heap_wf_def unat_ops)
  ultimately have "heap_wf (A - {first..<first + n}) st'"
    using wf pages room e base
    by (auto simp: heap_wf_def st' less_Suc_eq word_le_nat_alt c_def Int_commute)
  then show ?thesis
    by (auto simp: st' consumed_def lessThan_Suc c_def chunk_consumed_def)
qed

definition same_limits :: "HeapState \<Rightarrow> HeapState \<Rightarrow> bool" where
  "same_limits st st' \<longleftrightarrow> max_bytes st' = max_bytes st \<and> target_bytes st' = target_bytes st
     \<and> heap_initialized st' = heap_initialized st"

definition heap_bound :: "u64 \<Rightarrow> u64" where
  "heap_bound cell = (case identity_heap_max_phys cell of Some m \<Rightarrow> m | None \<Rightarrow> - 1)"

context page_allocator
begin

lemma best_effort_spec:
  assumes "wf s" "alloc_best_effort_pages alloc cell pages s = (r, s')"
  shows "case r of
      None \<Rightarrow> s' = s \<and> (0 < pages \<longrightarrow> fst (alloc 1 (heap_bound cell) s) = None)
    | Some (base, n) \<Rightarrow> n \<le> pages \<and> alloc n (heap_bound cell) s = (Some base, s')"
  using assms
proof (induction pages arbitrary: s rule: less_induct)
  case (less pages)
  show ?case
  proof (cases "pages = 0")
    case False
    obtain x t where xt: "alloc pages (heap_bound cell) s = (x, t)" by fastforce
    have unfold: "alloc_best_effort_pages alloc cell pages s =
        (case alloc pages (heap_bound cell) s of
           (Some base, s') \<Rightarrow> (Some (base, pages), s')
         | (None, s') \<Rightarrow> alloc_best_effort_pages alloc cell (pages div 2) s')"
      using False
      by (simp add: alloc_best_effort_pages.simps [of alloc cell pages s] heap_bound_def
          split: option.splits)
    show ?thesis
    proof (cases x)
      case None
      with xt less.prems(1) have t: "t = s" using alloc_None by blast
      have rec: "alloc_best_effort_pages alloc cell (pages div 2) s = (r, s')"
        using less.prems(2) unfold xt None t by simp
      have "fst (alloc 1 (heap_bound cell) s) = None" if "pages div 2 = 0"
      proof -
        have "pages = 1" using False that by linarith
        with xt None show ?thesis by simp
      qed
      with less.IH [OF _ less.prems(1) rec] False show ?thesis
        by (cases "pages div 2 = 0") (auto split: option.splits)
    qed (use less.prems(2) unfold xt in auto)
  qed (use less.prems(2) in \<open>simp add: alloc_best_effort_pages.simps\<close>)
qed

lemma grow_loop_spec:
  assumes "wf s" "heap_wf (avail s) st" "unat step \<le> 4194304"
    "grow_loop alloc cell desired step st s = (st', s')"
  shows "wf s' \<and> heap_wf (avail s') st' \<and> consumed st' = consumed st
    \<and> chunk_count st \<le> chunk_count st' \<and> same_limits st st'"
  using assms
proof (induction "MAX_HEAP_CHUNKS - chunk_count st" arbitrary: st s rule: less_induct)
  case less
  show ?case
  proof (cases "committed_bytes st < desired \<and> chunk_count st < MAX_HEAP_CHUNKS")
    case True
    define req where
      "req = bytes_to_pages_ceil (min (saturating_sub desired (committed_bytes st)) step)"
    have req: "req \<le> 1024"
      unfolding req_def by (rule pages_request_small(1)) (use less.prems(3) in \<open>auto simp: min_def unat_ops\<close>)
    obtain r t where rt: "alloc_best_effort_pages alloc cell req s = (r, t)" by fastforce
    note B = best_effort_spec [OF less.prems(1) rt]
    show ?thesis
    proof (cases r)
      case None
      with B less.prems True rt show ?thesis
        by (auto simp: grow_loop.simps [of alloc cell desired step st s] Let_def req_def same_limits_def)
    next
      case (Some bn)
      obtain base n where bn: "bn = (base, n)" by fastforce
      with B Some have al: "n \<le> req" "alloc n (heap_bound cell) s = (Some base, t)" by auto
      from alloc_Some [OF less.prems(1) al(2)] obtain first where f: "0 < n" "1 \<le> first"
        "first + n \<le> MAX_PAGES" "unat base = first * 4096" "{first..<first + n} \<subseteq> avail s"
        "avail t = avail s - {first..<first + n}" "wf t"
        by blast
      obtain ok st1 where add: "add_chunk st base (saturating_mul (of_nat n) PAGE_SIZE) = (ok, st1)"
        by fastforce
      have n: "n \<le> 1024" using al(1) req by simp
      note A = add_chunk_spec [OF less.prems(2) f(1) n f(2,3,5,4) add]
      have A': "heap_wf (avail t) st1" "consumed st1 = consumed st" "same_limits st st1"
        "chunk_count st \<le> chunk_count st1"
        using A f(6) by (simp_all add: same_limits_def)
      show ?thesis
      proof (cases ok)
        case ok: True
        have "grow_loop alloc cell desired step st1 t = (st', s')"
          using less.prems(4) True rt Some bn add ok
          by (simp add: grow_loop.simps [of alloc cell desired step st s] Let_def req_def)
        moreover have "MAX_HEAP_CHUNKS - chunk_count st1 < MAX_HEAP_CHUNKS - chunk_count st"
          using add_chunk_count add ok True by (metis diff_less_mono2 lessI)
        ultimately show ?thesis
          using less.hyps [of st1 t] f(7) A' less.prems(3) by (auto simp: same_limits_def)
      next
        case False
        then have "(st', s') = (st1, t)"
          using less.prems(4) True rt Some bn add
          by (simp add: grow_loop.simps [of alloc cell desired step st s] Let_def req_def)
        with A' f(7) show ?thesis by simp
      qed
    qed
  next
    case False
    with less.prems show ?thesis
      by (simp add: grow_loop.simps [of alloc cell desired step st s] same_limits_def)
  qed
qed

lemma grow_heap_spec:
  assumes "wf s" "heap_wf (avail s) st" "unat step \<le> 4194304"
    "grow_heap_locked alloc cell st desired step s = (st', s')"
  shows "wf s' \<and> heap_wf (avail s') st' \<and> consumed st' = consumed st
    \<and> chunk_count st \<le> chunk_count st' \<and> same_limits st st'"
  using grow_loop_spec [OF assms(1-3)] assms(4) by (simp add: grow_heap_locked_def Let_def)

lemma heap_alloc_spec:
  assumes "wf s" "heap_wf (avail s) st" "layout_ok l" "layout_size l \<noteq> 0"
    and alloc: "heap_alloc alloc cell l st s = (a, st', s')"
  shows "wf s' \<and> heap_wf (avail s') st' \<and> consumed st \<subseteq> consumed st'
    \<and> (a \<noteq> 0 \<longrightarrow> fresh_block st l a st')"
proof (cases "heap_initialized st")
  case False
  then show ?thesis using assms by (simp add: heap_alloc_def)
next
  case True
  obtain r st1 where try1: "try_alloc_from_chunks st l = (r, st1)" by fastforce
  note T1 = try_alloc_spec [OF assms(2,3) try1]
  show ?thesis
  proof (cases r)
    case (Some b)
    with alloc True assms(1,4) try1 T1 show ?thesis
      by (auto simp: heap_alloc_def fresh_block_def)
  next
    case None
    then have st1: "st1 = st" using T1 by simp
    define step where "step = (if layout_size l > HEAP_GROW_STEP_SMALL_BYTES
      then HEAP_GROW_STEP_LARGE_BYTES else HEAP_GROW_STEP_SMALL_BYTES)"
    obtain st2 s2 where g: "(if committed_bytes st < target_bytes st
        then grow_heap_locked alloc cell st (min (target_bytes st)
               (saturating_add (committed_bytes st) (max (layout_size l) step))) step s
        else (st, s)) = (st2, s2)"
      by fastforce
    have "unat step \<le> 4194304"
      by (simp add: step_def HEAP_GROW_STEP_LARGE_BYTES_def HEAP_GROW_STEP_SMALL_BYTES_def)
    with g grow_heap_spec [OF assms(1,2), of step] assms(1,2)
    have G: "wf s2" "heap_wf (avail s2) st2" "consumed st2 = consumed st"
      by (auto split: if_splits)
    obtain r2 st3 where try2: "try_alloc_from_chunks st2 l = (r2, st3)" by fastforce
    note T2 = try_alloc_spec [OF G(2) assms(3) try2]
    have "(a, st', s') = ((case r2 of Some p \<Rightarrow> p | None \<Rightarrow> 0), st3, s2)"
      using alloc True assms(4) try1 None st1 g try2 unfolding heap_alloc_def Let_def step_def
      by (simp split: option.splits)
    with T2 G show ?thesis
      by (cases r2) (auto simp: fresh_block_def)
  qed
qed

lemma grow_heap_exhausted:
  assumes "wf s" "\<forall>n>0. fst (alloc n (heap_bound cell) s) = None"
  shows "grow_heap_locked alloc cell st desired step s = (st, s)"
proof -
  have "alloc_best_effort_pages alloc cell req s = (None, s)" for req
  proof -
    obtain r t where rt: "alloc_best_effort_pages alloc cell req s = (r, t)" by fastforce
    note B = best_effort_spec [OF assms(1) rt]
    have "r = None"
    proof (rule ccontr)
      assume "r \<noteq> None"
      then obtain base n where "alloc n (heap_bound cell) s = (Some base, t)"
        using B by (cases r) auto
      with assms(2) alloc_Some [OF assms(1) this] show False
        by (metis fst_conv option.distinct(1))
    qed
    with B rt show ?thesis by simp
  qed
  then show ?thesis
    by (simp add: grow_heap_locked_def Let_def grow_loop.simps [of alloc cell "min desired (max_bytes st)" step st s])
qed

lemma heap_init_exhausted:
  assumes "wf s" "\<forall>n>0. fst (alloc n (heap_bound cell) s) = None"
  shows "fst (heap_init alloc tp cell s) = None"
  by (simp add: heap_init_def Let_def grow_heap_exhausted [OF assms] heap_new_def)

lemma heap_run_spec:
  assumes "wf s" "heap_wf (avail s) st" "\<forall>l\<in>set ls. layout_ok l \<and> layout_size l \<noteq> 0"
    "heap_run alloc cell ls st s = (rs, st', s')"
  shows "wf s' \<and> heap_wf (avail s') st'
    \<and> (\<forall>(a, l)\<in>set rs. a \<noteq> 0 \<longrightarrow> block a l \<inter> consumed st = {})
    \<and> sorted_wrt (\<lambda>(a, l) (b, m). a \<noteq> 0 \<and> b \<noteq> 0 \<longrightarrow> block a l \<inter> block b m = {}) rs"
  using assms
proof (induction ls arbitrary: st s rs)
  case (Cons l ls)
  obtain a st1 s1 where al: "heap_alloc alloc cell l st s = (a, st1, s1)" by (metis prod_cases3)
  obtain rs2 st2 s2 where rn: "heap_run alloc cell ls st1 s1 = (rs2, st2, s2)" by (metis prod_cases3)
  have res: "rs = (a, l) # rs2" and eq: "st2 = st'" "s2 = s'"
    using Cons.prems(4) al rn by simp_all
  have A: "wf s1" "heap_wf (avail s1) st1" "consumed st \<subseteq> consumed st1"
    "a \<noteq> 0 \<longrightarrow> fresh_block st l a st1"
    using heap_alloc_spec [OF Cons.prems(1,2) _ _ al] Cons.prems(3) by auto
  have IH: "wf s'" "heap_wf (avail s') st'"
    "\<forall>(b, m)\<in>set rs2. b \<noteq> 0 \<longrightarrow> block b m \<inter> consumed st1 = {}"
    "sorted_wrt (\<lambda>(a, l) (b, m). a \<noteq> 0 \<and> b \<noteq> 0 \<longrightarrow> block a l \<inter> block b m = {}) rs2"
    using Cons.IH [OF A(1,2) _ rn [unfolded eq]] Cons.prems(3) by auto
  have "a \<noteq> 0 \<longrightarrow> block a l \<inter> consumed st = {} \<and> block a l \<subseteq> consumed st1"
    using A(4) by (auto simp: fresh_block_def)
  with IH A(3) show ?case
    by (fastforce simp: res)
qed simp

lemma grow_loop_empty:
  assumes "wf s" "heap_wf (avail s) st" "unat step \<le> 4194304" "chunk_count st = 0"
    "committed_bytes st = 0" "0 < unat desired" "unat desired \<le> unat (max_bytes st)"
    "grow_loop alloc cell desired step st s = (st', s')" "chunk_count st' = 0"
  shows "fst (alloc 1 (heap_bound cell) s) = None"
proof (rule ccontr)
  assume some: "fst (alloc 1 (heap_bound cell) s) \<noteq> None"
  define req where
    "req = bytes_to_pages_ceil (min (saturating_sub desired (committed_bytes st)) step)"
  have req: "req \<le> 1024" "0 < req"
    unfolding req_def by (rule pages_request_small; use assms(3) in \<open>auto simp: min_def unat_ops\<close>)+
  obtain r t where rt: "alloc_best_effort_pages alloc cell req s = (r, t)" by fastforce
  note B = best_effort_spec [OF assms(1) rt]
  then obtain base n where bn: "r = Some (base, n)" "n \<le> req" "alloc n (heap_bound cell) s = (Some base, t)"
    using some req(2) by (cases r) auto
  from alloc_Some [OF assms(1) bn(3)] obtain first where f: "0 < n" "1 \<le> first"
    "first + n \<le> MAX_PAGES" "unat base = first * 4096" "{first..<first + n} \<subseteq> avail s"
    "avail t = avail s - {first..<first + n}" "wf t"
    by blast
  obtain ok st1 where add: "add_chunk st base (saturating_mul (of_nat n) PAGE_SIZE) = (ok, st1)"
    by fastforce
  have n: "n \<le> 1024" using bn(2) req by simp
  then have "unat (of_nat n :: u64) = n" by (simp add: unat_of_nat)
  then have "unat (saturating_mul (of_nat n) PAGE_SIZE) = n * 4096"
    using n by (simp add: unat_saturating_mul PAGE_SIZE_mask)
  then have "saturating_mul (of_nat n) PAGE_SIZE \<noteq> (0 :: u64)" "committed_bytes st < max_bytes st"
    using f(1) assms(5-7) by (auto simp: word_less_nat_alt)
  with add have ok: ok
    using assms(4,5)
    by (auto simp: add_chunk_def Let_def MAX_HEAP_CHUNKS_def min_def saturating_sub_def word_neq_0_conv
        split: if_splits)
  with add add_chunk_count have "chunk_count st1 = 1" by (metis assms(4) One_nat_def)
  moreover have "grow_loop alloc cell desired step st1 t = (st', s')"
    using assms(4-8) rt bn add ok
    by (simp add: grow_loop.simps [of alloc cell desired step st s] Let_def req_def
        word_less_nat_alt MAX_HEAP_CHUNKS_def)
  moreover have "heap_wf (avail t) st1"
    using add_chunk_spec [OF assms(2) f(1) n f(2,3,5,4) add] f(6) by simp
  ultimately show False
    using grow_loop_spec [OF f(7) _ assms(3), of st1 cell desired st' s'] assms(9) by simp
qed

lemma heap_init_spec:
  assumes "wf s" "tp \<le> MAX_PAGES" "heap_init alloc tp cell s = (r, s')"
  shows "wf s' \<and> (case r of
      None \<Rightarrow> tp = 0 \<or> fst (alloc 1 (heap_bound cell) s) = None
    | Some st \<Rightarrow> heap_wf (avail s') st \<and> heap_initialized st \<and> consumed st = {} \<and> 0 < chunk_count st)"
proof -
  define mx where "mx = (if identity_heap_max_phys cell \<noteq> None
    then min (saturating_mul (of_nat tp) PAGE_SIZE) FALLBACK_MAX_HEAP_BYTES
    else min (saturating_mul (of_nat tp) PAGE_SIZE) RESERVED_VIRTUAL_HEAP_BYTES)"
  define ini where "ini = (if identity_heap_max_phys cell \<noteq> None
    then min FALLBACK_INITIAL_HEAP_BYTES mx else min INITIAL_HEAP_BYTES mx)"
  define st0 where "st0 = heap_new\<lparr>max_bytes := mx, target_bytes := mx\<rparr>"
  obtain st1 s1 where g: "grow_heap_locked alloc cell st0 ini HEAP_GROW_STEP_LARGE_BYTES s = (st1, s1)"
    by fastforce
  have res: "s' = s1" "r = (if 0 < chunk_count st1
      then Some (st1\<lparr>heap_initialized := True\<rparr>) else None)"
    using assms(3) g by (auto simp: heap_init_def Let_def mx_def ini_def st0_def split: if_splits)
  have "unat mx \<le> 2 ^ 30"
    by (auto simp: mx_def min_def unat_ops FALLBACK_MAX_HEAP_BYTES_def RESERVED_VIRTUAL_HEAP_BYTES_def)
  then have st0: "heap_wf (avail s) st0" "consumed st0 = {}"
    by (auto simp: st0_def heap_new_def heap_wf_def consumed_def)
  have G: "wf s1" "heap_wf (avail s1) st1" "consumed st1 = {}"
    using grow_heap_spec [OF assms(1) st0(1) _ g] st0(2) by (auto simp: HEAP_GROW_STEP_LARGE_BYTES_def)
  have "fst (alloc 1 (heap_bound cell) s) = None" if "chunk_count st1 = 0" "tp \<noteq> 0"
  proof (rule grow_loop_empty [OF assms(1) st0(1)])
    have "unat (of_nat tp :: u64) = tp" using assms(2) by (simp add: unat_of_nat MAX_PAGES_eq)
    then have "unat (saturating_mul (of_nat tp) PAGE_SIZE) = tp * 4096"
      using assms(2) by (simp add: unat_saturating_mul PAGE_SIZE_mask MAX_PAGES_eq)
    with that(2) have "0 < unat mx"
      by (auto simp: mx_def min_def FALLBACK_MAX_HEAP_BYTES_def RESERVED_VIRTUAL_HEAP_BYTES_def)
    then show "0 < unat (min ini (max_bytes st0))"
      by (auto simp: ini_def st0_def min_def INITIAL_HEAP_BYTES_def FALLBACK_INITIAL_HEAP_BYTES_def)
    show "unat (min ini (max_bytes st0)) \<le> unat (max_bytes st0)"
      by (simp flip: word_le_nat_alt)
    show "grow_loop alloc cell (min ini (max_bytes st0)) HEAP_GROW_STEP_LARGE_BYTES st0 s = (st1, s1)"
      using g by (simp add: grow_heap_locked_def Let_def)
  qed (use that in \<open>simp_all add: st0_def heap_new_def HEAP_GROW_STEP_LARGE_BYTES_def\<close>)
  with G res show ?thesis by (cases "tp = 0") (auto simp: consumed_def)
qed

end

subsection \<open>Accounting\<close>

lemma fold_saturating_sum:
  fixes u :: u64
  assumes "unat u + (\<Sum>i<n. f i) < 2 ^ 64" "\<forall>i<n. unat (g i) = f i"
  shows "unat (fold (\<lambda>i used. saturating_add used (g i)) [0..<n] u) = unat u + (\<Sum>i<n. f i)"
  using assms
proof (induction n)
  case (Suc n)
  then have "unat (fold (\<lambda>i used. saturating_add used (g i)) [0..<n] u) = unat u + (\<Sum>i<n. f i)"
    by simp
  with Suc.prems show ?case by (simp add: unat_saturating_add)
qed simp

lemma card_consumed:
  assumes "heap_wf A st"
  shows "card (consumed st) =
    (\<Sum>i<chunk_count st. unat (chunk_current (chunks st i)) - unat (chunk_base (chunks st i)))"
proof -
  have "card (consumed st) = (\<Sum>i<chunk_count st. card (chunk_consumed (chunks st i)))"
    unfolding consumed_def
  proof (rule card_UN_disjoint)
    show "\<forall>i\<in>{..<chunk_count st}. \<forall>j\<in>{..<chunk_count st}. i \<noteq> j \<longrightarrow>
        chunk_consumed (chunks st i) \<inter> chunk_consumed (chunks st j) = {}"
      using assms consumed_subset_span [OF assms] unfolding heap_wf_def by blast
  qed (simp_all add: chunk_consumed_def)
  then show ?thesis by (simp add: chunk_consumed_def)
qed

lemma used_le_committed:
  assumes "heap_wf A st"
  shows "(\<Sum>i<chunk_count st. unat (chunk_current (chunks st i)) - unat (chunk_base (chunks st i)))
    \<le> unat (committed_bytes st)"
proof -
  have "unat (committed_bytes st) =
      (\<Sum>i<chunk_count st. unat (chunk_end (chunks st i)) - unat (chunk_base (chunks st i)))"
    using assms by (simp add: heap_wf_def)
  then show ?thesis
    using assms by (auto simp: heap_wf_def chunk_ok_def intro!: sum_mono)
qed

subsection \<open>A small heap for the examples\<close>

text \<open>The example machine after page 1 went to the heap, and a heap with one chunk on that page.\<close>

definition demo_pmm1 :: pmm where
  "demo_pmm1 = (set_used demo_pmm 1)\<lparr>free_pages := free_pages demo_pmm - 1\<rparr>"

lemma demo_pmm1_inv: "pmm_inv demo_pmm1"
proof -
  have "1 \<in> free_set demo_pmm" using demo_used demo_fields by (simp add: mem_free_set)
  then show ?thesis
    using demo_inv by (simp add: demo_pmm1_def pmm_inv_def card_Diff_singleton)
qed

definition demo_heap :: HeapState where
  "demo_heap = heap_new\<lparr>chunks := (\<lambda>_. chunk_empty)
       (0 := \<lparr>chunk_base = 0x1000, chunk_current = 0x1018, chunk_end = 0x2000\<rparr>),
     chunk_count := 1, committed_bytes := 0x1000, max_bytes := 0x6000, target_bytes := 0x6000,
     heap_initialized := True\<rparr>"

lemma demo_heap_wf: "heap_wf (free_set demo_pmm1) demo_heap" "heap_initialized demo_heap"
proof -
  have "x div 4096 = 1" if "0x1000 \<le> x" "x < 0x2000" for x :: nat using that by linarith
  then show "heap_wf (free_set demo_pmm1) demo_heap" "heap_initialized demo_heap"
    by (auto simp: heap_wf_def demo_heap_def heap_new_def chunk_ok_def chunk_span_def
        MAX_HEAP_CHUNKS_def demo_pmm1_def)
qed

definition demo_layout :: Layout where
  "demo_layout = \<lparr>layout_size = 24, layout_align = 16\<rparr>"

lemma demo_layout_ok: "layout_ok demo_layout" "layout_size demo_layout \<noteq> 0"
  by (auto simp: layout_ok_def demo_layout_def intro!: exI [of _ 4])

lemma demo_heap_alloc: "fst (heap_alloc alloc_pages_below 0 demo_layout demo_heap demo_pmm1) = 0x1020"
  by (simp add: heap_alloc_def demo_heap_def demo_layout_def try_alloc_from_chunks_def heap_new_def
      chunk_fit_def chunk_is_empty_def heap_align_up_def saturating_add_def Let_def)

lemma demo_heap_run:
  "fst (heap_run alloc_pages_below 0 [demo_layout, demo_layout] demo_heap demo_pmm1)
    = [(0x1020, demo_layout), (0x1040, demo_layout)]"
  by (simp add: heap_alloc_def demo_heap_def demo_layout_def try_alloc_from_chunks_def heap_new_def
      chunk_fit_def chunk_is_empty_def heap_align_up_def saturating_add_def Let_def)

section \<open>Properties\<close>

text \<open>C6 (heap blocks are exclusive).  Allocating any sequence of layouts, with the bitmap allocator
  growing the heap on the way, hands out non-null blocks that are pairwise disjoint and disjoint
  from everything consumed before, and keeps both the heap's and the page allocator's invariant.\<close>

theorem heap_blocks_disjoint:
  assumes "pmm_inv p" "heap_wf (free_set p) st" "\<forall>l\<in>set ls. layout_ok l \<and> layout_size l \<noteq> 0"
    "heap_run alloc_pages_below cell ls st p = (rs, st', p')"
  shows "pmm_inv p' \<and> heap_wf (free_set p') st'
    \<and> (\<forall>(a, l)\<in>set rs. a \<noteq> 0 \<longrightarrow> block a l \<inter> consumed st = {})
    \<and> sorted_wrt (\<lambda>(a, l) (b, m). a \<noteq> 0 \<and> b \<noteq> 0 \<longrightarrow> block a l \<inter> block b m = {}) rs"
  by (rule pm.heap_run_spec [OF assms])

theorem heap_blocks_disjoint_witness:
  "fst (heap_run alloc_pages_below 0 [demo_layout, demo_layout] demo_heap demo_pmm1)
      = [(0x1020, demo_layout), (0x1040, demo_layout)]
    \<and> block 0x1020 demo_layout \<inter> consumed demo_heap = {}
    \<and> block 0x1020 demo_layout \<inter> block 0x1040 demo_layout = {}
    \<and> pmm_inv (snd (snd (heap_run alloc_pages_below 0 [demo_layout, demo_layout] demo_heap demo_pmm1)))"
proof -
  obtain rs st' p' where "heap_run alloc_pages_below 0 [demo_layout, demo_layout] demo_heap demo_pmm1
      = (rs, st', p')"
    by (metis prod_cases3)
  with heap_blocks_disjoint [OF demo_pmm1_inv demo_heap_wf(1) _ this] demo_heap_run show ?thesis
    by (simp add: demo_layout_ok del: heap_run.simps)
qed

text \<open>A request of positive size either returns null or a block that is aligned
  as the layout asks, lies inside one chunk and was not consumed before; the heap invariant is kept
  and nothing is ever returned to the consumed region.\<close>

lemma heap_alloc_block:
  assumes "pmm_inv p" "heap_wf (free_set p) st" "layout_ok l" "layout_size l \<noteq> 0"
    "heap_alloc alloc_pages_below cell l st p = (a, st', p')"
  shows "pmm_inv p' \<and> heap_wf (free_set p') st' \<and> consumed st \<subseteq> consumed st'
    \<and> (a \<noteq> 0 \<longrightarrow> fresh_block st l a st')"
  by (rule pm.heap_alloc_spec [OF assms])

text \<open>C35 (large requests).  No chunk is larger than the 4 MiB growth step, so a request of more than
  4 MiB always returns null, whatever memory is free.\<close>

theorem heap_alloc_large_fails:
  assumes "pmm_inv p" "heap_wf (free_set p) st" "layout_ok l" "4194304 < unat (layout_size l)"
  shows "fst (heap_alloc alloc_pages_below cell l st p) = 0"
proof (rule ccontr)
  obtain a st' p' where al: "heap_alloc alloc_pages_below cell l st p = (a, st', p')"
    by (metis prod_cases3)
  assume "fst (heap_alloc alloc_pages_below cell l st p) \<noteq> 0"
  moreover have "layout_size l \<noteq> 0" using assms(4) by auto
  ultimately have H: "heap_wf (free_set p') st'" "fresh_block st l a st'"
    using pm.heap_alloc_spec [OF assms(1-3) _ al] al by auto
  then obtain i where i: "i < chunk_count st'" "block a l \<subseteq> chunk_span (chunks st' i)"
    by (auto simp: fresh_block_def)
  have "card (block a l) \<le> card (chunk_span (chunks st' i))"
    using i(2) by (rule card_mono [rotated]) (simp add: chunk_span_def)
  moreover have "card (chunk_span (chunks st' i)) \<le> 4194304"
    using H(1) i(1) by (auto simp: heap_wf_def chunk_ok_def chunk_span_def)
  ultimately show False using assms(4) by (simp add: block_def)
qed

theorem heap_alloc_large_fails_witness:
  "fst (heap_alloc alloc_pages_below 0 \<lparr>layout_size = 0x500000, layout_align = 16\<rparr> demo_heap demo_pmm1)
    = 0"
  by (rule heap_alloc_large_fails [OF demo_pmm1_inv demo_heap_wf(1)])
     (auto simp: layout_ok_def intro!: exI [of _ 4])

text \<open>C34 (start-up).  Heap initialisation panics exactly when the page allocator has no free page
  below the configured bound; otherwise it yields a heap that satisfies the invariant, with at least
  one chunk and nothing consumed.\<close>

theorem heap_init_panics_iff:
  assumes "pmm_inv p" "heap_init alloc_pages_below (pmm_total_pages p) cell p = (r, p')"
  shows "(r = None \<longleftrightarrow> \<not> (\<exists>i. 1 \<le> i \<and> i < page_bound (heap_bound cell) p \<and> i \<in> free_set p))
    \<and> pmm_inv p'
    \<and> (\<forall>st. r = Some st \<longrightarrow> heap_wf (free_set p') st \<and> heap_initialized st \<and> consumed st = {}
         \<and> 0 < chunk_count st)"
proof -
  define b where "b = page_bound (heap_bound cell) p"
  have tp: "pmm_total_pages p = tracked_pages p" "tracked_pages p \<le> MAX_PAGES"
    using assms(1) by (simp_all add: pmm_total_pages_def pmm_inv_def)
  have alloc_None: "fst (alloc_pages_below n (heap_bound cell) p) = None
      \<longleftrightarrow> \<not> (\<exists>first. 1 \<le> first \<and> first + n \<le> b \<and> free_run p first n)" if "0 < n" for n
    using assms(1) that by (cases rule: alloc_pages_below_cases [of p n "heap_bound cell"]) (auto simp: b_def)
  have run_page: "\<exists>i. 1 \<le> i \<and> i < b \<and> i \<in> free_set p"
    if "1 \<le> first" "first + n \<le> b" "free_run p first n" "0 < n" for first n
    using that by (intro exI [of _ first]) (auto simp: free_run_def)
  have S: "pmm_inv p'" "r = None \<Longrightarrow> tracked_pages p = 0 \<or> fst (alloc_pages_below 1 (heap_bound cell) p) = None"
    "\<And>st. r = Some st \<Longrightarrow> heap_wf (free_set p') st \<and> heap_initialized st \<and> consumed st = {} \<and> 0 < chunk_count st"
    using pm.heap_init_spec [OF assms(1) _ assms(2)] tp by auto
  have "r = None" if "\<not> (\<exists>i. 1 \<le> i \<and> i < b \<and> i \<in> free_set p)"
    using pm.heap_init_exhausted [OF assms(1), of cell "pmm_total_pages p"] that run_page alloc_None assms(2)
    by (metis fst_conv)
  moreover have "\<not> (\<exists>i. 1 \<le> i \<and> i < b \<and> i \<in> free_set p)" if "r = None"
  proof
    assume "\<exists>i. 1 \<le> i \<and> i < b \<and> i \<in> free_set p"
    then obtain i where i: "1 \<le> i" "i < b" "i \<in> free_set p" by blast
    then have "free_run p i 1" "tracked_pages p \<noteq> 0" by (auto simp: free_run_def mem_free_set)
    with S(2) [OF that] alloc_None [of 1] i show False by auto
  qed
  ultimately show ?thesis using S by (auto simp: b_def)
qed

theorem heap_init_panics_iff_witness:
  "\<exists>st. fst (heap_init alloc_pages_below (pmm_total_pages demo_pmm) 0 demo_pmm) = Some st
    \<and> heap_wf (free_set (snd (heap_init alloc_pages_below (pmm_total_pages demo_pmm) 0 demo_pmm))) st
    \<and> consumed st = {} \<and> 0 < chunk_count st"
proof -
  have "\<exists>i. 1 \<le> i \<and> i < page_bound (heap_bound 0) demo_pmm \<and> i \<in> free_set demo_pmm"
    using demo_used demo_fields
    by (intro exI [of _ 1]) (simp add: mem_free_set page_bound_def heap_bound_def identity_heap_max_phys_def)
  then show ?thesis
    using heap_init_panics_iff [OF demo_inv prod.collapse [symmetric], of 0] by auto
qed

text \<open>For an initialised heap the reported numbers are exact: the used bytes are the
  number of consumed addresses, and used plus free is the committed total, within the 1 GiB budget.\<close>

lemma heap_stats_exact:
  assumes "heap_wf A st" "heap_initialized st"
  shows "unat (stats_used (heap_stats st)) = card (consumed st)
    \<and> unat (stats_used (heap_stats st)) + unat (stats_free (heap_stats st))
        = unat (stats_total (heap_stats st))
    \<and> unat (stats_total (heap_stats st)) \<le> 2 ^ 30"
proof -
  define f where
    "f = (\<lambda>i. unat (chunk_current (chunks st i)) - unat (chunk_base (chunks st i)))"
  have le: "(\<Sum>i<chunk_count st. f i) \<le> unat (committed_bytes st)"
    unfolding f_def by (rule used_le_committed [OF assms(1)])
  moreover have max: "unat (committed_bytes st) \<le> 2 ^ 30"
    using assms(1) by (auto simp: heap_wf_def word_le_nat_alt)
  ultimately have "unat (compute_used_bytes st) = (\<Sum>i<chunk_count st. f i)"
    unfolding compute_used_bytes_def Let_def
    using fold_saturating_sum [of 0 f "chunk_count st"
        "\<lambda>i. saturating_sub (chunk_current (chunks st i)) (chunk_base (chunks st i))"]
    by (simp add: unat_saturating_sub f_def)
  then show ?thesis
    using le max assms(2) card_consumed [OF assms(1)]
    by (simp add: heap_stats_def Let_def unat_saturating_sub f_def)
qed


end
