(* ===== verification/Paging.thy ===== *)
theory Paging
  imports Phys_Mem
begin

text \<open>
  Page tables: \<^verbatim>\<open>hal/src/arch/x86_64/paging.rs\<close> (entries) and the hardware half of
  \<^verbatim>\<open>seed/saios/src/vmm.rs\<close> (walking, linking and unlinking of tables through the recursive slot,
  and the tables built at boot).  Physical memory is a function from the address of a frame to its 512
  entries.  A pointer of the source is a virtual address; to use it the processor walks the current
  tables, which \<open>mmu\<close> writes out for the 4-level mode of x86-64, and a walk that meets an entry that is not
  present is a page fault: the operation has no result.  The processor is taken to walk the tables of the
  moment; what \<^verbatim>\<open>invlpg\<close> is called on is recorded, so that it can be compared with the
  translations that change.  Accessed and dirty bits are not set.
\<close>

section \<open>Entries\<close>

abbreviation PT_PRESENT :: u64 where "PT_PRESENT \<equiv> push_bit 0 1"
abbreviation PT_WRITABLE :: u64 where "PT_WRITABLE \<equiv> push_bit 1 1"
abbreviation PT_USER :: u64 where "PT_USER \<equiv> push_bit 2 1"
abbreviation PT_PWT :: u64 where "PT_PWT \<equiv> push_bit 3 1"
abbreviation PT_PCD :: u64 where "PT_PCD \<equiv> push_bit 4 1"
abbreviation PT_HUGE :: u64 where "PT_HUGE \<equiv> push_bit 7 1"
abbreviation PT_GLOBAL :: u64 where "PT_GLOBAL \<equiv> push_bit 8 1"
abbreviation PT_NX :: u64 where "PT_NX \<equiv> push_bit 63 1"
abbreviation ADDR_MASK :: u64 where "ADDR_MASK \<equiv> 0x000FFFFFFFFFF000"

definition is_present :: "u64 \<Rightarrow> bool" where
  "is_present e \<longleftrightarrow> e AND PT_PRESENT \<noteq> 0"

definition entry_address :: "u64 \<Rightarrow> u64" where
  "entry_address e = e AND ADDR_MASK"

definition set_address :: "u64 \<Rightarrow> u64 \<Rightarrow> u64" where
  "set_address e addr = (e AND NOT ADDR_MASK) OR (addr AND ADDR_MASK)"

definition set_page :: "u64 \<Rightarrow> u64 \<Rightarrow> u64 \<Rightarrow> u64" where
  "set_page e addr flags = set_address e addr OR (flags OR PT_PRESENT)"

definition set_flags :: "u64 \<Rightarrow> u64 \<Rightarrow> u64" where
  "set_flags e flags = e OR flags"

definition clear_flags :: "u64 \<Rightarrow> u64 \<Rightarrow> u64" where
  "clear_flags e flags = e AND NOT flags"

type_synonym table = "nat \<Rightarrow> u64"

definition table_clear :: table where
  "table_clear = (\<lambda>_. 0)"

definition has_any_present_entries :: "table \<Rightarrow> bool" where
  "has_any_present_entries t = list_ex (\<lambda>i. is_present (t i)) [0..<512]"

section \<open>Virtual addresses\<close>

abbreviation KERNEL_VIRT_BASE :: u64 where "KERNEL_VIRT_BASE \<equiv> 0xFFFF800000000000"
abbreviation RECURSIVE_SLOT :: u64 where "RECURSIVE_SLOT \<equiv> 511"
abbreviation EARLY_TABLE_MAX_PHYS :: u64 where "EARLY_TABLE_MAX_PHYS \<equiv> 0x40000000"

definition canonicalize_48 :: "u64 \<Rightarrow> u64" where
  "canonicalize_48 addr =
     (if addr AND push_bit 47 1 \<noteq> 0 then addr OR 0xFFFF000000000000 else addr AND 0x0000FFFFFFFFFFFF)"

definition level_indices :: "u64 \<Rightarrow> nat \<times> nat \<times> nat \<times> nat \<times> u64" where
  "level_indices virt =
     (unat (drop_bit 39 virt AND 0x1ff), unat (drop_bit 30 virt AND 0x1ff),
      unat (drop_bit 21 virt AND 0x1ff), unat (drop_bit 12 virt AND 0x1ff), virt AND 0xfff)"

definition pml4_table_ptr :: u64 where
  "pml4_table_ptr = canonicalize_48
     (push_bit 39 RECURSIVE_SLOT OR push_bit 30 RECURSIVE_SLOT OR push_bit 21 RECURSIVE_SLOT
      OR push_bit 12 RECURSIVE_SLOT)"

definition pdpt_table_ptr :: "nat \<Rightarrow> u64" where
  "pdpt_table_ptr l4 = canonicalize_48
     (push_bit 39 RECURSIVE_SLOT OR push_bit 30 RECURSIVE_SLOT OR push_bit 21 RECURSIVE_SLOT
      OR push_bit 12 (of_nat l4))"

definition pd_table_ptr :: "nat \<Rightarrow> nat \<Rightarrow> u64" where
  "pd_table_ptr l4 l3 = canonicalize_48
     (push_bit 39 RECURSIVE_SLOT OR push_bit 30 RECURSIVE_SLOT OR push_bit 21 (of_nat l4)
      OR push_bit 12 (of_nat l3))"

definition pt_table_ptr :: "nat \<Rightarrow> nat \<Rightarrow> nat \<Rightarrow> u64" where
  "pt_table_ptr l4 l3 l2 = canonicalize_48
     (push_bit 39 RECURSIVE_SLOT OR push_bit 30 (of_nat l4) OR push_bit 21 (of_nat l3)
      OR push_bit 12 (of_nat l2))"

section \<open>Flags\<close>

abbreviation FLAG_READ :: u64 where "FLAG_READ \<equiv> push_bit 0 1"
abbreviation FLAG_WRITE :: u64 where "FLAG_WRITE \<equiv> push_bit 1 1"
abbreviation FLAG_EXEC :: u64 where "FLAG_EXEC \<equiv> push_bit 2 1"
abbreviation FLAG_USER :: u64 where "FLAG_USER \<equiv> push_bit 3 1"
abbreviation FLAG_GLOBAL :: u64 where "FLAG_GLOBAL \<equiv> push_bit 4 1"
abbreviation FLAG_DEVICE :: u64 where "FLAG_DEVICE \<equiv> push_bit 5 1"
abbreviation FLAG_WRITE_COMBINE :: u64 where "FLAG_WRITE_COMBINE \<equiv> push_bit 6 1"

datatype CacheType = WriteBack | WriteCombining | Device

definition nonleaf_flags :: "u64 \<Rightarrow> u64" where
  "nonleaf_flags vmm_flags =
     (let f = PT_WRITABLE in if vmm_flags AND FLAG_USER \<noteq> 0 then f OR PT_USER else f)"

definition memory_type_from_flags :: "u64 \<Rightarrow> CacheType" where
  "memory_type_from_flags vmm_flags =
     (if vmm_flags AND FLAG_DEVICE \<noteq> 0 then Device
      else if vmm_flags AND FLAG_WRITE_COMBINE \<noteq> 0 then WriteCombining
      else WriteBack)"

definition leaf_flags :: "u64 \<Rightarrow> u64" where
  "leaf_flags vmm_flags =
     (let f = 0;
          f = (if vmm_flags AND FLAG_WRITE \<noteq> 0 then f OR PT_WRITABLE else f);
          f = (if vmm_flags AND FLAG_USER \<noteq> 0 then f OR PT_USER else f);
          f = (if vmm_flags AND FLAG_GLOBAL \<noteq> 0 then f OR PT_GLOBAL else f);
          f = (case memory_type_from_flags vmm_flags of
                 WriteBack \<Rightarrow> f
               | WriteCombining \<Rightarrow> f OR PT_PWT
               | Device \<Rightarrow> f OR (PT_PCD OR PT_PWT))
      in if vmm_flags AND FLAG_EXEC = 0 then f OR PT_NX else f)"

section \<open>The processor\<close>

record paging_hw =
  hw_mem :: "u64 \<Rightarrow> table"
  hw_cr3 :: u64
  hw_pmm :: pmm
  hw_flushed :: "u64 list"

definition is_huge :: "u64 \<Rightarrow> bool" where
  "is_huge e \<longleftrightarrow> e AND PT_HUGE \<noteq> 0"

definition large_frame :: "nat \<Rightarrow> u64 \<Rightarrow> u64 \<Rightarrow> u64" where
  "large_frame k e va = (entry_address e AND NOT (mask k)) OR (take_bit k va AND NOT (mask 12))"

text \<open>The frame of the page a virtual address lies in, as the processor finds it: the root is in CR3, entries
  that are not present fault, and bit 7 of an entry of the two middle levels ends the walk early.\<close>

definition mmu :: "paging_hw \<Rightarrow> u64 \<Rightarrow> u64 option" where
  "mmu h va = (case level_indices va of (l4, l3, l2, l1, off) \<Rightarrow>
     if canonicalize_48 va \<noteq> va then None
     else let e4 = hw_mem h (hw_cr3 h) l4 in
     if \<not> is_present e4 then None
     else let e3 = hw_mem h (entry_address e4) l3 in
     if \<not> is_present e3 then None
     else if is_huge e3 then Some (large_frame 30 e3 va)
     else let e2 = hw_mem h (entry_address e3) l2 in
     if \<not> is_present e2 then None
     else if is_huge e2 then Some (large_frame 21 e2 va)
     else let e1 = hw_mem h (entry_address e2) l1 in
     if \<not> is_present e1 then None
     else Some (entry_address e1))"

definition at_table :: "paging_hw \<Rightarrow> u64 \<Rightarrow> (u64 \<Rightarrow> 'r option) \<Rightarrow> 'r option" where
  "at_table h ptr k = (case mmu h ptr of None \<Rightarrow> None | Some frame \<Rightarrow> k frame)"

definition write_entry :: "u64 \<Rightarrow> nat \<Rightarrow> u64 \<Rightarrow> paging_hw \<Rightarrow> paging_hw" where
  "write_entry frame i e h = h\<lparr>hw_mem := (hw_mem h)(frame := (hw_mem h frame)(i := e))\<rparr>"

definition clear_table :: "u64 \<Rightarrow> paging_hw \<Rightarrow> paging_hw" where
  "clear_table frame h = h\<lparr>hw_mem := (hw_mem h)(frame := table_clear)\<rparr>"

definition invlpg :: "u64 \<Rightarrow> paging_hw \<Rightarrow> paging_hw" where
  "invlpg virt h = h\<lparr>hw_flushed := virt # hw_flushed h\<rparr>"

type_synonym 'a hw_run = "('a res \<times> paging_hw) option"

text \<open>The \<open>?\<close> of the source: an error ends the function with the state reached.\<close>

definition hbind :: "'a hw_run \<Rightarrow> ('a \<Rightarrow> paging_hw \<Rightarrow> 'b hw_run) \<Rightarrow> 'b hw_run" where
  "hbind x f = (case x of
      None \<Rightarrow> None
    | Some (Inl e, h) \<Rightarrow> Some (Inl e, h)
    | Some (Inr a, h) \<Rightarrow> f a h)"

section \<open>Mapping, unmapping and translating a page\<close>

text \<open>The step the source repeats for each level: if the entry is not present, a page is taken from the
  allocator, linked, and cleared through its own pointer.\<close>

definition ensure_table :: "u64 \<Rightarrow> nat \<Rightarrow> u64 \<Rightarrow> string \<Rightarrow> u64 \<Rightarrow> paging_hw \<Rightarrow> unit hw_run" where
  "ensure_table frame i ptr message flags h =
     (if is_present (hw_mem h frame i) then Some (Inr (), h)
      else case alloc_page (hw_pmm h) of
        (None, p) \<Rightarrow> Some (Inl message, h\<lparr>hw_pmm := p\<rparr>)
      | (Some new_page, p) \<Rightarrow>
          let h1 = write_entry frame i (set_page (hw_mem h frame i) new_page (nonleaf_flags flags))
                     (h\<lparr>hw_pmm := p\<rparr>)
          in at_table h1 ptr (\<lambda>t. Some (Inr (), clear_table t h1)))"

definition map_page_hw :: "u64 \<Rightarrow> u64 \<Rightarrow> u64 \<Rightarrow> paging_hw \<Rightarrow> unit hw_run" where
  "map_page_hw virt phys flags h = (case level_indices virt of (l4, l3, l2, l1, _) \<Rightarrow>
     at_table h pml4_table_ptr (\<lambda>pml4.
     hbind (ensure_table pml4 l4 (pdpt_table_ptr l4) ''vmm: out of memory for pdpt'' flags h) (\<lambda>_ h.
     at_table h (pdpt_table_ptr l4) (\<lambda>pdpt.
     hbind (ensure_table pdpt l3 (pd_table_ptr l4 l3) ''vmm: out of memory for pd'' flags h) (\<lambda>_ h.
     at_table h (pd_table_ptr l4 l3) (\<lambda>pd.
     hbind (ensure_table pd l2 (pt_table_ptr l4 l3 l2) ''vmm: out of memory for pt'' flags h) (\<lambda>_ h.
     at_table h (pt_table_ptr l4 l3 l2) (\<lambda>pt.
       if is_present (hw_mem h pt l1) then Some (Inl ''vmm: page already mapped'', h)
       else Some (Inr (), invlpg virt
              (write_entry pt l1 (set_page (hw_mem h pt l1) phys (leaf_flags flags)) h))))))))))"

definition unmap_page_hw :: "u64 \<Rightarrow> paging_hw \<Rightarrow> unit hw_run" where
  "unmap_page_hw virt h = (case level_indices virt of (l4, l3, l2, l1, _) \<Rightarrow>
     at_table h pml4_table_ptr (\<lambda>pml4.
     if \<not> is_present (hw_mem h pml4 l4) then Some (Inl ''vmm: page not mapped'', h)
     else at_table h (pdpt_table_ptr l4) (\<lambda>pdpt.
     if \<not> is_present (hw_mem h pdpt l3) then Some (Inl ''vmm: page not mapped'', h)
     else at_table h (pd_table_ptr l4 l3) (\<lambda>pd.
     if \<not> is_present (hw_mem h pd l2) then Some (Inl ''vmm: page not mapped'', h)
     else at_table h (pt_table_ptr l4 l3 l2) (\<lambda>pt.
     if \<not> is_present (hw_mem h pt l1) then Some (Inl ''vmm: page not mapped'', h)
     else let h1 = invlpg virt (write_entry pt l1 0 h) in
       Some (Inr (),
         if has_any_present_entries (hw_mem h1 pt) then h1
         else let h2 = write_entry pd l2 0 h1 in
           if has_any_present_entries (hw_mem h2 pd) then h2
           else let h3 = write_entry pdpt l3 0 h2 in
             if has_any_present_entries (hw_mem h3 pdpt) then h3
             else write_entry pml4 l4 0 h3))))))"

definition translate_hw :: "u64 \<Rightarrow> paging_hw \<Rightarrow> u64 option option" where
  "translate_hw virt h = (case level_indices virt of (l4, l3, l2, l1, off) \<Rightarrow>
     at_table h pml4_table_ptr (\<lambda>pml4.
     if \<not> is_present (hw_mem h pml4 l4) then Some None
     else at_table h (pdpt_table_ptr l4) (\<lambda>pdpt.
     if \<not> is_present (hw_mem h pdpt l3) then Some None
     else at_table h (pd_table_ptr l4 l3) (\<lambda>pd.
     if \<not> is_present (hw_mem h pd l2) then Some None
     else at_table h (pt_table_ptr l4 l3 l2) (\<lambda>pt.
     if \<not> is_present (hw_mem h pt l1) then Some None
     else Some (checked_add (entry_address (hw_mem h pt l1)) off))))))"

section \<open>Bits of entries and addresses\<close>

lemma is_present_bit: "is_present e \<longleftrightarrow> bit e 0"
  by (simp add: is_present_def bit_iff_and_push_bit_not_eq_0 del: push_bit_of_1)

lemma is_huge_bit: "is_huge e \<longleftrightarrow> bit e 7"
  by (simp only: is_huge_def bit_iff_and_push_bit_not_eq_0)

lemma ADDR_MASK_mask: "ADDR_MASK = push_bit 12 (mask 40)"
  by (simp add: mask_eq_exp_minus_1 push_bit_eq_mult)

lemma bit_ADDR_MASK: "bit ADDR_MASK n \<longleftrightarrow> 12 \<le> n \<and> n < 52"
  unfolding ADDR_MASK_mask by (auto simp: bit_simps)

lemma bit_entry_address: "bit (entry_address e) n \<longleftrightarrow> 12 \<le> n \<and> n < 52 \<and> bit e n"
  by (auto simp: entry_address_def bit_and_iff bit_ADDR_MASK simp del: bit_numeral_word_iff)

lemma entry_address_zero [simp]: "entry_address 0 = 0" "\<not> is_present 0"
  by (simp_all add: entry_address_def is_present_bit)

lemma entry_address_idem [simp]: "entry_address (entry_address e) = entry_address e"
  by (simp add: entry_address_def)

lemma entry_address_aligned:
  assumes "unat a mod 4096 = 0" "unat a < 2 ^ 52"
  shows "entry_address a = a"
proof (rule bit_eqI)
  fix n :: nat
  have "unat (take_bit 12 a) = take_bit 12 (unat a)" by (simp only: unsigned_take_bit_eq)
  also have "\<dots> = 0" using assms(1) by (simp add: take_bit_eq_mod)
  finally have "take_bit 12 a = 0" by (simp only: unat_eq_0)
  then have low: "n < 12 \<Longrightarrow> \<not> bit a n" by (metis bit_take_bit_iff bit_0_eq bot_apply bot_bool_def)
  have "take_bit 52 a = a" using assms(2) by (simp add: word_unat_eq_iff unsigned_take_bit_eq take_bit_nat_eq_self)
  then have high: "52 \<le> n \<Longrightarrow> \<not> bit a n" by (metis bit_take_bit_iff linorder_not_le)
  show "bit (entry_address a) n \<longleftrightarrow> bit a n" using low high unfolding bit_entry_address by (meson leI)
qed

lemma bit_set_page:
  "bit (set_page e a fl) n \<longleftrightarrow>
     (if 12 \<le> n \<and> n < 52 then bit a n else bit e n) \<or> bit fl n \<or> n = 0"
  using bit_imp_le_length [of e n] bit_imp_le_length [of a n]
  unfolding set_page_def set_address_def bit_or_iff bit_and_iff bit_not_iff bit_ADDR_MASK
  by (auto simp: bit_1_iff)

lemma set_page_simps:
  "is_present (set_page e a fl)"
  "bit (set_page e a fl) 7 \<longleftrightarrow> bit e 7 \<or> bit fl 7"
  by (simp_all add: is_present_bit bit_set_page)

lemma entry_address_set_page:
  assumes "entry_address fl = 0"
  shows "entry_address (set_page e a fl) = entry_address a"
proof (rule bit_eqI)
  fix n :: nat
  have "\<not> (12 \<le> n \<and> n < 52 \<and> bit fl n)" using assms by (metis bit_entry_address bit_0_eq bot_apply bot_bool_def)
  then show "bit (entry_address (set_page e a fl)) n \<longleftrightarrow> bit (entry_address a) n"
    by (auto simp: bit_entry_address bit_set_page)
qed

lemma nonleaf_flags_bits: "entry_address (nonleaf_flags fl) = 0" "\<not> bit (nonleaf_flags fl) 7"
  by (simp_all add: nonleaf_flags_def entry_address_def)

lemma leaf_flags_bits: "entry_address (leaf_flags fl) = 0" "\<not> bit (leaf_flags fl) 7"
  by (simp_all add: leaf_flags_def entry_address_def Let_def split: CacheType.split)

subsection \<open>Indices\<close>

definition idx :: "nat \<Rightarrow> u64 \<Rightarrow> nat" where
  "idx k v = unat (take_bit 9 (drop_bit k v))"

lemma idx_less [simp]: "idx k v < 512"
proof -
  have "unat (take_bit 9 (drop_bit k v)) = take_bit 9 (unat (drop_bit k v))" by (simp only: unsigned_take_bit_eq)
  then show ?thesis by (simp add: idx_def take_bit_eq_mod)
qed

lemma level_indices_eq:
  "level_indices v = (idx 39 v, idx 30 v, idx 21 v, idx 12 v, take_bit 12 v)"
proof -
  have "x AND 0x1ff = take_bit 9 x" "x AND 0xfff = take_bit 12 x" for x :: u64
    by (simp_all add: take_bit_eq_mask mask_eq_exp_minus_1)
  then show ?thesis by (simp add: level_indices_def idx_def)
qed

lemma bit_canonicalize_48:
  "bit (canonicalize_48 x) n \<longleftrightarrow> n < 64 \<and> (if n < 48 then bit x n else bit x 47)"
proof -
  have masks: "0xFFFF000000000000 = push_bit 48 (mask 16 :: u64)" "0x0000FFFFFFFFFFFF = (mask 48 :: u64)"
    by (simp_all add: mask_eq_exp_minus_1 push_bit_eq_mult)
  have "x AND push_bit 47 1 \<noteq> 0 \<longleftrightarrow> bit x 47" by (simp only: bit_iff_and_push_bit_not_eq_0)
  then have "canonicalize_48 x = (if bit x 47 then x OR push_bit 48 (mask 16) else x AND mask 48)"
    unfolding canonicalize_48_def masks by simp
  then show ?thesis
    using bit_imp_le_length [of x n] by (auto simp: bit_or_iff bit_and_iff bit_push_bit_iff bit_mask_iff)
qed

lemma canonicalize_48_idem [simp]: "canonicalize_48 (canonicalize_48 x) = canonicalize_48 x"
  by (rule bit_eqI) (auto simp: bit_canonicalize_48)

lemma bit_small: "(a :: nat) < 512 \<Longrightarrow> bit (of_nat a :: u64) n \<longleftrightarrow> n < 9 \<and> bit a n"
proof -
  assume "a < 512"
  then have "take_bit 9 a = a" by (simp add: take_bit_nat_eq_self)
  then have "bit a n \<longleftrightarrow> n < 9 \<and> bit a n" by (metis bit_take_bit_iff)
  then show ?thesis by (auto simp: bit_of_nat_iff)
qed

lemma unat_eq_small: "(a :: nat) < 512 \<Longrightarrow> w = (of_nat a :: u64) \<Longrightarrow> unat w = a"
  by (simp add: unat_of_nat)

text \<open>The address with the given four indices.\<close>

definition address_of :: "nat \<Rightarrow> nat \<Rightarrow> nat \<Rightarrow> nat \<Rightarrow> u64" where
  "address_of a b c d = canonicalize_48
     (push_bit 39 (of_nat a) OR push_bit 30 (of_nat b) OR push_bit 21 (of_nat c) OR push_bit 12 (of_nat d))"

lemma bit_address_of:
  assumes "a < 512" "b < 512" "c < 512" "d < 512" "n < 48"
  shows "bit (address_of a b c d) n \<longleftrightarrow>
    39 \<le> n \<and> bit a (n - 39) \<or> 30 \<le> n \<and> n < 39 \<and> bit b (n - 30)
    \<or> 21 \<le> n \<and> n < 30 \<and> bit c (n - 21) \<or> 12 \<le> n \<and> n < 21 \<and> bit d (n - 12)"
  using assms by (auto simp: address_of_def bit_canonicalize_48 bit_or_iff bit_push_bit_iff bit_small)

lemma level_indices_address_of:
  assumes "a < 512" "b < 512" "c < 512" "d < 512"
  shows "level_indices (address_of a b c d) = (a, b, c, d, 0)" "canonicalize_48 (address_of a b c d) = address_of a b c d"
proof -
  have "take_bit 9 (drop_bit 39 (address_of a b c d)) = of_nat a"
    by (rule bit_eqI) (auto simp: bit_take_bit_iff bit_drop_bit_eq bit_address_of assms bit_small)
  moreover have "take_bit 9 (drop_bit 30 (address_of a b c d)) = of_nat b"
    by (rule bit_eqI) (auto simp: bit_take_bit_iff bit_drop_bit_eq bit_address_of assms bit_small)
  moreover have "take_bit 9 (drop_bit 21 (address_of a b c d)) = of_nat c"
    by (rule bit_eqI) (auto simp: bit_take_bit_iff bit_drop_bit_eq bit_address_of assms bit_small)
  moreover have "take_bit 9 (drop_bit 12 (address_of a b c d)) = of_nat d"
    by (rule bit_eqI) (auto simp: bit_take_bit_iff bit_drop_bit_eq bit_address_of assms bit_small)
  moreover have "take_bit 12 (address_of a b c d) = 0"
    by (rule bit_eqI) (auto simp: bit_take_bit_iff bit_address_of assms)
  ultimately show "level_indices (address_of a b c d) = (a, b, c, d, 0)"
    using assms by (simp add: level_indices_eq idx_def unat_of_nat)
qed (simp add: address_of_def)

lemma table_ptrs:
  "pml4_table_ptr = address_of 511 511 511 511"
  "pdpt_table_ptr l4 = address_of 511 511 511 l4"
  "pd_table_ptr l4 l3 = address_of 511 511 l4 l3"
  "pt_table_ptr l4 l3 l2 = address_of 511 l4 l3 l2"
  by (simp_all add: address_of_def pml4_table_ptr_def pdpt_table_ptr_def pd_table_ptr_def pt_table_ptr_def)

section \<open>The tree of tables\<close>

text \<open>\<open>descend m r q\<close> follows a path of indices from the table at \<open>r\<close> through entries that link tables.\<close>

fun descend :: "(u64 \<Rightarrow> table) \<Rightarrow> u64 \<Rightarrow> nat list \<Rightarrow> u64 option" where
  "descend m r [] = Some r"
| "descend m r (i # q) = (if is_present (m r i) \<and> \<not> is_huge (m r i) then descend m (entry_address (m r i)) q else None)"

definition tbl :: "paging_hw \<Rightarrow> nat list \<Rightarrow> u64 option" where
  "tbl h = descend (hw_mem h) (hw_cr3 h)"

text \<open>The paths of tables other than those through the recursive slot.\<close>

definition path :: "nat list \<Rightarrow> bool" where
  "path q \<longleftrightarrow> length q \<le> 3 \<and> (\<forall>i \<in> set q. i < 512) \<and> (q \<noteq> [] \<longrightarrow> hd q \<noteq> 511)"

lemma path_Nil [simp]: "path []"
  by (simp add: path_def)

lemma path_appendD: "path (p @ s) \<Longrightarrow> path p"
  by (auto simp: path_def hd_append split: if_splits)

lemma path_append_lt: "path (p @ i # s) \<Longrightarrow> i < 512 \<and> length p < 3"
  by (auto simp: path_def)

lemma descend_append: "descend m r (p @ q) = (case descend m r p of None \<Rightarrow> None | Some f \<Rightarrow> descend m f q)"
  by (induction p arbitrary: r) auto

lemma descend_snoc:
  "descend m r p = Some f \<Longrightarrow> descend m r (p @ [i]) =
    (if is_present (m f i) \<and> \<not> is_huge (m f i) then Some (entry_address (m f i)) else None)"
  by (simp add: descend_append)

lemma descend_cong:
  assumes "\<And>p j s g. q = p @ j # s \<Longrightarrow> descend m r p = Some g \<Longrightarrow> m' g j = m g j"
  shows "descend m' r q = descend m r q"
  using assms
proof (induction q arbitrary: r)
  case (Cons i q)
  have e: "m' r i = m r i" using Cons.prems [of "[]" i q r] by simp
  show ?case
  proof (cases "is_present (m r i) \<and> \<not> is_huge (m r i)")
    case True
    have "descend m' (entry_address (m r i)) q = descend m (entry_address (m r i)) q"
    proof (rule Cons.IH)
      fix p j s g
      assume "q = p @ j # s" "descend m (entry_address (m r i)) p = Some g"
      with True show "m' g j = m g j" using Cons.prems [of "i # p" j s g] by simp
    qed
    with True e show ?thesis by simp
  qed (auto simp: e)
qed simp

text \<open>No frame holds two tables.\<close>

definition table_tree :: "(u64 \<Rightarrow> table) \<Rightarrow> u64 \<Rightarrow> bool" where
  "table_tree m r \<longleftrightarrow> (\<forall>p q f. path p \<longrightarrow> path q \<longrightarrow> descend m r p = Some f \<longrightarrow> descend m r q = Some f \<longrightarrow> p = q)"

lemma table_treeD: "table_tree m r \<Longrightarrow> path p \<Longrightarrow> path q \<Longrightarrow> descend m r p = Some f \<Longrightarrow> descend m r q = Some f \<Longrightarrow> p = q"
  by (auto simp: table_tree_def)

text \<open>A change of one entry changes the paths through it only.\<close>

lemma descend_write_other:
  assumes t: "table_tree m r" and p: "path p" "descend m r p = Some f" and q: "path q" "\<And>s. q \<noteq> p @ i # s"
    and m': "\<And>g a j. path g \<Longrightarrow> descend m r g = Some a \<Longrightarrow> a \<noteq> f \<or> j \<noteq> i \<Longrightarrow> m' a j = m a j"
  shows "descend m' r q = descend m r q"
proof (rule descend_cong)
  fix a j s g
  assume s: "q = a @ j # s" and g: "descend m r a = Some g"
  have a: "path a" using q(1) s path_appendD by blast
  have "g \<noteq> f \<or> j \<noteq> i" using table_treeD [OF t a p(1) _ p(2)] g q(2) s by auto
  then show "m' g j = m g j" using m' [OF a g] by blast
qed

lemma descend_leaf:
  assumes "table_tree m r" "path p" "descend m r p = Some f" "length p = 3" "path q"
  shows "descend (m(f := (m f)(i := e))) r q = descend m r q"
proof (rule descend_write_other [OF assms(1-3,5), where i = i])
  show "q \<noteq> p @ i # s" for s using assms(4,5) by (auto simp: path_def)
qed auto

lemma descend_unlink:
  assumes t: "table_tree m r" and p: "path p" "descend m r p = Some f" and q: "path q"
  shows "descend (m(f := (m f)(i := 0))) r q = (if \<exists>s. q = p @ i # s then None else descend m r q)"
proof (cases "\<exists>s. q = p @ i # s")
  case True
  then obtain s where s: "q = p @ i # s" by blast
  have "descend (m(f := (m f)(i := 0))) r p = Some f"
    unfolding p(2) [symmetric] by (rule descend_write_other [OF t p p(1), where i = i]) auto
  then show ?thesis by (simp add: s descend_append)
next
  case False
  moreover from this have "descend (m(f := (m f)(i := 0))) r q = descend m r q"
    by (intro descend_write_other [OF t p q, where i = i]) auto
  ultimately show ?thesis by simp
qed

lemma descend_link:
  assumes t: "table_tree m r" and p: "path p" "descend m r p = Some f" "\<not> is_present (m f i)" and q: "path q"
    and e: "is_present e" "\<not> is_huge e" "entry_address e = n"
    and n: "\<And>q. path q \<Longrightarrow> descend m r q \<noteq> Some n"
  shows "descend (m(f := (m f)(i := e), n := table_clear)) r q = (if q = p @ [i] then Some n else descend m r q)"
    (is "descend ?m r q = _")
proof -
  have fn: "f \<noteq> n" using n p by blast
  have same: "?m a j = m a j" if "path g" "descend m r g = Some a" "a \<noteq> f \<or> j \<noteq> i" for g a j
    using that n [OF that(1)] by auto
  note other = descend_write_other [OF t p(1,2), where m' = ?m and i = i, OF _ _ same]
  show ?thesis
  proof (cases "\<exists>s. q = p @ i # s")
    case True
    then obtain s where s: "q = p @ i # s" by blast
    have "descend ?m r p = Some f" using other [OF p(1)] p by auto
    moreover have "?m f i = e" using fn by simp
    ultimately have "descend ?m r q = descend ?m n s" using e by (simp add: s descend_append)
    also have "\<dots> = (if s = [] then Some n else None)" by (cases s) (auto simp: table_clear_def)
    also have "\<dots> = (if q = p @ [i] then Some n else descend m r q)"
      using p by (simp add: s descend_append)
    finally show ?thesis .
  qed (use other [OF q] in auto)
qed

section \<open>The invariant of the page tables\<close>

definition page_no :: "u64 \<Rightarrow> nat" where
  "page_no f = unat f div 4096"

definition frame_ok :: "u64 \<Rightarrow> bool" where
  "frame_ok f \<longleftrightarrow> unat f mod 4096 = 0 \<and> unat f < 2 ^ 52"

definition recursive :: "paging_hw \<Rightarrow> bool" where
  "recursive h \<longleftrightarrow> (let e = hw_mem h (hw_cr3 h) 511 in is_present e \<and> \<not> is_huge e \<and> entry_address e = hw_cr3 h)"

text \<open>The recursive slot holds the root; no frame holds two tables; no table is a free page; entries that are not
  present are zero; and only below slot 0, where the boot code puts the identity map, are large pages.\<close>

definition pt_inv :: "paging_hw \<Rightarrow> bool" where
  "pt_inv h \<longleftrightarrow> pmm_inv (hw_pmm h) \<and> recursive h \<and> table_tree (hw_mem h) (hw_cr3 h)
     \<and> (\<forall>q f. path q \<longrightarrow> tbl h q = Some f \<longrightarrow> frame_ok f \<and> page_no f \<notin> free_set (hw_pmm h))
     \<and> (\<forall>q f i. path q \<longrightarrow> tbl h q = Some f \<longrightarrow> i < 512 \<longrightarrow> \<not> is_present (hw_mem h f i) \<longrightarrow> hw_mem h f i = 0)
     \<and> (\<forall>q f i. path (q @ [i]) \<longrightarrow> hd (q @ [i]) \<noteq> 0 \<or> q = [] \<longrightarrow> tbl h q = Some f \<longrightarrow> \<not> is_huge (hw_mem h f i))"

definition table_pages :: "paging_hw \<Rightarrow> nat set" where
  "table_pages h = {page_no f | f q. path q \<and> tbl h q = Some f}"

text \<open>The leaf entries of the pages outside slot 0 and outside the recursive slot.\<close>

definition managed :: "nat list \<times> nat \<Rightarrow> bool" where
  "managed k \<longleftrightarrow> path (fst k) \<and> length (fst k) = 3 \<and> hd (fst k) \<noteq> 0 \<and> snd k < 512"

definition pages :: "paging_hw \<Rightarrow> nat list \<times> nat \<Rightarrow> u64 option" where
  "pages h k = (if \<not> managed k then None else case tbl h (fst k) of
      None \<Rightarrow> None
    | Some f \<Rightarrow> if is_present (hw_mem h f (snd k)) then Some (hw_mem h f (snd k)) else None)"

definition key :: "u64 \<Rightarrow> nat list \<times> nat" where
  "key v = ([idx 39 v, idx 30 v, idx 21 v], idx 12 v)"

definition same_low :: "paging_hw \<Rightarrow> paging_hw \<Rightarrow> bool" where
  "same_low h h' \<longleftrightarrow> hw_cr3 h' = hw_cr3 h \<and>
     (\<forall>q i f. path q \<longrightarrow> hd (q @ [i]) = 0 \<longrightarrow> tbl h q = Some f \<longrightarrow> tbl h' q = Some f \<and> hw_mem h' f i = hw_mem h f i)"

text \<open>What every operation on the managed pages keeps.\<close>

definition keeps :: "paging_hw \<Rightarrow> paging_hw \<Rightarrow> bool" where
  "keeps h h' \<longleftrightarrow> pt_inv h' \<and> same_low h h' \<and> tracked_pages (hw_pmm h') = tracked_pages (hw_pmm h)
     \<and> free_set (hw_pmm h') \<subseteq> free_set (hw_pmm h)
     \<and> table_pages h' \<subseteq> table_pages h \<union> (free_set (hw_pmm h) - free_set (hw_pmm h'))"

lemma keeps_refl: "pt_inv h \<Longrightarrow> keeps h h"
  by (simp add: keeps_def same_low_def)

lemma keeps_trans: "keeps h h1 \<Longrightarrow> keeps h1 h2 \<Longrightarrow> keeps h h2"
  unfolding keeps_def same_low_def by (auto 0 3)

lemma frame_ok_address: "frame_ok f \<Longrightarrow> entry_address f = f"
  by (simp add: frame_ok_def entry_address_aligned)

lemma page_no_inj: "frame_ok f \<Longrightarrow> frame_ok g \<Longrightarrow> page_no f = page_no g \<Longrightarrow> f = g"
  by (auto simp: frame_ok_def page_no_def word_unat_eq_iff)

lemma alloc_page_new:
  assumes "pmm_inv p" "alloc_page p = (Some n, p')"
  shows "pmm_inv p' \<and> frame_ok n \<and> page_no n \<in> free_set p \<and> free_set p' = free_set p - {page_no n}
    \<and> tracked_pages p' = tracked_pages p"
proof -
  from assms(2) have "alloc_pages_below 1 (- 1) p = (Some n, p')" by (simp add: alloc_page_def alloc_pages_def)
  moreover from pm.alloc_Some [OF assms(1) this] obtain first where
    "first + 1 \<le> MAX_PAGES" "unat n = first * 4096" "{first..<first + 1} \<subseteq> free_set p"
    "free_set p' = free_set p - {first..<first + 1}" "pmm_inv p'" by blast
  moreover have "tracked_pages p' = tracked_pages p" using alloc_Some_spec [OF assms(1)] calculation(1) by blast
  ultimately show ?thesis by (simp add: frame_ok_def page_no_def MAX_PAGES_eq)
qed

lemma alloc_page_none: "alloc_page p = (None, p') \<Longrightarrow> p' = p"
  by (simp add: alloc_page_def alloc_pages_def alloc_None_unchanged)

lemma alloc_page_fails: "pmm_inv p \<Longrightarrow> alloc_page p = (None, p') \<Longrightarrow> free_set p = {}"
proof (rule ccontr)
  assume p: "pmm_inv p" "alloc_page p = (None, p')" "free_set p \<noteq> {}"
  then obtain i where i: "i \<in> free_set p" by blast
  then have "i \<noteq> 0" using p(1) unfolding pmm_inv_def by metis
  moreover have "i < tracked_pages p" using i by (simp add: mem_free_set)
  moreover have "free_run p i 1" using i by (simp add: free_run_def)
  ultimately show False
    using p(2) by (cases rule: alloc_pages_below_cases [OF p(1), of 1 "- 1"])
      (auto simp: alloc_page_def alloc_pages_def page_bound_def)
qed

text \<open>The pointers of the source reach the tables.\<close>

fun ptr_of :: "nat list \<Rightarrow> u64" where
  "ptr_of [l4] = pdpt_table_ptr l4"
| "ptr_of [l4, l3] = pd_table_ptr l4 l3"
| "ptr_of [l4, l3, l2] = pt_table_ptr l4 l3 l2"
| "ptr_of _ = pml4_table_ptr"

lemma mmu_ptr:
  assumes "recursive h" "path q" "tbl h q = Some f"
  shows "mmu h (ptr_of q) = Some f"
proof -
  have len: "length q \<le> 3" and lt: "\<forall>i \<in> set q. i < 512" using assms(2) by (auto simp: path_def)
  consider "q = []" | a where "q = [a]" | a b where "q = [a, b]" | a b c where "q = [a, b, c]"
    using len by (cases q rule: ptr_of.cases) auto
  then show ?thesis
    using assms(1,3) lt
    by cases (auto simp: table_ptrs mmu_def level_indices_address_of recursive_def Let_def tbl_def split: if_splits)
qed

lemma pt_inv_tree: "pt_inv h \<Longrightarrow> table_tree (hw_mem h) (hw_cr3 h)"
  by (simp add: pt_inv_def)

lemma pt_inv_frame: "pt_inv h \<Longrightarrow> path q \<Longrightarrow> tbl h q = Some f \<Longrightarrow> frame_ok f \<and> page_no f \<notin> free_set (hw_pmm h)"
  by (auto simp: pt_inv_def)

lemma pt_inv_zero:
  "pt_inv h \<Longrightarrow> path q \<Longrightarrow> tbl h q = Some f \<Longrightarrow> i < 512 \<Longrightarrow> \<not> is_present (hw_mem h f i) \<Longrightarrow> hw_mem h f i = 0"
  by (auto simp: pt_inv_def)

lemma pt_inv_small:
  "pt_inv h \<Longrightarrow> path (q @ [i]) \<Longrightarrow> hd (q @ [i]) \<noteq> 0 \<or> q = [] \<Longrightarrow> tbl h q = Some f \<Longrightarrow> \<not> is_huge (hw_mem h f i)"
  unfolding pt_inv_def by blast

lemma tbl_inj: "pt_inv h \<Longrightarrow> path p \<Longrightarrow> path q \<Longrightarrow> tbl h p = Some f \<Longrightarrow> tbl h q = Some f \<Longrightarrow> p = q"
  using table_treeD [OF pt_inv_tree] by (simp add: tbl_def)

lemma tbl_root [simp]: "tbl h [] = Some (hw_cr3 h)"
  by (simp add: tbl_def)

text \<open>An entry of a linking table that the managed operations may change.\<close>

definition site :: "paging_hw \<Rightarrow> nat list \<Rightarrow> nat \<Rightarrow> u64 \<Rightarrow> bool" where
  "site h p i f \<longleftrightarrow> pt_inv h \<and> path (p @ [i]) \<and> hd (p @ [i]) \<noteq> 0 \<and> tbl h p = Some f"

lemma siteD:
  assumes "site h p i f"
  shows "pt_inv h" "path p" "path (p @ [i])" "hd (p @ [i]) \<noteq> 0" "tbl h p = Some f" "i < 512" "length p < 3"
    "table_tree (hw_mem h) (hw_cr3 h)" "descend (hw_mem h) (hw_cr3 h) p = Some f" "frame_ok f"
    "page_no f \<notin> free_set (hw_pmm h)" "\<not> is_huge (hw_mem h f i)"
proof -
  show "path p" using assms path_appendD unfolding site_def by blast
  then show "frame_ok f" "page_no f \<notin> free_set (hw_pmm h)" using assms pt_inv_frame unfolding site_def by blast+
  show "\<not> is_huge (hw_mem h f i)" using assms pt_inv_small unfolding site_def by blast
  show "i < 512" "length p < 3" using assms path_append_lt [of p i "[]"] unfolding site_def by auto
qed (use assms in \<open>auto simp: site_def pt_inv_def tbl_def\<close>)

lemma site_not_recursive:
  assumes "site h p i f" "f = hw_cr3 h"
  shows "i \<noteq> 511"
proof -
  have "p = []" using tbl_inj [OF siteD(1,2) [OF assms(1)] path_Nil siteD(5) [OF assms(1)]] assms(2) by simp
  then show ?thesis using siteD(3) [OF assms(1)] by (simp add: path_def)
qed

lemma free_not_table: "pt_inv h \<Longrightarrow> page_no n \<in> free_set (hw_pmm h) \<Longrightarrow> path q \<Longrightarrow> tbl h q \<noteq> Some n"
  using pt_inv_frame [of h q n] by auto

subsection \<open>Linking a new table\<close>

definition linked :: "paging_hw \<Rightarrow> u64 \<Rightarrow> nat \<Rightarrow> u64 \<Rightarrow> pmm \<Rightarrow> u64 \<Rightarrow> paging_hw" where
  "linked h f i n p' fl = write_entry f i (set_page (hw_mem h f i) n (nonleaf_flags fl)) (h\<lparr>hw_pmm := p'\<rparr>)"

lemma new_entry:
  assumes "site h p i f" "frame_ok n"
  shows "is_present (set_page (hw_mem h f i) n (nonleaf_flags fl))"
    "\<not> is_huge (set_page (hw_mem h f i) n (nonleaf_flags fl))"
    "entry_address (set_page (hw_mem h f i) n (nonleaf_flags fl)) = n"
  using siteD(12) [OF assms(1)] frame_ok_address [OF assms(2)]
  by (simp_all add: set_page_simps is_huge_bit entry_address_set_page nonleaf_flags_bits)

lemma linked_ptr:
  assumes S: "site h p i f" and n: "frame_ok n" "page_no n \<in> free_set (hw_pmm h)"
  shows "mmu (linked h f i n p' fl) (ptr_of (p @ [i])) = Some n"
proof (rule mmu_ptr)
  let ?e = "set_page (hw_mem h f i) n (nonleaf_flags fl)"
  have "descend ((hw_mem h)(f := (hw_mem h f)(i := ?e))) (hw_cr3 h) p = descend (hw_mem h) (hw_cr3 h) p"
    by (rule descend_write_other [OF siteD(8,2,9) [OF S] siteD(2) [OF S], where i = i]) auto
  then show "tbl (linked h f i n p' fl) (p @ [i]) = Some n"
    using new_entry [OF S n(1)] siteD(9) [OF S] by (simp add: linked_def write_entry_def tbl_def descend_snoc)
  show "recursive (linked h f i n p' fl)"
    using siteD(1) [OF S] site_not_recursive [OF S] by (auto simp: pt_inv_def recursive_def linked_def write_entry_def Let_def)
qed (rule siteD(3) [OF S])

lemma linked_tbl:
  assumes S: "site h p i f" and absent: "\<not> is_present (hw_mem h f i)"
    and n: "frame_ok n" "page_no n \<in> free_set (hw_pmm h)" and q: "path q"
  shows "tbl (clear_table n (linked h f i n p' fl)) q = (if q = p @ [i] then Some n else tbl h q)"
  using descend_link [OF siteD(8,2,9) [OF S] absent q new_entry [OF S n(1)]] free_not_table [OF siteD(1) [OF S] n(2)]
  by (simp add: clear_table_def linked_def write_entry_def tbl_def)

lemma linked_mem:
  assumes S: "site h p i f" and n: "frame_ok n" "page_no n \<in> free_set (hw_pmm h)" and q: "path q" "tbl h q = Some g"
  shows "hw_mem (clear_table n (linked h f i n p' fl)) g j
    = (if q = p \<and> j = i then set_page (hw_mem h f i) n (nonleaf_flags fl) else hw_mem h g j)"
proof -
  have "g \<noteq> n" using free_not_table [OF siteD(1) [OF S] n(2) q(1)] q(2) by blast
  moreover have "g = f \<longleftrightarrow> q = p" using tbl_inj [OF siteD(1,2) [OF S] q(1) siteD(5) [OF S]] q(2) siteD(5) [OF S] by auto
  ultimately show ?thesis by (auto simp: clear_table_def linked_def write_entry_def)
qed

lemma linked_keeps:
  fixes fl :: u64
  assumes S: "site h p i f" and absent: "\<not> is_present (hw_mem h f i)" and new: "alloc_page (hw_pmm h) = (Some n, p')"
  defines "h' \<equiv> clear_table n (linked h f i n p' fl)"
  shows "keeps h h' \<and> pages h' = pages h"
proof -
  note I = siteD(1) [OF S]
  have P: "pmm_inv p'" "frame_ok n" "page_no n \<in> free_set (hw_pmm h)" "free_set p' = free_set (hw_pmm h) - {page_no n}"
    "tracked_pages p' = tracked_pages (hw_pmm h)"
    using alloc_page_new [OF _ new] I by (auto simp: pt_inv_def)
  have fields: "hw_cr3 h' = hw_cr3 h" "hw_pmm h' = p'" "hw_mem h' n = table_clear"
    by (simp_all add: h'_def clear_table_def linked_def write_entry_def)
  note T = linked_tbl [OF S absent P(2,3), of _ p' fl, folded h'_def]
  note M = linked_mem [OF S P(2,3), of _ _ p' fl, folded h'_def]
  note E = new_entry [OF S P(2), of fl]
  have fresh: "tbl h q \<noteq> Some n" if "path q" for q using free_not_table [OF I P(3) that] .
  have rec: "recursive h'"
    using M [OF path_Nil tbl_root, of 511] siteD(3) [OF S] I
    by (auto simp: recursive_def pt_inv_def fields Let_def path_def)
  have table_tree: "table_tree (hw_mem h') (hw_cr3 h')"
    unfolding table_tree_def
  proof (intro allI impI)
    fix a b g
    assume ab: "path a" "path b" "descend (hw_mem h') (hw_cr3 h') a = Some g" "descend (hw_mem h') (hw_cr3 h') b = Some g"
    have ga: "(if a = p @ [i] then Some n else tbl h a) = Some g" using T [OF ab(1)] ab(3) by (simp only: tbl_def)
    have gb: "(if b = p @ [i] then Some n else tbl h b) = Some g" using T [OF ab(2)] ab(4) by (simp only: tbl_def)
    show "a = b"
    proof (cases "g = n")
      case True
      then show ?thesis using ga gb fresh [OF ab(1)] fresh [OF ab(2)] by metis
    next
      case False
      then have "tbl h a = Some g" "tbl h b = Some g" using ga gb by (metis option.inject)+
      then show ?thesis using tbl_inj [OF I ab(1,2)] by blast
    qed
  qed
  have inv: "pt_inv h'"
    unfolding pt_inv_def
  proof (intro conjI allI impI)
    fix q g assume q: "path q" "tbl h' q = Some g"
    show "frame_ok g" using T [OF q(1)] q P pt_inv_frame [OF I q(1)] by (auto split: if_splits)
    show "page_no g \<notin> free_set (hw_pmm h')"
      using T [OF q(1)] q P pt_inv_frame [OF I q(1)] by (auto simp: fields split: if_splits)
  next
    fix q g j assume q: "path q" "tbl h' q = Some g" "j < 512" "\<not> is_present (hw_mem h' g j)"
    show "hw_mem h' g j = 0"
    proof (cases "q = p @ [i]")
      case True
      then have "g = n" using T [OF q(1)] q(2) by simp
      then show ?thesis by (simp add: fields table_clear_def)
    next
      case False
      then have g: "tbl h q = Some g" using T [OF q(1)] q(2) by simp
      show ?thesis using M [OF q(1) g, of j] q(4) E(1) pt_inv_zero [OF I q(1) g q(3)] by (auto split: if_splits)
    qed
  next
    fix q g j assume q: "path (q @ [j])" "hd (q @ [j]) \<noteq> 0 \<or> q = []" "tbl h' q = Some g"
    have pq: "path q" using q(1) path_appendD by blast
    show "\<not> is_huge (hw_mem h' g j)"
    proof (cases "q = p @ [i]")
      case True
      then have "g = n" using T [OF pq] q(3) by simp
      then show ?thesis by (simp add: fields table_clear_def is_huge_def)
    next
      case False
      then have g: "tbl h q = Some g" using T [OF pq] q(3) by simp
      show ?thesis using M [OF pq g, of j] E(2) pt_inv_small [OF I q(1,2) g] by auto
    qed
  qed (use P rec table_tree in \<open>auto simp: fields\<close>)
  have low: "same_low h h'"
    unfolding same_low_def
  proof (intro conjI allI impI)
    fix q j g assume q: "path q" "hd (q @ [j]) = 0" "tbl h q = Some g"
    show "tbl h' q = Some g" using T [OF q(1)] q(2,3) siteD(4) [OF S] by (cases p) (auto split: if_splits)
    show "hw_mem h' g j = hw_mem h g j" using M [OF q(1,3), of j] q(2) siteD(4) [OF S] by auto
  qed (rule fields(1))
  have tp: "table_pages h' \<subseteq> table_pages h \<union> (free_set (hw_pmm h) - free_set (hw_pmm h'))"
    using T P by (auto simp: table_pages_def fields split: if_splits)
  have "pages h' k = pages h k" for k
  proof (cases "managed k")
    case True
    then have k: "path (fst k)" "length (fst k) = 3" by (auto simp: managed_def)
    then have "fst k \<noteq> p" using siteD(7) [OF S] by auto
    then show ?thesis
      using T [OF k(1)] M [OF k(1)] absent siteD(5) [OF S]
      by (auto simp: pages_def fields table_clear_def tbl_def descend_append split: option.splits)
  qed (simp add: pages_def)
  then show ?thesis using inv low tp P by (auto simp: keeps_def fields)
qed

subsection \<open>Changing a leaf and unlinking an empty table\<close>

lemma change_keeps:
  assumes I: "pt_inv h" and fields: "hw_cr3 h' = hw_cr3 h" "hw_pmm h' = hw_pmm h"
    and T: "\<And>q. path q \<Longrightarrow> tbl h' q = None \<or> tbl h' q = tbl h q"
    and L: "\<And>q. path q \<Longrightarrow> q \<noteq> [] \<Longrightarrow> hd q = 0 \<Longrightarrow> tbl h' q = tbl h q"
    and M: "\<And>q g j. path q \<Longrightarrow> tbl h' q = Some g \<Longrightarrow> hw_mem h' g j = hw_mem h g j \<or>
      hd (q @ [j]) \<notin> {0, 511} \<and> (hw_mem h' g j = 0 \<or> length q = 3 \<and> is_present (hw_mem h' g j))"
  shows "keeps h h'"
proof -
  have T': "tbl h q = Some g" if "path q" "tbl h' q = Some g" for q g using T [OF that(1)] that(2) by auto
  have inv: "pt_inv h'"
    unfolding pt_inv_def
  proof (intro conjI allI impI)
    show "pmm_inv (hw_pmm h')" using I by (simp add: pt_inv_def fields)
    show "recursive h'" using I M [OF path_Nil tbl_root, of 511] by (auto simp: pt_inv_def recursive_def fields Let_def)
    show "table_tree (hw_mem h') (hw_cr3 h')"
      unfolding table_tree_def using T' tbl_inj [OF I] by (simp add: tbl_def)
  next
    fix q g assume q: "path q" "tbl h' q = Some g"
    show "frame_ok g" "page_no g \<notin> free_set (hw_pmm h')" using pt_inv_frame [OF I q(1) T' [OF q]] by (simp_all add: fields)
  next
    fix q g j assume q: "path q" "tbl h' q = Some g" "j < 512" "\<not> is_present (hw_mem h' g j)"
    show "hw_mem h' g j = 0" using M [OF q(1,2), of j] pt_inv_zero [OF I q(1) T' [OF q(1,2)] q(3)] q(4) by auto
  next
    fix q g j assume q: "path (q @ [j])" "hd (q @ [j]) \<noteq> 0 \<or> q = []" "tbl h' q = Some g"
    have pq: "path q" using q(1) path_appendD by blast
    have "length q < 3" using path_append_lt q(1) by blast
    then show "\<not> is_huge (hw_mem h' g j)"
      using M [OF pq q(3), of j] pt_inv_small [OF I q(1,2) T' [OF pq q(3)]] by (auto simp: is_huge_def)
  qed
  have low: "same_low h h'"
    unfolding same_low_def
  proof (intro conjI allI impI)
    fix q j g assume q: "path q" "hd (q @ [j]) = 0" "tbl h q = Some g"
    show g: "tbl h' q = Some g" using L [OF q(1)] q(2,3) fields(1) by (cases q) auto
    show "hw_mem h' g j = hw_mem h g j" using M [OF q(1) g, of j] q(2) by auto
  qed (rule fields(1))
  have "table_pages h' \<subseteq> table_pages h" using T' by (auto simp: table_pages_def)
  with inv low show ?thesis by (auto simp: keeps_def fields)
qed

lemma leaf_write:
  assumes I: "pt_inv h" and p: "path p" "length p = 3" "hd p \<noteq> 0" "tbl h p = Some f" and i: "i < 512"
    and e: "e = 0 \<or> is_present e"
  defines "h' \<equiv> write_entry f i e h"
  shows "keeps h h' \<and> pages h' = (pages h)((p, i) := if is_present e then Some e else None)
    \<and> (\<forall>q. path q \<longrightarrow> tbl h' q = tbl h q)"
proof -
  have T: "tbl h' q = tbl h q" if "path q" for q
    using descend_leaf [OF pt_inv_tree [OF I] p(1) _ p(2) that] p(4) by (simp add: h'_def write_entry_def tbl_def)
  have M: "hw_mem h' g j = (if q = p \<and> j = i then e else hw_mem h g j)" if "path q" "tbl h q = Some g" for q g j
  proof -
    have "g = f \<longleftrightarrow> q = p" using tbl_inj [OF I p(1) that(1) p(4)] that(2) p(4) by auto
    then show ?thesis by (auto simp: h'_def write_entry_def)
  qed
  have nonempty: "p \<noteq> []" "hd p \<noteq> 511" using p by (auto simp: path_def)
  have "keeps h h'"
  proof (rule change_keeps [OF I])
    fix q g j assume q: "path q" "tbl h' q = Some g"
    show "hw_mem h' g j = hw_mem h g j \<or> hd (q @ [j]) \<notin> {0, 511} \<and> (hw_mem h' g j = 0 \<or> length q = 3 \<and> is_present (hw_mem h' g j))"
      using M [OF q(1), of g j] T [OF q(1)] q(2) e p(2,3) nonempty by auto
  qed (use T in \<open>simp_all add: h'_def write_entry_def\<close>)
  moreover have "pages h' k = ((pages h)((p, i) := if is_present e then Some e else None)) k" for k
  proof (cases "managed k")
    case True
    then have k: "path (fst k)" by (simp add: managed_def)
    show ?thesis
    proof (cases "tbl h (fst k)")
      case None
      then show ?thesis using True T [OF k] p(4) by (cases k) (auto simp: pages_def)
    next
      case (Some g)
      then show ?thesis using True T [OF k] M [OF k Some, of "snd k"] by (cases k) (auto simp: pages_def)
    qed
  next
    case False
    then have "k \<noteq> (p, i)" using p i by (auto simp: managed_def)
    with False show ?thesis by (simp add: pages_def)
  qed
  ultimately show ?thesis using T by blast
qed

lemma unlink:
  assumes S: "site h p i f" and t: "tbl h (p @ [i]) = Some t" and empty: "\<And>j. j < 512 \<Longrightarrow> \<not> is_present (hw_mem h t j)"
  defines "h' \<equiv> write_entry f i 0 h"
  shows "keeps h h' \<and> pages h' = pages h \<and> (\<forall>q. path q \<longrightarrow> tbl h' q = (if \<exists>s. q = p @ i # s then None else tbl h q))"
proof -
  note I = siteD(1) [OF S]
  have T: "tbl h' q = (if \<exists>s. q = p @ i # s then None else tbl h q)" if "path q" for q
    using descend_unlink [OF siteD(8,2,9) [OF S] that] by (simp add: h'_def write_entry_def tbl_def)
  have M: "hw_mem h' g j = (if q = p \<and> j = i then 0 else hw_mem h g j)" if "path q" "tbl h q = Some g" for q g j
  proof -
    have "g = f \<longleftrightarrow> q = p" using tbl_inj [OF I siteD(2) [OF S] that(1) siteD(5) [OF S]] that(2) siteD(5) [OF S] by auto
    then show ?thesis by (auto simp: h'_def write_entry_def)
  qed
  have hd: "hd (p @ [i]) \<noteq> 0" "hd (p @ [i]) \<noteq> 511" using siteD(3,4) [OF S] by (auto simp: path_def)
  have keep: "keeps h h'"
  proof (rule change_keeps [OF I])
    fix q assume q: "path q"
    then show "tbl h' q = None \<or> tbl h' q = tbl h q" using T by simp
    assume "q \<noteq> []" "hd q = 0"
    then show "tbl h' q = tbl h q" using T [OF q] hd(1) by (cases p) auto
  next
    fix q g j assume q: "path q" "tbl h' q = Some g"
    then have "tbl h q = Some g" using T [OF q(1)] by (auto split: if_splits)
    then show "hw_mem h' g j = hw_mem h g j \<or> hd (q @ [j]) \<notin> {0, 511} \<and> (hw_mem h' g j = 0 \<or> length q = 3 \<and> is_present (hw_mem h' g j))"
      using M [OF q(1), of g j] hd by auto
  qed (simp_all add: h'_def write_entry_def)
  have "pages h' k = pages h k" for k
  proof (cases "managed k")
    case True
    then have k: "path (fst k)" "length (fst k) = 3" "snd k < 512" by (simp_all add: managed_def)
    show ?thesis
    proof (cases "\<exists>s. fst k = p @ i # s")
      case True
      then obtain s where s: "fst k = (p @ [i]) @ s" by auto
      have "pages h k = None"
      proof (cases s)
        case Nil
        then show ?thesis using s t empty [OF k(3)] by (simp add: pages_def)
      next
        case (Cons x s')
        then have "x < 512" using k(1) s by (simp add: path_def)
        then have "descend (hw_mem h) t s = None" using Cons empty by simp
        then have "tbl h (fst k) = None" using t unfolding s tbl_def descend_append [of _ _ "p @ [i]"] by simp
        then show ?thesis by (simp add: pages_def)
      qed
      moreover have "pages h' k = None" using T [OF k(1)] True by (simp add: pages_def)
      ultimately show ?thesis by simp
    next
      case False
      then have "tbl h' (fst k) = tbl h (fst k)" using T [OF k(1)] by simp
      moreover have "fst k \<noteq> p" using k(2) siteD(7) [OF S] by auto
      ultimately show ?thesis using M [OF k(1)] by (auto simp: pages_def split: option.split)
    qed
  qed (simp add: pages_def)
  with keep T show ?thesis by blast
qed

section \<open>The page operations\<close>

lemma at_table_ptr:
  "pt_inv h \<Longrightarrow> path q \<Longrightarrow> tbl h q = Some f \<Longrightarrow> at_table h (ptr_of q) k = k f"
  using mmu_ptr [of h q f] by (simp add: at_table_def pt_inv_def)

lemma ensure_table_spec:
  assumes S: "site h p i f"
  shows "\<exists>r h'. ensure_table f i (ptr_of (p @ [i])) msg fl h = Some (r, h') \<and> keeps h h' \<and> pages h' = pages h
    \<and> (case r of
         Inr _ \<Rightarrow> tbl h' p = Some f \<and> tbl h' (p @ [i]) \<noteq> None
           \<and> card (free_set (hw_pmm h)) \<le> Suc (card (free_set (hw_pmm h')))
       | Inl e \<Rightarrow> e = msg \<and> h' = h \<and> tbl h (p @ [i]) = None \<and> free_set (hw_pmm h) = {})"
proof (cases "is_present (hw_mem h f i)")
  case True
  then have "tbl h (p @ [i]) = Some (entry_address (hw_mem h f i))"
    using siteD(9,12) [OF S] by (simp add: tbl_def descend_snoc)
  with True show ?thesis using siteD(1,5) [OF S] by (simp add: ensure_table_def keeps_refl)
next
  case False
  obtain got p' where a: "alloc_page (hw_pmm h) = (got, p')" by fastforce
  show ?thesis
  proof (cases got)
    case None
    then have "p' = hw_pmm h" using a alloc_page_none by blast
    moreover have "tbl h (p @ [i]) = None" using False siteD(9) [OF S] by (simp add: tbl_def descend_snoc)
    moreover have "free_set (hw_pmm h) = {}" using alloc_page_fails a None siteD(1) [OF S] by (auto simp: pt_inv_def)
    ultimately show ?thesis using False a None siteD(1) [OF S] by (simp add: ensure_table_def keeps_refl)
  next
    case (Some n)
    have n: "frame_ok n" "page_no n \<in> free_set (hw_pmm h)" "free_set p' = free_set (hw_pmm h) - {page_no n}"
      using alloc_page_new [of "hw_pmm h"] a Some siteD(1) [OF S] by (auto simp: pt_inv_def)
    have cnt: "card (free_set (hw_pmm h)) \<le> Suc (card (free_set p'))"
      unfolding n(3) using card_Suc_Diff1 [OF finite_free_set n(2)] by simp
    have run: "ensure_table f i (ptr_of (p @ [i])) msg fl h = Some (Inr (), clear_table n (linked h f i n p' fl))"
      using False a Some linked_ptr [OF S n(1,2), of p' fl]
      by (simp add: ensure_table_def linked_def at_table_def Let_def)
    note T = linked_tbl [OF S False n(1,2), of _ p' fl]
    have "tbl (clear_table n (linked h f i n p' fl)) p = Some f" using T [OF siteD(2) [OF S]] siteD(5) [OF S] by simp
    moreover have "tbl (clear_table n (linked h f i n p' fl)) (p @ [i]) = Some n" using T [OF siteD(3) [OF S]] by simp
    moreover have "hw_pmm (clear_table n (linked h f i n p' fl)) = p'"
      by (simp add: clear_table_def linked_def write_entry_def)
    ultimately show ?thesis using run linked_keeps [OF S False, of n p' fl] a Some cnt by auto
  qed
qed

lemma managed_key:
  assumes "managed (key v)"
  defines "a \<equiv> idx 39 v" and "b \<equiv> idx 30 v" and "c \<equiv> idx 21 v"
  shows "path [a]" "path [a, b]" "path [a, b, c]" "a \<noteq> 0" "a \<noteq> 511"
  using assms by (auto simp: managed_def key_def path_def)

lemma ensure_step:
  assumes S: "site h p i f"
    and ok: "\<And>h' g. keeps h h' \<Longrightarrow> pages h' = pages h \<Longrightarrow> card (free_set (hw_pmm h)) \<le> Suc (card (free_set (hw_pmm h')))
      \<Longrightarrow> tbl h' (p @ [i]) = Some g \<Longrightarrow> Q (k h' g)"
    and oom: "tbl h (p @ [i]) = None \<Longrightarrow> free_set (hw_pmm h) = {} \<Longrightarrow> Q (Some (Inl msg, h))"
  shows "Q (hbind (ensure_table f i (ptr_of (p @ [i])) msg fl h) (\<lambda>_ h. at_table h (ptr_of (p @ [i])) (k h)))"
proof -
  obtain r h' where E: "ensure_table f i (ptr_of (p @ [i])) msg fl h = Some (r, h')" "keeps h h'" "pages h' = pages h"
    "case r of Inr _ \<Rightarrow> tbl h' p = Some f \<and> tbl h' (p @ [i]) \<noteq> None \<and> card (free_set (hw_pmm h)) \<le> Suc (card (free_set (hw_pmm h')))
      | Inl e \<Rightarrow> e = msg \<and> h' = h \<and> tbl h (p @ [i]) = None \<and> free_set (hw_pmm h) = {}"
    using ensure_table_spec [OF S, of msg fl] by blast
  show ?thesis
  proof (cases r)
    case (Inl e)
    then show ?thesis using E oom by (simp add: hbind_def)
  next
    case (Inr u)
    then obtain g where g: "tbl h' (p @ [i]) = Some g" using E(4) by auto
    have "pt_inv h'" using E(2) by (simp add: keeps_def)
    then have "at_table h' (ptr_of (p @ [i])) (k h') = k h' g" using at_table_ptr siteD(3) [OF S] g by blast
    then show ?thesis using E Inr ok [OF E(2,3) _ g] by (simp add: hbind_def)
  qed
qed

lemma invlpg_frame [simp]:
  "hw_mem (invlpg v h) = hw_mem h" "hw_cr3 (invlpg v h) = hw_cr3 h" "hw_pmm (invlpg v h) = hw_pmm h"
  "tbl (invlpg v h) = tbl h"
  by (simp_all add: invlpg_def tbl_def)

lemma pages_invlpg [simp]: "pages (invlpg v h) = pages h"
  by (rule ext) (simp add: pages_def split: option.split)

lemma keeps_invlpg [simp]: "keeps h (invlpg v h') = keeps h h'"
  by (simp add: keeps_def pt_inv_def recursive_def same_low_def table_pages_def)

lemma tbl_prefix_None: "tbl h p = None \<Longrightarrow> tbl h (p @ q) = None"
  by (simp add: tbl_def descend_append)

lemma siteI: "pt_inv h \<Longrightarrow> path (p @ [i]) \<Longrightarrow> hd (p @ [i]) \<noteq> 0 \<Longrightarrow> tbl h p = Some f \<Longrightarrow> site h p i f"
  by (simp add: site_def)

lemma keeps_inv: "keeps h h' \<Longrightarrow> pt_inv h'"
  by (simp add: keeps_def)

text \<open>Mapping a page returns (no page fault).  It succeeds exactly by adding the entry of the page; otherwise
  no page changes, and either the page was mapped already or the allocator had no page for a table.\<close>

lemma map_page_hw_spec:
  assumes I: "pt_inv h" and v: "managed (key v)"
  shows "\<exists>r h'. map_page_hw v phys fl h = Some (r, h') \<and> keeps h h'
    \<and> (case r of
         Inr _ \<Rightarrow> pages h (key v) = None \<and> pages h' = (pages h)(key v \<mapsto> set_page 0 phys (leaf_flags fl))
       | Inl e \<Rightarrow> pages h' = pages h \<and> (e = ''vmm: page already mapped'' \<longleftrightarrow> pages h (key v) \<noteq> None)
           \<and> (pages h (key v) = None \<longrightarrow> card (free_set (hw_pmm h)) < 3))"
proof -
  define a b c d where "a = idx 39 v" and "b = idx 30 v" and "c = idx 21 v" and "d = idx 12 v"
  have P: "path [a]" "path [a, b]" "path [a, b, c]" "a \<noteq> 0" "a \<noteq> 511"
    using managed_key [OF v] by (simp_all add: a_def b_def c_def)
  have key: "key v = ([a, b, c], d)" by (simp add: key_def a_def b_def c_def d_def)
  let ?leaf = "\<lambda>h pt. if is_present (hw_mem h pt d) then Some (Inl ''vmm: page already mapped'', h)
       else Some (Inr (), invlpg v (write_entry pt d (set_page (hw_mem h pt d) phys (leaf_flags fl)) h))"
  define Q where "Q = (\<lambda>x. \<exists>r h'. x = Some (r :: unit res, h') \<and> keeps h h' \<and> (case r of
         Inr _ \<Rightarrow> pages h (key v) = None \<and> pages h' = (pages h)(key v \<mapsto> set_page 0 phys (leaf_flags fl))
       | Inl e \<Rightarrow> pages h' = pages h \<and> (e = ''vmm: page already mapped'' \<longleftrightarrow> pages h (key v) \<noteq> None)
           \<and> (pages h (key v) = None \<longrightarrow> card (free_set (hw_pmm h)) < 3)))"
  have oom: "Q (Some (Inl e, h'))" if "keeps h h'" "pages h' = pages h" "tbl h' ([a, b, c]) = None" "e \<noteq> ''vmm: page already mapped''"
    "card (free_set (hw_pmm h)) < 3" for e h'
  proof -
    have "pages h' (key v) = None" using that(3) by (simp add: pages_def key)
    then show ?thesis using that by (simp add: Q_def)
  qed
  have leaf: "Q (?leaf h' pt)" if K: "keeps h h'" "pages h' = pages h" and t: "tbl h' [a, b, c] = Some pt" for h' pt
  proof (cases "is_present (hw_mem h' pt d)")
    case True
    then have "pages h' (key v) \<noteq> None" using t v by (simp add: pages_def key)
    then show ?thesis using True K by (auto simp: Q_def)
  next
    case False
    have z: "hw_mem h' pt d = 0" using pt_inv_zero [OF keeps_inv [OF K(1)] P(3) t _ False] by (simp add: d_def)
    let ?e = "set_page 0 phys (leaf_flags fl)"
    have W: "keeps h' (write_entry pt d ?e h') \<and> pages (write_entry pt d ?e h') = (pages h')(([a, b, c], d) \<mapsto> ?e)"
      using leaf_write [OF keeps_inv [OF K(1)] P(3) _ _ t, of d ?e] P(4) by (simp add: d_def set_page_simps)
    have res: "?leaf h' pt = Some (Inr (), invlpg v (write_entry pt d ?e h'))" using False z by simp
    have "pages h' (key v) = None" using False t by (simp add: pages_def key)
    then have "pages h (key v) = None" using K(2) by simp
    moreover have "keeps h (invlpg v (write_entry pt d ?e h'))" using keeps_trans [OF K(1)] W by simp
    moreover have "pages (invlpg v (write_entry pt d ?e h')) = (pages h)(key v \<mapsto> ?e)" using W K(2) by (simp add: key)
    ultimately show ?thesis unfolding Q_def res by simp
  qed
  let ?in_pd = "\<lambda>h pd. hbind (ensure_table pd c (ptr_of ([a, b] @ [c])) ''vmm: out of memory for pt'' fl h)
      (\<lambda>_ h. at_table h (ptr_of ([a, b] @ [c])) (?leaf h))"
  let ?in_pdpt = "\<lambda>h pdpt. hbind (ensure_table pdpt b (ptr_of ([a] @ [b])) ''vmm: out of memory for pd'' fl h)
      (\<lambda>_ h. at_table h (ptr_of ([a] @ [b])) (?in_pd h))"
  let ?in_pml4 = "\<lambda>h pml4. hbind (ensure_table pml4 a (ptr_of ([] @ [a])) ''vmm: out of memory for pdpt'' fl h)
      (\<lambda>_ h. at_table h (ptr_of ([] @ [a])) (?in_pdpt h))"
  have pd: "Q (?in_pd h' t)" if K: "keeps h h'" "pages h' = pages h" and t: "tbl h' [a, b] = Some t"
    and c: "card (free_set (hw_pmm h)) \<le> Suc (Suc (card (free_set (hw_pmm h'))))" for h' t
  proof (rule ensure_step [where k = ?leaf])
    show "site h' [a, b] c t" using siteI [OF keeps_inv [OF K(1)], of "[a, b]" c t] P t by simp
    show "Q (Some (Inl ''vmm: out of memory for pt'', h'))" if "tbl h' ([a, b] @ [c]) = None" "free_set (hw_pmm h') = {}"
      using oom [OF K] that c by simp
  qed (use leaf K keeps_trans [OF K(1)] in auto)
  have pdpt: "Q (?in_pdpt h' t)" if K: "keeps h h'" "pages h' = pages h" and t: "tbl h' [a] = Some t"
    and c: "card (free_set (hw_pmm h)) \<le> Suc (card (free_set (hw_pmm h')))" for h' t
  proof (rule ensure_step [where k = ?in_pd])
    show "site h' [a] b t" using siteI [OF keeps_inv [OF K(1)], of "[a]" b t] P t by simp
    show "Q (Some (Inl ''vmm: out of memory for pd'', h'))" if "tbl h' ([a] @ [b]) = None" "free_set (hw_pmm h') = {}"
      using oom [OF K] tbl_prefix_None [OF that(1), of "[c]"] that(2) c by simp
    show "Q (?in_pd h1 g)" if "keeps h' h1" "pages h1 = pages h'" "card (free_set (hw_pmm h')) \<le> Suc (card (free_set (hw_pmm h1)))"
      "tbl h1 ([a] @ [b]) = Some g" for h1 g
      using pd [of h1 g] keeps_trans [OF K(1) that(1)] K(2) that c by simp
  qed
  have "Q (?in_pml4 h (hw_cr3 h))"
  proof (rule ensure_step [where k = ?in_pdpt])
    show "site h [] a (hw_cr3 h)" using siteI [OF I, of "[]" a] P by simp
    show "Q (Some (Inl ''vmm: out of memory for pdpt'', h))" if "tbl h ([] @ [a]) = None" "free_set (hw_pmm h) = {}"
      using oom [OF keeps_refl [OF I]] tbl_prefix_None [OF that(1), of "[b, c]"] that(2) by simp
  qed (use pdpt in auto)
  moreover have "map_page_hw v phys fl h = at_table h (ptr_of []) (?in_pml4 h)"
    unfolding map_page_hw_def level_indices_eq a_def b_def c_def d_def by simp
  ultimately have "Q (map_page_hw v phys fl h)" by (simp only: at_table_ptr [OF I path_Nil tbl_root])
  then show ?thesis by (simp add: Q_def)
qed

text \<open>The walk that unmapping and translating share.\<close>

definition table_walk :: "paging_hw \<Rightarrow> u64 \<Rightarrow> 'r \<Rightarrow> (u64 \<Rightarrow> u64 \<Rightarrow> u64 \<Rightarrow> u64 \<Rightarrow> 'r) \<Rightarrow> 'r option" where
  "table_walk h virt absent k =
     at_table h pml4_table_ptr (\<lambda>pml4.
     if \<not> is_present (hw_mem h pml4 (idx 39 virt)) then Some absent
     else at_table h (pdpt_table_ptr (idx 39 virt)) (\<lambda>pdpt.
     if \<not> is_present (hw_mem h pdpt (idx 30 virt)) then Some absent
     else at_table h (pd_table_ptr (idx 39 virt) (idx 30 virt)) (\<lambda>pd.
     if \<not> is_present (hw_mem h pd (idx 21 virt)) then Some absent
     else at_table h (pt_table_ptr (idx 39 virt) (idx 30 virt) (idx 21 virt)) (\<lambda>pt.
     if \<not> is_present (hw_mem h pt (idx 12 virt)) then Some absent
     else Some (k pml4 pdpt pd pt)))))"

lemma site_present: "site h p i f \<Longrightarrow> is_present (hw_mem h f i) \<longleftrightarrow> tbl h (p @ [i]) \<noteq> None"
  using siteD(9,12) [of h p i f] by (simp add: tbl_def descend_snoc)

lemma managed_site:
  assumes I: "pt_inv h" and v: "managed (key v)"
  defines "a \<equiv> idx 39 v" and "b \<equiv> idx 30 v" and "c \<equiv> idx 21 v"
  shows "site h [] a (hw_cr3 h)" "tbl h [a] = Some f \<Longrightarrow> site h [a] b f" "tbl h [a, b] = Some g \<Longrightarrow> site h [a, b] c g"
  using managed_key [OF v] I by (simp_all add: site_def a_def b_def c_def)

lemma table_walk_spec:
  assumes I: "pt_inv h" and v: "managed (key v)"
  defines "a \<equiv> idx 39 v" and "b \<equiv> idx 30 v" and "c \<equiv> idx 21 v"
  shows "pages h (key v) = None \<Longrightarrow> table_walk h v absent k = Some absent"
    and "pages h (key v) = Some e \<Longrightarrow> \<exists>pdpt pd pt. tbl h [a] = Some pdpt \<and> tbl h [a, b] = Some pd
      \<and> tbl h [a, b, c] = Some pt \<and> hw_mem h pt (idx 12 v) = e \<and> is_present e
      \<and> table_walk h v absent k = Some (k (hw_cr3 h) pdpt pd pt)"
proof -
  note P = managed_key [OF v, folded a_def b_def c_def]
  note S = managed_site [OF I v, folded a_def b_def c_def]
  note A = at_table_ptr [OF I]
  have root: "table_walk h v absent k = (if tbl h [a] = None then Some absent
     else at_table h (pdpt_table_ptr a) (\<lambda>pdpt.
     if \<not> is_present (hw_mem h pdpt b) then Some absent
     else at_table h (pd_table_ptr a b) (\<lambda>pd.
     if \<not> is_present (hw_mem h pd c) then Some absent
     else at_table h (pt_table_ptr a b c) (\<lambda>pt.
     if \<not> is_present (hw_mem h pt (idx 12 v)) then Some absent else Some (k (hw_cr3 h) pdpt pd pt)))))"
    unfolding table_walk_def a_def [symmetric] b_def [symmetric] c_def [symmetric]
    using site_present [OF S(1)] by (simp add: A [OF path_Nil tbl_root, unfolded ptr_of.simps])
  have up: "tbl h [a] = None \<Longrightarrow> tbl h [a, b] = None" "tbl h [a, b] = None \<Longrightarrow> tbl h [a, b, c] = None"
    using tbl_prefix_None [of h "[a]" "[b]"] tbl_prefix_None [of h "[a, b]" "[c]"] by simp_all
  have walk: "table_walk h v absent k = (case tbl h [a, b, c] of None \<Rightarrow> Some absent
      | Some pt \<Rightarrow> if is_present (hw_mem h pt (idx 12 v))
          then Some (k (hw_cr3 h) (the (tbl h [a])) (the (tbl h [a, b])) pt) else Some absent)"
  proof (cases "tbl h [a]")
    case None
    then show ?thesis using root up by simp
  next
    case (Some pdpt)
    note f = this
    show ?thesis
    proof (cases "tbl h [a, b]")
      case None
      then show ?thesis using root up site_present [OF S(2) [OF f]] f by (simp add: A [OF P(1) f, unfolded ptr_of.simps])
    next
      case (Some pd)
      note g = this
      show ?thesis
        using root site_present [OF S(2) [OF f]] site_present [OF S(3) [OF g]] f g
        by (cases "tbl h [a, b, c]") (simp_all add: A [OF P(1) f, unfolded ptr_of.simps]
          A [OF P(2) g, unfolded ptr_of.simps] A [OF P(3), unfolded ptr_of.simps])
    qed
  qed
  show "table_walk h v absent k = Some absent" if "pages h (key v) = None"
    using that v walk by (auto simp: pages_def key_def a_def b_def c_def split: option.splits if_splits)
  show "\<exists>pdpt pd pt. tbl h [a] = Some pdpt \<and> tbl h [a, b] = Some pd
      \<and> tbl h [a, b, c] = Some pt \<and> hw_mem h pt (idx 12 v) = e \<and> is_present e
      \<and> table_walk h v absent k = Some (k (hw_cr3 h) pdpt pd pt)" if e: "pages h (key v) = Some e"
  proof -
    obtain pt where pt: "tbl h [a, b, c] = Some pt" "hw_mem h pt (idx 12 v) = e" "is_present e"
      using e by (auto simp: pages_def key_def a_def b_def c_def split: option.splits if_splits)
    obtain pd where "tbl h [a, b] = Some pd" using pt(1) up(2) by fastforce
    moreover from this obtain pdpt where "tbl h [a] = Some pdpt" using up(1) by fastforce
    ultimately show ?thesis using walk pt by simp
  qed
qed

lemma translate_hw_walk:
  "translate_hw v h = table_walk h v None (\<lambda>_ _ _ pt. checked_add (entry_address (hw_mem h pt (idx 12 v))) (take_bit 12 v))"
  by (simp add: translate_hw_def level_indices_eq table_walk_def)

lemma unmap_page_hw_walk:
  "unmap_page_hw v h = table_walk h v (Inl ''vmm: page not mapped'', h) (\<lambda>pml4 pdpt pd pt.
     let h1 = invlpg v (write_entry pt (idx 12 v) 0 h) in
       (Inr (),
         if has_any_present_entries (hw_mem h1 pt) then h1
         else let h2 = write_entry pd (idx 21 v) 0 h1 in
           if has_any_present_entries (hw_mem h2 pd) then h2
           else let h3 = write_entry pdpt (idx 30 v) 0 h2 in
             if has_any_present_entries (hw_mem h3 pdpt) then h3
             else write_entry pml4 (idx 39 v) 0 h3))"
  unfolding unmap_page_hw_def level_indices_eq table_walk_def Let_def by (simp only: prod.case)

lemma none_present: "\<not> has_any_present_entries t \<Longrightarrow> j < 512 \<Longrightarrow> \<not> is_present (t j)"
  by (auto simp: has_any_present_entries_def list_ex_iff)

text \<open>Trimming: tables left empty are unlinked, the pages stay.\<close>

lemma trim_spec:
  assumes I: "pt_inv h" and v: "managed (key v)"
    and t: "tbl h [idx 39 v] = Some pdpt" "tbl h [idx 39 v, idx 30 v] = Some pd" "tbl h [idx 39 v, idx 30 v, idx 21 v] = Some pt"
    and empty: "\<not> has_any_present_entries (hw_mem h pt)"
  defines "h2 \<equiv> write_entry pd (idx 21 v) 0 h"
  defines "h3 \<equiv> write_entry pdpt (idx 30 v) 0 h2"
  defines "h4 \<equiv> write_entry (hw_cr3 h) (idx 39 v) 0 h3"
  defines "h' \<equiv> (if has_any_present_entries (hw_mem h2 pd) then h2 else if has_any_present_entries (hw_mem h3 pdpt) then h3 else h4)"
  shows "keeps h h' \<and> pages h' = pages h \<and> tbl h' [idx 39 v, idx 30 v, idx 21 v] = None
    \<and> (\<forall>q f. path q \<longrightarrow> tbl h' q = Some f \<longrightarrow> tbl h q = Some f)"
proof -
  define a b c where "a = idx 39 v" and "b = idx 30 v" and "c = idx 21 v"
  note P = managed_key [OF v, folded a_def b_def c_def]
  note t = t [folded a_def b_def c_def]
  note S = managed_site [OF _ v, folded a_def b_def c_def]
  have 2: "keeps h h2" "pages h2 = pages h" "\<And>q. path q \<Longrightarrow> tbl h2 q = (if \<exists>s. q = [a, b] @ c # s then None else tbl h q)"
    using unlink [OF S(3) [OF I t(2)], of pt] t(3) none_present [OF empty] by (simp_all add: h2_def c_def)
  have t2: "tbl h2 [a] = Some pdpt" "tbl h2 [a, b] = Some pd" using 2(3) P t by simp_all
  have 3: "keeps h2 h3" "pages h3 = pages h2" "\<And>q. path q \<Longrightarrow> tbl h3 q = (if \<exists>s. q = [a] @ b # s then None else tbl h2 q)"
    if "\<not> has_any_present_entries (hw_mem h2 pd)"
    using unlink [OF S(2) [OF keeps_inv [OF 2(1)] t2(1)], of pd] t2(2) none_present [OF that] by (simp_all add: h3_def b_def)
  have 4: "keeps h3 h4" "pages h4 = pages h3" "\<And>q. path q \<Longrightarrow> tbl h4 q = (if \<exists>s. q = [] @ a # s then None else tbl h3 q)"
    if "\<not> has_any_present_entries (hw_mem h2 pd)" "\<not> has_any_present_entries (hw_mem h3 pdpt)"
  proof -
    have t3: "tbl h3 [a] = Some pdpt" using 3(3) [OF that(1) P(1)] t2 by simp
    have "hw_cr3 h3 = hw_cr3 h" by (simp add: h3_def h2_def write_entry_def)
    then show "keeps h3 h4" "pages h4 = pages h3" "\<And>q. path q \<Longrightarrow> tbl h4 q = (if \<exists>s. q = [] @ a # s then None else tbl h3 q)"
      using unlink [OF S(1) [OF keeps_inv [OF 3(1) [OF that(1)]]], of pdpt] t3 none_present [OF that(2)]
      by (simp_all add: h4_def a_def)
  qed
  have sub2: "tbl h q = Some f" if "path q" "tbl h2 q = Some f" for q f using 2(3) [OF that(1)] that(2) by (simp split: if_splits)
  have none2: "tbl h2 [a, b, c] = None" using 2(3) [OF P(3)] by simp
  consider (two) "has_any_present_entries (hw_mem h2 pd)" | (three) "\<not> has_any_present_entries (hw_mem h2 pd)" "has_any_present_entries (hw_mem h3 pdpt)"
    | (four) "\<not> has_any_present_entries (hw_mem h2 pd)" "\<not> has_any_present_entries (hw_mem h3 pdpt)" by blast
  then have "keeps h h' \<and> pages h' = pages h \<and> tbl h' [a, b, c] = None \<and> (\<forall>q f. path q \<longrightarrow> tbl h' q = Some f \<longrightarrow> tbl h2 q = Some f)"
  proof cases
    case two
    then show ?thesis using 2 none2 by (simp add: h'_def)
  next
    case three
    then have "h' = h3" by (simp add: h'_def)
    moreover have "tbl h2 q = Some f" if "path q" "tbl h3 q = Some f" for q f using 3(3) [OF three(1) that(1)] that(2) by (simp split: if_splits)
    moreover have "tbl h3 [a, b, c] = None" using 3(3) [OF three(1) P(3)] by simp
    ultimately show ?thesis using 3(1,2) [OF three(1)] 2(1,2) keeps_trans by auto
  next
    case four
    then have "h' = h4" by (simp add: h'_def)
    moreover have "tbl h2 q = Some f" if "path q" "tbl h4 q = Some f" for q f
      using 3(3) [OF four(1) that(1)] 4(3) [OF four that(1)] that(2) by (simp split: if_splits)
    moreover have "tbl h4 [a, b, c] = None" using 4(3) [OF four P(3)] by simp
    ultimately show ?thesis using 3(1,2) [OF four(1)] 4(1,2) [OF four] 2(1,2) keeps_trans by metis
  qed
  then show ?thesis using sub2 unfolding a_def b_def c_def by blast
qed

lemma unmap_page_hw_spec:
  assumes I: "pt_inv h" and v: "managed (key v)"
  shows "\<exists>h'. unmap_page_hw v h = Some (if pages h (key v) = None then Inl ''vmm: page not mapped'' else Inr (), h')
    \<and> keeps h h' \<and> pages h' = (pages h)(key v := None) \<and> hw_pmm h' = hw_pmm h
    \<and> (\<forall>q f. path q \<longrightarrow> tbl h' q = Some f \<longrightarrow> tbl h q = Some f)
    \<and> (pages h (key v) \<noteq> None \<longrightarrow> hw_flushed h' = v # hw_flushed h
        \<and> ((\<forall>j. pages h' (fst (key v), j) = None) \<longrightarrow> tbl h' (fst (key v)) = None))"
proof (cases "pages h (key v)")
  case None
  have "unmap_page_hw v h = Some (Inl ''vmm: page not mapped'', h)"
    unfolding unmap_page_hw_walk by (rule table_walk_spec(1) [OF I v None])
  moreover have "(pages h)(key v := None) = pages h" using None by auto
  ultimately show ?thesis using None keeps_refl [OF I] by auto
next
  case (Some e)
  let ?k = "\<lambda>pml4 pdpt pd pt. let h1 = invlpg v (write_entry pt (idx 12 v) 0 h) in
       (Inr () :: unit res, if has_any_present_entries (hw_mem h1 pt) then h1
         else let h2 = write_entry pd (idx 21 v) 0 h1 in
           if has_any_present_entries (hw_mem h2 pd) then h2
           else let h3 = write_entry pdpt (idx 30 v) 0 h2 in
             if has_any_present_entries (hw_mem h3 pdpt) then h3
             else write_entry pml4 (idx 39 v) 0 h3)"
  obtain pdpt pd pt where t: "tbl h [idx 39 v] = Some pdpt" "tbl h [idx 39 v, idx 30 v] = Some pd"
    "tbl h [idx 39 v, idx 30 v, idx 21 v] = Some pt"
    and run: "table_walk h v (Inl ''vmm: page not mapped'', h) ?k = Some (?k (hw_cr3 h) pdpt pd pt)"
    using table_walk_spec(2) [OF I v Some, of "(Inl ''vmm: page not mapped'', h)" ?k] by blast
  define h1 where "h1 = invlpg v (write_entry pt (idx 12 v) 0 h)"
  have P: "path [idx 39 v, idx 30 v, idx 21 v]" "idx 39 v \<noteq> 0" "path [idx 39 v]" "path [idx 39 v, idx 30 v]"
    using managed_key [OF v] by simp_all
  have L: "keeps h h1" "pages h1 = (pages h)(key v := None)" "\<And>q. path q \<Longrightarrow> tbl h1 q = tbl h q"
    using leaf_write [OF I P(1) _ _ t(3), of "idx 12 v" 0] P(2) by (simp_all add: h1_def key_def)
  have T: "tbl h1 [idx 39 v] = Some pdpt" "tbl h1 [idx 39 v, idx 30 v] = Some pd" "tbl h1 [idx 39 v, idx 30 v, idx 21 v] = Some pt"
    using L(3) P t by simp_all
  define h' where "h' = snd (?k (hw_cr3 h) pdpt pd pt)"
  have res: "unmap_page_hw v h = Some (Inr (), h')"
  proof -
    have "fst (?k (hw_cr3 h) pdpt pd pt) = Inr ()" unfolding Let_def by simp
    then have "?k (hw_cr3 h) pdpt pd pt = (Inr (), h')" unfolding h'_def by (metis prod.collapse)
    with run show ?thesis by (simp only: unmap_page_hw_walk)
  qed
  have cr3: "hw_cr3 h1 = hw_cr3 h" by (simp add: h1_def write_entry_def)
  have h': "h' = (if has_any_present_entries (hw_mem h1 pt) then h1
      else if has_any_present_entries (hw_mem (write_entry pd (idx 21 v) 0 h1) pd) then write_entry pd (idx 21 v) 0 h1
      else if has_any_present_entries (hw_mem (write_entry pdpt (idx 30 v) 0 (write_entry pd (idx 21 v) 0 h1)) pdpt)
        then write_entry pdpt (idx 30 v) 0 (write_entry pd (idx 21 v) 0 h1)
      else write_entry (hw_cr3 h1) (idx 39 v) 0 (write_entry pdpt (idx 30 v) 0 (write_entry pd (idx 21 v) 0 h1)))"
    unfolding h'_def Let_def h1_def [symmetric] cr3 by simp
  have K: "keeps h1 h' \<and> pages h' = pages h1 \<and> (\<forall>q f. path q \<longrightarrow> tbl h' q = Some f \<longrightarrow> tbl h1 q = Some f)
      \<and> ((\<forall>j. pages h' (fst (key v), j) = None) \<longrightarrow> tbl h' (fst (key v)) = None)"
  proof (cases "has_any_present_entries (hw_mem h1 pt)")
    case True
    then have eq: "h' = h1" by (simp add: h')
    obtain j where j: "j < 512" "is_present (hw_mem h1 pt j)" using True by (auto simp: has_any_present_entries_def list_ex_iff)
    have "managed (fst (key v), j)" using v j(1) by (simp add: managed_def)
    then have "pages h1 (fst (key v), j) \<noteq> None" using j(2) T(3) by (simp add: pages_def key_def)
    then show ?thesis using keeps_refl [OF keeps_inv [OF L(1)]] unfolding eq by metis
  next
    case False
    then have eq: "h' = (if has_any_present_entries (hw_mem (write_entry pd (idx 21 v) 0 h1) pd) then write_entry pd (idx 21 v) 0 h1
      else if has_any_present_entries (hw_mem (write_entry pdpt (idx 30 v) 0 (write_entry pd (idx 21 v) 0 h1)) pdpt)
        then write_entry pdpt (idx 30 v) 0 (write_entry pd (idx 21 v) 0 h1)
      else write_entry (hw_cr3 h1) (idx 39 v) 0 (write_entry pdpt (idx 30 v) 0 (write_entry pd (idx 21 v) 0 h1)))"
      by (simp only: h' if_False)
    have "keeps h1 h' \<and> pages h' = pages h1 \<and> tbl h' [idx 39 v, idx 30 v, idx 21 v] = None
        \<and> (\<forall>q f. path q \<longrightarrow> tbl h' q = Some f \<longrightarrow> tbl h1 q = Some f)"
      unfolding eq by (rule trim_spec [OF keeps_inv [OF L(1)] v T False])
    then show ?thesis by (simp add: key_def)
  qed
  have "hw_pmm h' = hw_pmm h" unfolding h' by (simp add: write_entry_def h1_def)
  moreover have "keeps h h'" "pages h' = (pages h)(key v := None)" using K L(2) keeps_trans [OF L(1)] by simp_all
  moreover have "hw_flushed h' = v # hw_flushed h" unfolding h' by (simp add: write_entry_def h1_def invlpg_def)
  moreover have "\<forall>q f. path q \<longrightarrow> tbl h' q = Some f \<longrightarrow> tbl h q = Some f" using K L(3) by simp
  ultimately show ?thesis using res Some K by simp
qed

lemma translate_hw_spec:
  assumes "pt_inv h" "managed (key v)"
  shows "translate_hw v h = Some (case pages h (key v) of None \<Rightarrow> None
    | Some e \<Rightarrow> checked_add (entry_address e) (take_bit 12 v))"
proof (cases "pages h (key v)")
  case None
  then show ?thesis unfolding translate_hw_walk by (simp add: table_walk_spec(1) [OF assms])
next
  case (Some e)
  show ?thesis
    unfolding translate_hw_walk
    using Some table_walk_spec(2) [OF assms Some, of None "\<lambda>_ _ _ pt. checked_add (entry_address (hw_mem h pt (idx 12 v))) (take_bit 12 v)"]
    by auto
qed

section \<open>What the processor sees\<close>

text \<open>For the pages outside slot 0 and the recursive slot the software walk and the processor agree.\<close>

lemma mmu_managed:
  assumes I: "pt_inv h" and v: "managed (key v)" "canonicalize_48 v = v"
  shows "mmu h v = map_option entry_address (pages h (key v))"
proof -
  define a b c where "a = idx 39 v" and "b = idx 30 v" and "c = idx 21 v"
  note P = managed_key [OF v(1), folded a_def b_def c_def]
  note S = managed_site [OF I v(1), folded a_def b_def c_def]
  have step: "tbl h (p @ [i]) = (if is_present (hw_mem h f i) then Some (entry_address (hw_mem h f i)) else None)"
    if "site h p i f" for p i f
    using siteD(9,12) [OF that] by (simp add: tbl_def descend_snoc)
  have m: "mmu h v = (let e4 = hw_mem h (hw_cr3 h) a in
     if \<not> is_present e4 then None
     else let e3 = hw_mem h (entry_address e4) b in
     if \<not> is_present e3 then None
     else if is_huge e3 then Some (large_frame 30 e3 v)
     else let e2 = hw_mem h (entry_address e3) c in
     if \<not> is_present e2 then None
     else if is_huge e2 then Some (large_frame 21 e2 v)
     else let e1 = hw_mem h (entry_address e2) (idx 12 v) in
     if \<not> is_present e1 then None else Some (entry_address e1))"
    unfolding mmu_def level_indices_eq a_def b_def c_def using v(2) by (simp only: prod.case) simp
  show ?thesis
  proof (cases "tbl h [a]")
    case None
    then have "tbl h [a, b, c] = None" using tbl_prefix_None [of h "[a]" "[b, c]"] by simp
    then show ?thesis using m step [OF S(1)] None by (simp add: pages_def key_def a_def b_def c_def split: if_splits)
  next
    case (Some pdpt)
    note pdpt = this
    have e4: "is_present (hw_mem h (hw_cr3 h) a)" "entry_address (hw_mem h (hw_cr3 h) a) = pdpt"
      using step [OF S(1)] pdpt by (simp_all split: if_splits)
    have e3: "\<not> is_huge (hw_mem h pdpt b)" using siteD(12) [OF S(2) [OF pdpt]] .
    show ?thesis
    proof (cases "tbl h [a, b]")
      case None
      then have "tbl h [a, b, c] = None" using tbl_prefix_None [of h "[a, b]" "[c]"] by simp
      moreover have "\<not> is_present (hw_mem h pdpt b)" using step [OF S(2) [OF pdpt]] None by (simp split: if_splits)
      ultimately show ?thesis using m e4 by (simp add: pages_def key_def a_def b_def c_def)
    next
      case (Some pd)
      note pd = this
      have e3': "is_present (hw_mem h pdpt b)" "entry_address (hw_mem h pdpt b) = pd"
        using step [OF S(2) [OF pdpt]] pd by (simp_all split: if_splits)
      have e2: "\<not> is_huge (hw_mem h pd c)" using siteD(12) [OF S(3) [OF pd]] .
      show ?thesis
        using m e4 e3 e3' e2 step [OF S(3) [OF pd]] v(1)
        by (simp add: pages_def key_def Let_def flip: a_def b_def c_def split: if_splits)
    qed
  qed
qed

text \<open>The identity map of low memory is left alone.\<close>

lemma mmu_low:
  assumes L: "same_low h h'" and I: "pt_inv h" and v: "idx 39 v = 0"
  shows "mmu h' v = mmu h v"
proof -
  define b c where "b = idx 30 v" and "c = idx 21 v"
  define r where "r = hw_cr3 h"
  have cr3: "hw_cr3 h' = r" using L by (simp add: same_low_def r_def)
  have low: "hw_mem h' f i = hw_mem h f i" if "path q" "hd (q @ [i]) = 0" "tbl h q = Some f" for q i f
    using L that unfolding same_low_def by blast
  have P: "path [0]" "path [0, b]" "path [0, b, c]" by (simp_all add: path_def b_def c_def)
  have e4: "hw_mem h' r 0 = hw_mem h r 0" using low [of "[]" 0] by (simp add: r_def)
  have t1: "tbl h [0] = Some (entry_address (hw_mem h r 0))" if "is_present (hw_mem h r 0)"
    using that pt_inv_small [OF I, of "[]" 0 r] P by (simp add: tbl_def r_def)
  have e3: "hw_mem h' (entry_address (hw_mem h r 0)) i = hw_mem h (entry_address (hw_mem h r 0)) i" if "is_present (hw_mem h r 0)" for i
    using low [OF P(1) _ t1 [OF that]] by simp
  define e3 where "e3 = hw_mem h (entry_address (hw_mem h r 0)) b"
  have t2: "tbl h [0, b] = Some (entry_address e3)" if "is_present (hw_mem h r 0)" "is_present e3" "\<not> is_huge e3"
    using that descend_snoc [of "hw_mem h" r "[0]" _ b] t1 by (simp add: tbl_def e3_def r_def)
  have e2: "hw_mem h' (entry_address e3) i = hw_mem h (entry_address e3) i"
    if "is_present (hw_mem h r 0)" "is_present e3" "\<not> is_huge e3" for i
    using low [OF P(2) _ t2 [OF that]] by simp
  define e2 where "e2 = hw_mem h (entry_address e3) c"
  have t3: "tbl h [0, b, c] = Some (entry_address e2)"
    if "is_present (hw_mem h r 0)" "is_present e3" "\<not> is_huge e3" "is_present e2" "\<not> is_huge e2"
    using that descend_snoc [of "hw_mem h" r "[0, b]" _ c] t2 by (simp add: tbl_def e2_def r_def)
  have e1: "hw_mem h' (entry_address e2) i = hw_mem h (entry_address e2) i"
    if "is_present (hw_mem h r 0)" "is_present e3" "\<not> is_huge e3" "is_present e2" "\<not> is_huge e2" for i
    using low [OF P(3) _ t3 [OF that]] by simp
  show ?thesis
    using e4 e3 e2 e1
    by (simp add: mmu_def level_indices_eq v Let_def cr3 flip: r_def b_def c_def e3_def e2_def)
qed

lemma keeps_mmu_low: "pt_inv h \<Longrightarrow> keeps h h' \<Longrightarrow> idx 39 v = 0 \<Longrightarrow> mmu h' v = mmu h v"
  by (simp add: keeps_def mmu_low)

section \<open>Consequences\<close>

text \<open>Without the recursive slot (the tables the firmware leaves in CR3 need not have one) every page operation
  faults at its first access to a table.\<close>

lemma no_recursive_slot_faults:
  assumes "\<not> is_present (hw_mem h (hw_cr3 h) 511)"
  shows "map_page_hw v p fl h = None" "unmap_page_hw v h = None" "translate_hw v h = None"
proof -
  have "mmu h pml4_table_ptr = None" using assms by (simp add: table_ptrs mmu_def level_indices_address_of Let_def)
  then have "at_table h pml4_table_ptr k = None" for k :: "u64 \<Rightarrow> 'r option" by (simp add: at_table_def)
  then show "map_page_hw v p fl h = None" "unmap_page_hw v h = None" "translate_hw v h = None"
    by (simp_all add: map_page_hw_def unmap_page_hw_def translate_hw_def level_indices_eq)
qed

lemma mmu_ptr_None:
  assumes I: "pt_inv h" and q: "path q" "q \<noteq> []" "hd q \<noteq> 0" and t: "tbl h q = None"
  shows "mmu h (ptr_of q) = None"
proof -
  have len: "length q \<le> 3" and lt: "\<forall>i \<in> set q. i < 512" using q by (auto simp: path_def)
  have rec: "recursive h" using I by (simp add: pt_inv_def)
  have S: "\<not> is_huge (hw_mem h f i)" if "path (p @ [i])" "hd (p @ [i]) \<noteq> 0" "tbl h p = Some f" for p i f
    using pt_inv_small [OF I that(1) _ that(3)] that(2) by blast
  consider a where "q = [a]" | a b where "q = [a, b]" | a b c where "q = [a, b, c]"
    using len q(2) by (cases q rule: ptr_of.cases) auto
  then show ?thesis
  proof cases
    case 1
    then show ?thesis using t rec lt S [of "[]" a] q
      by (auto simp: table_ptrs mmu_def level_indices_address_of recursive_def Let_def tbl_def split: if_splits)
  next
    case 2
    have "\<not> is_huge (hw_mem h (hw_cr3 h) a)" using S [of "[]" a "hw_cr3 h"] q path_appendD [of "[a]" "[b]"] 2 by simp
    moreover have "\<not> is_huge (hw_mem h f b)" if "tbl h [a] = Some f" for f using S [of "[a]" b f] q 2 that by simp
    ultimately show ?thesis using 2 t rec lt
      by (auto simp: table_ptrs mmu_def level_indices_address_of recursive_def Let_def tbl_def split: if_splits)
  next
    case 3
    have "\<not> is_huge (hw_mem h (hw_cr3 h) a)" using S [of "[]" a "hw_cr3 h"] q path_appendD [of "[a]" "[b, c]"] 3 by simp
    moreover have "\<not> is_huge (hw_mem h f b)" if "tbl h [a] = Some f" for f
      using S [of "[a]" b f] q path_appendD [of "[a, b]" "[c]"] 3 that by simp
    moreover have "\<not> is_huge (hw_mem h f c)" if "tbl h [a, b] = Some f" for f using S [of "[a, b]" c f] q 3 that by simp
    ultimately show ?thesis using 3 t rec lt
      by (auto simp: table_ptrs mmu_def level_indices_address_of recursive_def Let_def tbl_def split: if_splits)
  qed
qed

text \<open>Unmapping the last page of a table.  The frame of the table is unlinked and never given back to the page
  allocator; and the processor's translation of the table's own pointer changes without \<^verbatim>\<open>invlpg\<close>
  being called on it, so a cached translation of the pointer may still be used when the next page is
  mapped there.\<close>

lemma unmap_leaks_table:
  assumes I: "pt_inv h" and v: "managed (key v)" "pages h (key v) \<noteq> None" and sole: "\<And>j. j \<noteq> snd (key v) \<Longrightarrow> pages h (fst (key v), j) = None"
  shows "\<exists>pt h'. tbl h (fst (key v)) = Some pt \<and> unmap_page_hw v h = Some (Inr (), h')
    \<and> page_no pt \<notin> table_pages h' \<and> page_no pt \<notin> free_set (hw_pmm h')
    \<and> mmu h (ptr_of (fst (key v))) = Some pt \<and> mmu h' (ptr_of (fst (key v))) = None
    \<and> hw_flushed h' = v # hw_flushed h \<and> key (ptr_of (fst (key v))) \<noteq> key v"
proof -
  define q where "q = fst (key v)"
  have q: "path q" "q \<noteq> []" "hd q \<noteq> 0" using v(1) by (auto simp: managed_def q_def)
  obtain pt where pt: "tbl h q = Some pt" using v by (auto simp: pages_def q_def split: option.splits)
  obtain h' where U: "unmap_page_hw v h = Some (Inr (), h')" "keeps h h'" "pages h' = (pages h)(key v := None)" "hw_pmm h' = hw_pmm h"
    "\<forall>q f. path q \<longrightarrow> tbl h' q = Some f \<longrightarrow> tbl h q = Some f" "hw_flushed h' = v # hw_flushed h"
    "(\<forall>j. pages h' (fst (key v), j) = None) \<longrightarrow> tbl h' (fst (key v)) = None"
    using unmap_page_hw_spec [OF I v(1)] unfolding if_not_P [OF v(2)] using v(2) by blast
  have none: "tbl h' q = None"
  proof -
    have "pages h' (fst (key v), j) = None" for j using sole [of j] unfolding U(3) by (cases "j = snd (key v)") auto
    then show ?thesis using U(7) by (simp add: q_def)
  qed
  have ok: "frame_ok pt" "page_no pt \<notin> free_set (hw_pmm h)" using pt_inv_frame [OF I q(1) pt] by simp_all
  have "page_no pt \<notin> table_pages h'"
  proof
    assume "page_no pt \<in> table_pages h'"
    then obtain p f where f: "path p" "tbl h' p = Some f" "page_no f = page_no pt" by (auto simp: table_pages_def)
    have "f = pt" using page_no_inj [of f pt] pt_inv_frame [OF keeps_inv [OF U(2)] f(1,2)] f(3) ok(1) by simp
    then have "p = q" using tbl_inj [OF I f(1) q(1)] U(5) f pt by blast
    then show False using none f(2) by simp
  qed
  moreover have "mmu h (ptr_of q) = Some pt" using mmu_ptr q(1) pt I by (simp add: pt_inv_def)
  moreover have "mmu h' (ptr_of q) = None" using mmu_ptr_None [OF keeps_inv [OF U(2)] q none] .
  moreover have "key (ptr_of q) \<noteq> key v"
  proof -
    have "ptr_of q = address_of 511 (idx 39 v) (idx 30 v) (idx 21 v)" by (simp add: q_def key_def table_ptrs)
    then have "idx 39 (ptr_of q) = 511"
      using level_indices_address_of(1) [of 511 "idx 39 v" "idx 30 v" "idx 21 v"] by (simp add: level_indices_eq)
    then show ?thesis using q(1) by (auto simp: key_def path_def q_def)
  qed
  ultimately show ?thesis using pt U ok unfolding q_def by auto
qed

text \<open>In the boot identity map of low memory, which is made of 2 MiB pages, the page operations take the
  memory behind the large page for a page table: a translation is read from it, and a mapping is
  written into it.\<close>

lemma large_page_taken_for_table:
  assumes rec: "recursive h" and v: "idx 39 v = 0" "canonicalize_48 v = v"
    and pdpt: "tbl h [0] = Some pdpt" and pd: "tbl h [0, idx 30 v] = Some pd"
    and e: "e = hw_mem h pd (idx 21 v)" "is_present e" "is_huge e"
  defines "word \<equiv> hw_mem h (entry_address e) (idx 12 v)"
  shows "mmu h v = Some (large_frame 21 e v)"
    "translate_hw v h = Some (if is_present word then checked_add (entry_address word) (take_bit 12 v) else None)"
    "\<not> is_present word \<Longrightarrow> map_page_hw v phys fl h =
      Some (Inr (), invlpg v (write_entry (entry_address e) (idx 12 v) (set_page word phys (leaf_flags fl)) h))"
proof -
  define b c where "b = idx 30 v" and "c = idx 21 v"
  have P: "path [0]" "path [0, b]" "b < 512" "c < 512" by (simp_all add: path_def b_def c_def)
  have e4: "is_present (hw_mem h (hw_cr3 h) 0)" "entry_address (hw_mem h (hw_cr3 h) 0) = pdpt" "\<not> is_huge (hw_mem h (hw_cr3 h) 0)"
    using pdpt by (simp_all add: tbl_def split: if_splits)
  have e3: "is_present (hw_mem h pdpt b)" "entry_address (hw_mem h pdpt b) = pd" "\<not> is_huge (hw_mem h pdpt b)"
    using pd e4 by (simp_all add: tbl_def b_def split: if_splits)
  have ptrs: "mmu h pml4_table_ptr = Some (hw_cr3 h)" "mmu h (pdpt_table_ptr 0) = Some pdpt" "mmu h (pd_table_ptr 0 b) = Some pd"
    using mmu_ptr [OF rec path_Nil tbl_root] mmu_ptr [OF rec P(1) pdpt] mmu_ptr [OF rec P(2), of pd] pd by (simp_all add: b_def)
  have pt: "mmu h (pt_table_ptr 0 b c) = Some (entry_address e)"
    using rec e4 e3 e(1,2) P(3,4) by (simp add: table_ptrs mmu_def level_indices_address_of recursive_def Let_def c_def)
  show "mmu h v = Some (large_frame 21 e v)"
    using e4 e3 e v by (simp add: mmu_def level_indices_eq Let_def b_def)
  show "translate_hw v h = Some (if is_present word then checked_add (entry_address word) (take_bit 12 v) else None)"
    using ptrs pt e4 e3 e by (simp add: translate_hw_def level_indices_eq v at_table_def word_def flip: b_def c_def)
  show "map_page_hw v phys fl h = Some (Inr (), invlpg v (write_entry (entry_address e) (idx 12 v) (set_page word phys (leaf_flags fl)) h))"
    if "\<not> is_present word"
    using that ptrs pt e4 e3 e
    by (simp add: map_page_hw_def level_indices_eq v at_table_def ensure_table_def hbind_def word_def flip: b_def c_def)
qed

end
