(* ===== verification/Vmm.thy ===== *)
theory Vmm
  imports Paging
begin

text \<open>
  The virtual memory manager: the state and the operations of \<^verbatim>\<open>seed/saios/src/vmm.rs\<close> above the
  page operations of \<open>Paging\<close>.  A state is the record of the module and the machine (memory, tables and page
  allocator); the lock makes each operation one step, and the record created at the first use of the
  \<^verbatim>\<open>STATE\<close> cell is the initial one.  \<open>None\<close> stands for a page fault while a table is read or written.
  The list of recorded mappings is the specification: the page tables are shown to be its image.
\<close>

section \<open>State\<close>

record Mapping =
  virt_start :: u64
  phys_start :: u64
  map_pages :: nat
  map_flags :: u64
  map_owner :: string
  owned_physical :: bool

record VmmState =
  vmm_initialized :: bool
  vmm_cr3 :: u64
  vmm_mappings :: "Mapping list"
  next_kernel_virt :: u64

record VmmStats =
  stat_initialized :: bool
  stat_cr3 :: u64
  stat_mappings :: nat
  stat_mapped_pages :: nat
  stat_next_kernel_virt :: u64

definition vmm_new :: VmmState where
  "vmm_new = \<lparr>vmm_initialized = False, vmm_cr3 = 0, vmm_mappings = [], next_kernel_virt = KERNEL_VIRT_BASE\<rparr>"

type_synonym vmm = "VmmState \<times> paging_hw"
type_synonym 'a vmm_run = "('a res \<times> vmm) option"

section \<open>Ranges\<close>

definition is_page_aligned :: "u64 \<Rightarrow> bool" where
  "is_page_aligned value \<longleftrightarrow> value AND (PAGE_SIZE - 1) = 0"

definition checked_range_end :: "u64 \<Rightarrow> nat \<Rightarrow> u64 option" where
  "checked_range_end start n =
     (if n * 4096 < 2 ^ 64 then checked_add start (of_nat (n * 4096)) else None)"

definition ranges_overlap :: "u64 \<Rightarrow> u64 \<Rightarrow> u64 \<Rightarrow> u64 \<Rightarrow> bool" where
  "ranges_overlap a_start a_end b_start b_end \<longleftrightarrow> a_start < b_end \<and> b_start < a_end"

definition mapping_range :: "Mapping \<Rightarrow> u64 \<times> u64" where
  "mapping_range m =
     (let start = virt_start m;
          e = (case checked_range_end start (map_pages m) of None \<Rightarrow> start | Some e \<Rightarrow> e)
      in (start, e))"

text \<open>The address of a page of a range, as the loops of the source compute it.\<close>

definition page_at :: "u64 \<Rightarrow> nat \<Rightarrow> u64" where
  "page_at start k = saturating_add start (saturating_mul (of_nat k) PAGE_SIZE)"

section \<open>Loops\<close>

fun unmap_all :: "(u64 \<Rightarrow> 'h \<Rightarrow> (unit res \<times> 'h) option) \<Rightarrow> u64 list \<Rightarrow> 'h \<Rightarrow> 'h option" where
  "unmap_all unmap1 [] h = Some h"
| "unmap_all unmap1 (v # vs) h =
     (case unmap1 v h of None \<Rightarrow> None | Some (_, h') \<Rightarrow> unmap_all unmap1 vs h')"

fun map_all ::
  "(u64 \<Rightarrow> u64 \<Rightarrow> 'h \<Rightarrow> (unit res \<times> 'h) option) \<Rightarrow> (u64 \<Rightarrow> 'h \<Rightarrow> (unit res \<times> 'h) option)
   \<Rightarrow> u64 list \<Rightarrow> (u64 \<times> u64) list \<Rightarrow> 'h \<Rightarrow> (unit res \<times> 'h) option" where
  "map_all map1 unmap1 mapped [] h = Some (Inr (), h)"
| "map_all map1 unmap1 mapped ((v, p) # todo) h =
     (case map1 v p h of
        None \<Rightarrow> None
      | Some (Inl e, h') \<Rightarrow> map_option (\<lambda>h''. (Inl e, h'')) (unmap_all unmap1 mapped h')
      | Some (Inr _, h') \<Rightarrow> map_all map1 unmap1 (mapped @ [v]) todo h')"

section \<open>Operations\<close>

definition vmm_init :: "u64 \<Rightarrow> vmm \<Rightarrow> unit res \<times> vmm" where
  "vmm_init kernel_pml4_phys w = (case w of (s, h) \<Rightarrow>
     if \<not> is_page_aligned kernel_pml4_phys
     then (Inl ''vmm: cr3 physical address must be page aligned'', w)
     else if vmm_initialized s then (Inr (), w)
     else (Inr (), s\<lparr>vmm_cr3 := kernel_pml4_phys, vmm_initialized := True,
                      next_kernel_virt := KERNEL_VIRT_BASE\<rparr>, h))"

definition activate_kernel_page_tables :: "u64 \<Rightarrow> paging_hw \<Rightarrow> unit res \<times> paging_hw" where
  "activate_kernel_page_tables kernel_pml4_phys h =
     (if \<not> is_page_aligned kernel_pml4_phys
      then (Inl ''vmm: cr3 physical address must be page aligned'', h)
      else (Inr (), h\<lparr>hw_cr3 := kernel_pml4_phys\<rparr>))"

definition vmm_map :: "u64 \<Rightarrow> u64 \<Rightarrow> nat \<Rightarrow> u64 \<Rightarrow> string \<Rightarrow> vmm \<Rightarrow> unit vmm_run" where
  "vmm_map virt phys n flags owner w = (case w of (s, h) \<Rightarrow>
     if n = 0 then Some (Inl ''vmm: pages must be > 0'', w)
     else if owner = [] then Some (Inl ''vmm: owner must be non-empty'', w)
     else if \<not> is_page_aligned virt \<or> \<not> is_page_aligned phys
     then Some (Inl ''vmm: addresses must be page aligned'', w)
     else case checked_range_end virt n of
       None \<Rightarrow> Some (Inl ''vmm: mapping range overflow'', w)
     | Some new_end \<Rightarrow>
         if \<not> vmm_initialized s then Some (Inl ''vmm: not initialized'', w)
         else if flags AND FLAG_USER = 0 \<and> virt < KERNEL_VIRT_BASE
         then Some (Inl ''vmm: kernel mappings must be in higher-half range'', w)
         else if list_ex (\<lambda>m. case mapping_range m of (start, e) \<Rightarrow> ranges_overlap virt new_end start e)
                   (vmm_mappings s)
         then Some (Inl ''vmm: overlapping virtual mapping'', w)
         else case map_all (\<lambda>v p. map_page_hw v p flags) unmap_page_hw []
                     (map (\<lambda>k. (page_at virt k, page_at phys k)) [0..<n]) h of
           None \<Rightarrow> None
         | Some (Inl e, h') \<Rightarrow> Some (Inl e, s, h')
         | Some (Inr _, h') \<Rightarrow>
             Some (Inr (), s\<lparr>vmm_mappings := vmm_mappings s @
               [\<lparr>virt_start = virt, phys_start = phys, map_pages = n, map_flags = flags,
                 map_owner = owner, owned_physical = False\<rparr>]\<rparr>, h'))"

definition mark_owned :: "u64 \<Rightarrow> u64 \<Rightarrow> nat \<Rightarrow> VmmState \<Rightarrow> VmmState" where
  "mark_owned virt phys n s =
     (if vmm_mappings s \<noteq> [] \<and> virt_start (List.last (vmm_mappings s)) = virt
         \<and> phys_start (List.last (vmm_mappings s)) = phys \<and> map_pages (List.last (vmm_mappings s)) = n
      then s\<lparr>vmm_mappings := butlast (vmm_mappings s) @ [(List.last (vmm_mappings s))\<lparr>owned_physical := True\<rparr>]\<rparr>
      else s)"

definition map_owned :: "u64 \<Rightarrow> u64 \<Rightarrow> nat \<Rightarrow> u64 \<Rightarrow> string \<Rightarrow> vmm \<Rightarrow> unit vmm_run" where
  "map_owned virt phys n flags owner w =
     (case vmm_map virt phys n flags owner w of
        None \<Rightarrow> None
      | Some (Inl e, w') \<Rightarrow> Some (Inl e, w')
      | Some (Inr _, s, h) \<Rightarrow> Some (Inr (), mark_owned virt phys n s, h))"

text \<open>The range of kernel addresses the next mapping takes.\<close>

definition reserve_virt :: "nat \<Rightarrow> VmmState \<Rightarrow> u64 res \<times> VmmState" where
  "reserve_virt n s =
     (if \<not> vmm_initialized s then (Inl ''vmm: not initialized'', s)
      else let start = next_kernel_virt s
           in case checked_range_end start n of
                None \<Rightarrow> (Inl ''vmm: virtual range overflow'', s)
              | Some e \<Rightarrow> (Inr start, s\<lparr>next_kernel_virt := e\<rparr>))"

definition alloc_and_map :: "nat \<Rightarrow> u64 \<Rightarrow> string \<Rightarrow> vmm \<Rightarrow> u64 vmm_run" where
  "alloc_and_map n flags owner w = (case w of (s, h) \<Rightarrow>
     if n = 0 then Some (Inl ''vmm: pages must be > 0'', w)
     else case alloc_pages n (hw_pmm h) of
       (None, p) \<Rightarrow> Some (Inl ''vmm: physical allocation failed'', s, h\<lparr>hw_pmm := p\<rparr>)
     | (Some phys, p) \<Rightarrow>
         (case reserve_virt n s of
            (Inl e, s') \<Rightarrow> Some (Inl e, s', h\<lparr>hw_pmm := p\<rparr>)
          | (Inr virt, s') \<Rightarrow>
              (case map_owned virt phys n flags owner (s', h\<lparr>hw_pmm := p\<rparr>) of
                 None \<Rightarrow> None
               | Some (Inl e, s'', h') \<Rightarrow>
                   Some (Inl e, s'', h'\<lparr>hw_pmm := snd (free_pages_range phys n (hw_pmm h'))\<rparr>)
               | Some (Inr _, w') \<Rightarrow> Some (Inr virt, w'))))"

definition map_physical_anywhere :: "u64 \<Rightarrow> nat \<Rightarrow> u64 \<Rightarrow> string \<Rightarrow> vmm \<Rightarrow> u64 vmm_run" where
  "map_physical_anywhere phys n flags owner w = (case w of (s, h) \<Rightarrow>
     if n = 0 then Some (Inl ''vmm: pages must be > 0'', w)
     else if \<not> is_page_aligned phys then Some (Inl ''vmm: physical address must be page aligned'', w)
     else case reserve_virt n s of
       (Inl e, s') \<Rightarrow> Some (Inl e, s', h)
     | (Inr virt, s') \<Rightarrow>
         (case vmm_map virt phys n flags owner (s', h) of
            None \<Rightarrow> None
          | Some (Inl e, s'', h') \<Rightarrow>
              Some (Inl e, (if next_kernel_virt s'' \<ge> page_at virt n then s''\<lparr>next_kernel_virt := virt\<rparr> else s''), h')
          | Some (Inr _, w') \<Rightarrow> Some (Inr virt, w')))"

definition vmm_unmap :: "u64 \<Rightarrow> vmm \<Rightarrow> unit vmm_run" where
  "vmm_unmap virt w = (case w of (s, h) \<Rightarrow>
     if \<not> is_page_aligned virt then Some (Inl ''vmm: virtual address must be page aligned'', w)
     else if \<not> vmm_initialized s then Some (Inl ''vmm: not initialized'', w)
     else case find_position (\<lambda>m. virt_start m = virt) (vmm_mappings s) of
       None \<Rightarrow> Some (Inl ''vmm: mapping not found'', w)
     | Some i \<Rightarrow>
         let m = vmm_mappings s ! i;
             s' = s\<lparr>vmm_mappings := remove_nth i (vmm_mappings s)\<rparr>
         in case unmap_all unmap_page_hw (map (page_at (virt_start m)) [0..<map_pages m]) h of
              None \<Rightarrow> None
            | Some h' \<Rightarrow> Some (Inr (), s',
                if owned_physical m
                then h'\<lparr>hw_pmm := snd (free_pages_range (phys_start m) (map_pages m) (hw_pmm h'))\<rparr>
                else h'))"

definition vmm_translate :: "u64 \<Rightarrow> vmm \<Rightarrow> u64 option option" where
  "vmm_translate virt w = (case w of (s, h) \<Rightarrow>
     if vmm_initialized s then translate_hw virt h else Some None)"

definition vmm_stats :: "VmmState \<Rightarrow> VmmStats" where
  "vmm_stats s =
     \<lparr>stat_initialized = vmm_initialized s, stat_cr3 = vmm_cr3 s, stat_mappings = length (vmm_mappings s),
      stat_mapped_pages = fold (\<lambda>m acc. min (2 ^ 64 - 1) (acc + map_pages m)) (vmm_mappings s) 0,
      stat_next_kernel_virt = next_kernel_virt s\<rparr>"

definition check :: "bool \<Rightarrow> string \<Rightarrow> string \<Rightarrow> string \<Rightarrow> string \<times> bool \<times> string" where
  "check passed name pass_detail fail_detail = (name, passed, if passed then pass_detail else fail_detail)"

definition vmm_verify :: "VmmState \<Rightarrow> (string \<times> bool \<times> string) list" where
  "vmm_verify s = (let st = vmm_stats s in
     [check (stat_initialized st) ''VMM initialized'' ''vmm state initialized'' ''vmm not initialized'',
      check (stat_cr3 st \<noteq> 0) ''Kernel CR3'' ''kernel page table root recorded'' ''kernel page table root missing'',
      check (stat_next_kernel_virt st \<ge> KERNEL_VIRT_BASE) ''Kernel VA cursor''
        ''next kernel VA in high-half range'' ''next kernel VA below high-half base'',
      check (stat_mapped_pages st \<ge> stat_mappings st) ''Mapping accounting''
        ''mapped pages >= mapping count'' ''mapped pages < mapping count''])"

section \<open>The interface of the page tables\<close>

text \<open>What the manager relies on: mapping and unmapping one page return, change the translation of that page
  only, and an error leaves every translation as it was.\<close>

locale page_mapper =
  fixes map1 :: "u64 \<Rightarrow> u64 \<Rightarrow> 'h \<Rightarrow> (unit res \<times> 'h) option"
    and unmap1 :: "u64 \<Rightarrow> 'h \<Rightarrow> (unit res \<times> 'h) option"
    and trans :: "'h \<Rightarrow> 'k \<Rightarrow> 'e option"
    and key_of :: "u64 \<Rightarrow> 'k"
    and entry_of :: "u64 \<Rightarrow> 'e"
    and valid :: "'k \<Rightarrow> bool"
    and evolves :: "'h \<Rightarrow> 'h \<Rightarrow> bool"
  assumes evolves_trans: "evolves h h1 \<Longrightarrow> evolves h1 h2 \<Longrightarrow> evolves h h2"
    and evolves_refl: "evolves h0 h \<Longrightarrow> evolves h h"
    and map1: "evolves h h \<Longrightarrow> valid (key_of v) \<Longrightarrow>
      \<exists>r h'. map1 v p h = Some (r, h') \<and> evolves h h' \<and> (case r of
         Inr _ \<Rightarrow> trans h (key_of v) = None \<and> trans h' = (trans h)(key_of v \<mapsto> entry_of p)
       | Inl _ \<Rightarrow> trans h' = trans h)"
    and unmap1: "evolves h h \<Longrightarrow> valid (key_of v) \<Longrightarrow>
      \<exists>r h'. unmap1 v h = Some (r, h') \<and> evolves h h' \<and> trans h' = (trans h)(key_of v := None)"
begin

lemma unmap_all_trans:
  assumes "evolves h h" "\<forall>v\<in>set vs. valid (key_of v)"
  shows "\<exists>h'. unmap_all unmap1 vs h = Some h' \<and> evolves h h' \<and> trans h' = trans h |` (- key_of ` set vs)"
  using assms
proof (induction vs arbitrary: h)
  case Nil
  then show ?case by (auto simp: restrict_map_def)
next
  case (Cons v vs)
  obtain r h1 where 1: "unmap1 v h = Some (r, h1)" "evolves h h1" "trans h1 = (trans h)(key_of v := None)"
    using unmap1 [OF Cons.prems(1), of v] Cons.prems(2) by auto
  obtain h2 where 2: "unmap_all unmap1 vs h1 = Some h2" "evolves h1 h2" "trans h2 = trans h1 |` (- key_of ` set vs)"
    using Cons.IH [OF evolves_refl [OF 1(2)]] Cons.prems(2) by auto
  have "trans h2 = trans h |` (- key_of ` set (v # vs))"
    unfolding 2(3) 1(3) by (auto simp: restrict_map_def fun_eq_iff)
  then show ?case using 1(1) 2(1) evolves_trans [OF 1(2) 2(2)] by auto
qed

text \<open>The whole range is mapped, or no translation has changed.\<close>

lemma map_all_trans:
  assumes "evolves h h" "\<forall>v\<in>set mapped. valid (key_of v)" "\<forall>(v, p)\<in>set todo. valid (key_of v)"
  shows "\<exists>r h'. map_all map1 unmap1 mapped todo h = Some (r, h') \<and> evolves h h' \<and> (case r of
       Inr _ \<Rightarrow> distinct (map (key_of \<circ> fst) todo) \<and> (\<forall>(v, p)\<in>set todo. trans h (key_of v) = None)
         \<and> trans h' = trans h ++ map_of (map (\<lambda>(v, p). (key_of v, entry_of p)) todo)
     | Inl _ \<Rightarrow> trans h' = trans h |` (- key_of ` set mapped))"
  using assms
proof (induction todo arbitrary: mapped h)
  case Nil
  then show ?case by simp
next
  case (Cons vp todo)
  obtain v p where vp: "vp = (v, p)" by fastforce
  obtain r1 h1 where 1: "map1 v p h = Some (r1, h1)" "evolves h h1"
    "case r1 of Inr _ \<Rightarrow> trans h (key_of v) = None \<and> trans h1 = (trans h)(key_of v \<mapsto> entry_of p) | Inl _ \<Rightarrow> trans h1 = trans h"
    using map1 [OF Cons.prems(1), of v p] Cons.prems(3) vp by auto
  note ok1 = evolves_refl [OF 1(2)]
  show ?case
  proof (cases r1)
    case (Inl e)
    obtain h2 where 2: "unmap_all unmap1 mapped h1 = Some h2" "evolves h1 h2" "trans h2 = trans h1 |` (- key_of ` set mapped)"
      using unmap_all_trans [OF ok1 Cons.prems(2)] by auto
    then show ?thesis using 1 Inl vp evolves_trans [OF 1(2) 2(2)] by simp
  next
    case (Inr u)
    have k: "trans h (key_of v) = None" "trans h1 = (trans h)(key_of v \<mapsto> entry_of p)" using 1(3) Inr by simp_all
    obtain r h2 where 2: "map_all map1 unmap1 (mapped @ [v]) todo h1 = Some (r, h2)" "evolves h1 h2" "case r of
       Inr _ \<Rightarrow> distinct (map (key_of \<circ> fst) todo) \<and> (\<forall>(v, p)\<in>set todo. trans h1 (key_of v) = None)
         \<and> trans h2 = trans h1 ++ map_of (map (\<lambda>(v, p). (key_of v, entry_of p)) todo)
     | Inl _ \<Rightarrow> trans h2 = trans h1 |` (- key_of ` set (mapped @ [v]))"
      using Cons.IH [OF ok1, of "mapped @ [v]"] Cons.prems(2,3) vp by auto
    have run: "map_all map1 unmap1 mapped (vp # todo) h = Some (r, h2)" using 1(1) Inr 2(1) vp by simp
    show ?thesis
    proof (cases r)
      case (Inl e)
      then have "trans h2 = trans h |` (- key_of ` set mapped)"
        using 2(3) k by (auto simp: restrict_map_def fun_eq_iff)
      then show ?thesis using run evolves_trans [OF 1(2) 2(2)] Inl by simp
    next
      case (Inr u')
      then have T: "distinct (map (key_of \<circ> fst) todo)" "\<forall>(v, p)\<in>set todo. trans h1 (key_of v) = None"
        "trans h2 = trans h1 ++ map_of (map (\<lambda>(v, p). (key_of v, entry_of p)) todo)" using 2(3) by simp_all
      have new: "key_of v \<notin> key_of ` fst ` set todo" using T(2) k(2) by auto
      have free: "\<forall>(v, p)\<in>set todo. trans h (key_of v) = None"
        using T(2) k(2) by (auto split: if_splits)
      have "map_of (map (\<lambda>(v, p). (key_of v, entry_of p)) todo) (key_of v) = None"
        using new by (force simp: map_of_eq_None_iff image_iff)
      then have "trans h2 = trans h ++ map_of (map (\<lambda>(v, p). (key_of v, entry_of p)) (vp # todo))"
        unfolding T(3) k(2) vp by (auto simp: map_add_def fun_eq_iff split: option.split)
      then show ?thesis using run evolves_trans [OF 1(2) 2(2)] Inr T(1) new free k(1) vp by (simp add: image_image)
    qed
  qed
qed

end

text \<open>Reflexivity of the relation is the invariant of the tables.\<close>

definition pt_evolves :: "paging_hw \<Rightarrow> paging_hw \<Rightarrow> bool" where
  "pt_evolves h h' \<longleftrightarrow> pt_inv h \<and> keeps h h'"

interpretation ptm: page_mapper "\<lambda>v p. map_page_hw v p flags" unmap_page_hw pages key
  "\<lambda>p. set_page 0 p (leaf_flags flags)" managed pt_evolves for flags
proof
  fix h h1 h2 assume "pt_evolves h h1" "pt_evolves h1 h2"
  then show "pt_evolves h h2" by (auto simp: pt_evolves_def intro: keeps_trans)
next
  fix h0 h assume "pt_evolves h0 h"
  then show "pt_evolves h h" by (auto simp: pt_evolves_def keeps_refl keeps_inv)
next
  fix h v p assume "pt_evolves h h" "managed (key v)"
  then have "pt_inv h" by (simp add: pt_evolves_def)
  from map_page_hw_spec [OF this \<open>managed (key v)\<close>, of p flags] this
  show "\<exists>r h'. map_page_hw v p flags h = Some (r, h') \<and> pt_evolves h h' \<and> (case r of
      Inl _ \<Rightarrow> pages h' = pages h
    | Inr _ \<Rightarrow> pages h (key v) = None \<and> pages h' = (pages h)(key v \<mapsto> set_page 0 p (leaf_flags flags)))"
    by (fastforce simp: pt_evolves_def split: sum.splits)
next
  fix h v assume "pt_evolves h h" "managed (key v)"
  then show "\<exists>r h'. unmap_page_hw v h = Some (r, h') \<and> pt_evolves h h' \<and> pages h' = (pages h)(key v := None)"
    using unmap_page_hw_spec [of h v] by (auto simp: pt_evolves_def)
qed

section \<open>Page addresses\<close>

lemma unat_page_at:
  assumes "unat v + k * 4096 < 2 ^ 64"
  shows "unat (page_at v k) = unat v + k * 4096"
proof -
  have "unat (of_nat k :: u64) = k" using assms by (simp add: unat_of_nat)
  then show ?thesis using assms by (simp add: page_at_def unat_ops PAGE_SIZE_mask)
qed

lemma checked_range_end_Some:
  "checked_range_end v n = Some e \<longleftrightarrow> unat v + n * 4096 < 2 ^ 64 \<and> unat e = unat v + n * 4096"
proof (cases "n * 4096 < 2 ^ 64")
  case True
  then have "unat (of_nat (n * 4096) :: u64) = n * 4096" by (intro unat_of_nat_small) simp
  note n = this
  have "checked_range_end v n = Some e \<longleftrightarrow> e = v + of_nat (n * 4096) \<and> unat e = unat v + n * 4096"
    unfolding checked_range_end_def checked_add_eq_Some [symmetric] using True n checked_add_eq_Some [of v "of_nat (n * 4096)" e]
    by (simp only: if_True)
  moreover have "unat e < 2 ^ 64" using unsigned_less [of e, where ?'a = nat] by simp
  moreover have "e = v + of_nat (n * 4096)" if "unat v + n * 4096 < 2 ^ 64" "unat e = unat v + n * 4096"
    using n unat_add_lem [of v "of_nat (n * 4096)"] that by (simp only: word_unat_eq_iff) simp
  ultimately show ?thesis by metis
qed (simp add: checked_range_end_def)

lemma is_page_aligned_unat: "is_page_aligned v \<longleftrightarrow> unat v mod 4096 = 0"
  by (simp add: is_page_aligned_def page_offset_zero)

lemma idx_unat: "idx k v = (unat v div 2 ^ k) mod 512"
proof -
  have "idx k v = take_bit 9 (drop_bit k (unat v))" by (simp only: idx_def unsigned_take_bit_eq unat_drop_bit_eq)
  then show ?thesis by (simp add: take_bit_eq_mod drop_bit_eq_div)
qed

text \<open>The window of kernel addresses below the recursive slot.\<close>

definition window :: "u64 \<Rightarrow> nat \<Rightarrow> bool" where
  "window v n \<longleftrightarrow> KERNEL_VIRT_BASE \<le> v \<and> unat v + n * 4096 \<le> 0xFFFFFF8000000000"

lemma window_managed:
  assumes "window v n" "k < n"
  shows "managed (key (page_at v k))"
proof -
  have v: "0xFFFF800000000000 \<le> unat v" "unat v + n * 4096 \<le> 0xFFFFFF8000000000"
    using assms(1) by (simp_all add: window_def word_le_nat_alt)
  then have u: "unat (page_at v k) = unat v + k * 4096" using assms(2) by (intro unat_page_at) simp
  have "unat (page_at v k) div 2 ^ 39 < 0x1FFFFFF" "0x1FFFF00 \<le> unat (page_at v k) div 2 ^ 39"
    unfolding u using v assms(2) by (simp_all add: div_less_iff_less_mult less_eq_div_iff_mult_less_eq)
  moreover have "q mod 512 \<noteq> 0 \<and> q mod 512 \<noteq> 511" if "q < 0x1FFFFFF" "0x1FFFF00 \<le> q" for q :: nat
  proof -
    define d where "d = q - 0x1FFFF00"
    have "q = 256 + d + 512 * 65535" "d < 255" using that by (simp_all add: d_def)
    then have "q mod 512 = 256 + d" by (simp only: mod_mult_self2) simp
    with \<open>d < 255\<close> show ?thesis by simp
  qed
  ultimately have "idx 39 (page_at v k) \<noteq> 0" "idx 39 (page_at v k) \<noteq> 511" unfolding idx_unat by blast+
  then show ?thesis by (simp add: managed_def key_def path_def)
qed

section \<open>The invariant\<close>

definition mapping_entries :: "Mapping \<Rightarrow> ((nat list \<times> nat) \<times> u64) list" where
  "mapping_entries m = map (\<lambda>k. (key (page_at (virt_start m) k),
     set_page 0 (page_at (phys_start m) k) (leaf_flags (map_flags m)))) [0..<map_pages m]"

definition all_entries :: "VmmState \<Rightarrow> ((nat list \<times> nat) \<times> u64) list" where
  "all_entries s = concat (map mapping_entries (vmm_mappings s))"

definition owned_frames :: "VmmState \<Rightarrow> nat list" where
  "owned_frames s = concat (map (\<lambda>m. if owned_physical m
     then [page_no (phys_start m)..<page_no (phys_start m) + map_pages m] else []) (vmm_mappings s))"

definition mappable :: "u64 \<Rightarrow> u64 \<Rightarrow> nat \<Rightarrow> bool" where
  "mappable virt phys n \<longleftrightarrow> (\<forall>k<n. managed (key (page_at virt k))) \<and> unat phys + n * 4096 \<le> 2 ^ 52"

text \<open>The leaf entries outside slot 0 and the recursive slot are those of the recorded mappings, each page once;
  the pages the manager owns are neither free nor page tables.\<close>

definition vmm_inv :: "vmm \<Rightarrow> bool" where
  "vmm_inv w \<longleftrightarrow> (case w of (s, h) \<Rightarrow> vmm_initialized s \<and> pt_inv h
     \<and> distinct (map fst (all_entries s)) \<and> pages h = map_of (all_entries s)
     \<and> (\<forall>m\<in>set (vmm_mappings s). 0 < map_pages m \<and> unat (phys_start m) mod 4096 = 0 \<and> unat (virt_start m) mod 4096 = 0
          \<and> unat (virt_start m) + map_pages m * 4096 < 2 ^ 64 \<and> mappable (virt_start m) (phys_start m) (map_pages m))
     \<and> distinct (owned_frames s)
     \<and> (\<forall>f\<in>set (owned_frames s). 0 < f \<and> f < tracked_pages (hw_pmm h) \<and> f \<notin> free_set (hw_pmm h) \<and> f \<notin> table_pages h))"

lemma vmm_inv_keeps:
  assumes "vmm_inv (s, h)" "keeps h h'" "pages h' = pages h"
  shows "vmm_inv (s, h')"
  using assms by (fastforce simp: vmm_inv_def keeps_def)

lemma vmm_inv_frame [simp]: "vmm_inv (s\<lparr>next_kernel_virt := x\<rparr>, h) = vmm_inv (s, h)"
  by (simp add: vmm_inv_def all_entries_def owned_frames_def)

text \<open>A change of the page allocator by the rest of the kernel or by the manager itself.\<close>

lemma pages_pmm [simp]: "pages (h\<lparr>hw_pmm := p\<rparr>) = pages h" "tbl (h\<lparr>hw_pmm := p\<rparr>) = tbl h"
  "table_pages (h\<lparr>hw_pmm := p\<rparr>) = table_pages h"
proof -
  show t: "tbl (h\<lparr>hw_pmm := p\<rparr>) = tbl h" by (simp add: tbl_def)
  show "pages (h\<lparr>hw_pmm := p\<rparr>) = pages h" by (rule ext) (simp add: pages_def t split: option.split)
  show "table_pages (h\<lparr>hw_pmm := p\<rparr>) = table_pages h" by (simp add: table_pages_def t)
qed

lemma pt_inv_pmm:
  assumes "pt_inv h" "pmm_inv p" "free_set p \<inter> table_pages h = {}"
  shows "pt_inv (h\<lparr>hw_pmm := p\<rparr>)"
proof -
  have "page_no f \<notin> free_set p" if "path q" "tbl h q = Some f" for q f
    using assms(3) that by (auto simp: table_pages_def)
  then show ?thesis using assms(1,2) by (simp add: pt_inv_def recursive_def)
qed

lemma vmm_inv_pmm:
  assumes "vmm_inv (s, h)" "pmm_inv p" "free_set p \<inter> (table_pages h \<union> set (owned_frames s)) = {}"
    "tracked_pages p = tracked_pages (hw_pmm h)"
  shows "vmm_inv (s, h\<lparr>hw_pmm := p\<rparr>)"
proof -
  have "pt_inv (h\<lparr>hw_pmm := p\<rparr>)" using assms by (intro pt_inv_pmm) (auto simp: vmm_inv_def)
  then show ?thesis using assms by (auto simp: vmm_inv_def)
qed

lemma table_pages_used: "pt_inv h \<Longrightarrow> table_pages h \<inter> free_set (hw_pmm h) = {}"
  using pt_inv_frame [of h] by (auto simp: table_pages_def)

section \<open>Mapping\<close>

abbreviation new_mapping :: "u64 \<Rightarrow> u64 \<Rightarrow> nat \<Rightarrow> u64 \<Rightarrow> string \<Rightarrow> Mapping" where
  "new_mapping virt phys n flags owner \<equiv> \<lparr>virt_start = virt, phys_start = phys, map_pages = n, map_flags = flags,
     map_owner = owner, owned_physical = False\<rparr>"

text \<open>The checks before the loop return an error and change nothing.\<close>

lemma vmm_map_cases:
  assumes "vmm_initialized s"
  obtains (rejected) e where "vmm_map virt phys n flags owner (s, h) = Some (Inl e, s, h)"
  | (accepted) "n \<noteq> 0" "is_page_aligned virt" "is_page_aligned phys" "unat virt + n * 4096 < 2 ^ 64"
      "vmm_map virt phys n flags owner (s, h) =
        (case map_all (\<lambda>v p. map_page_hw v p flags) unmap_page_hw []
            (map (\<lambda>k. (page_at virt k, page_at phys k)) [0..<n]) h of
           None \<Rightarrow> None
         | Some (Inl e, h') \<Rightarrow> Some (Inl e, s, h')
         | Some (Inr _, h') \<Rightarrow>
             Some (Inr (), s\<lparr>vmm_mappings := vmm_mappings s @ [new_mapping virt phys n flags owner]\<rparr>, h'))"
      "flags AND FLAG_USER = 0 \<Longrightarrow> KERNEL_VIRT_BASE \<le> virt"
proof -
  consider "n = 0" | "n \<noteq> 0" "owner = []" | "n \<noteq> 0" "owner \<noteq> []" "\<not> is_page_aligned virt \<or> \<not> is_page_aligned phys"
    | "n \<noteq> 0" "owner \<noteq> []" "is_page_aligned virt" "is_page_aligned phys" by blast
  then show thesis
  proof cases
    case 4
    note c = 4
    show ?thesis
    proof (cases "checked_range_end virt n")
      case None
      then show ?thesis using c rejected by (simp add: vmm_map_def)
    next
      case (Some e)
      define low where "low \<longleftrightarrow> flags AND FLAG_USER = 0 \<and> virt < KERNEL_VIRT_BASE"
      define clash where "clash \<longleftrightarrow>
        list_ex (\<lambda>m. case mapping_range m of (start, b) \<Rightarrow> ranges_overlap virt e start b) (vmm_mappings s)"
      have run: "vmm_map virt phys n flags owner (s, h) =
        (if low then Some (Inl ''vmm: kernel mappings must be in higher-half range'', s, h)
         else if clash then Some (Inl ''vmm: overlapping virtual mapping'', s, h)
         else (case map_all (\<lambda>v p. map_page_hw v p flags) unmap_page_hw []
            (map (\<lambda>k. (page_at virt k, page_at phys k)) [0..<n]) h of
           None \<Rightarrow> None
         | Some (Inl e, h') \<Rightarrow> Some (Inl e, s, h')
         | Some (Inr _, h') \<Rightarrow>
             Some (Inr (), s\<lparr>vmm_mappings := vmm_mappings s @ [new_mapping virt phys n flags owner]\<rparr>, h')))"
        using c Some assms unfolding vmm_map_def low_def clash_def by simp
      show ?thesis
      proof (cases "low \<or> clash")
        case True
        then show ?thesis using run rejected by (auto split: if_splits)
      next
        case False
        have "unat virt + n * 4096 < 2 ^ 64" using Some by (simp only: checked_range_end_Some)
        moreover have "KERNEL_VIRT_BASE \<le> virt" if "flags AND FLAG_USER = 0" using False that by (auto simp: low_def not_less)
        ultimately show ?thesis using c False by (intro accepted) (simp_all add: run)
      qed
    qed
  qed (use rejected in \<open>simp_all add: vmm_map_def\<close>)
qed

lemma vmm_invD:
  assumes "vmm_inv (s, h)"
  shows "vmm_initialized s" "pt_inv h" "distinct (map fst (all_entries s))" "pages h = map_of (all_entries s)"
    "distinct (owned_frames s)"
    "m \<in> set (vmm_mappings s) \<Longrightarrow> 0 < map_pages m \<and> unat (phys_start m) mod 4096 = 0 \<and> unat (virt_start m) mod 4096 = 0
       \<and> unat (virt_start m) + map_pages m * 4096 < 2 ^ 64 \<and> mappable (virt_start m) (phys_start m) (map_pages m)"
    "f \<in> set (owned_frames s) \<Longrightarrow> 0 < f \<and> f < tracked_pages (hw_pmm h) \<and> f \<notin> free_set (hw_pmm h) \<and> f \<notin> table_pages h"
  using assms unfolding vmm_inv_def prod.case by blast+

lemma vmm_map_spec:
  assumes I: "vmm_inv (s, h)" and M: "mappable virt phys n"
  shows "\<exists>r s' h'. vmm_map virt phys n flags owner (s, h) = Some (r, s', h') \<and> keeps h h' \<and> vmm_inv (s', h')
    \<and> (case r of
         Inl _ \<Rightarrow> s' = s \<and> pages h' = pages h
       | Inr _ \<Rightarrow> s' = s\<lparr>vmm_mappings := vmm_mappings s @ [new_mapping virt phys n flags owner]\<rparr>
           \<and> is_page_aligned phys \<and> is_page_aligned virt)"
proof (rule vmm_map_cases [OF vmm_invD(1) [OF I], of virt phys n flags owner h], goal_cases)
  case (1 e)
  then show ?thesis using I keeps_refl [OF vmm_invD(2) [OF I]] by simp
next
  case 2
  note accepted = this
  define todo where "todo = map (\<lambda>k. (page_at virt k, page_at phys k)) [0..<n]"
  define m where "m = new_mapping virt phys n flags owner"
  define s' where "s' = s\<lparr>vmm_mappings := vmm_mappings s @ [m]\<rparr>"
  have "\<forall>(v, p)\<in>set todo. managed (key v)" using M by (auto simp: todo_def mappable_def)
  moreover have "pt_evolves h h" using vmm_invD(2) [OF I] keeps_refl by (simp add: pt_evolves_def)
  ultimately obtain r h' where A: "map_all (\<lambda>v p. map_page_hw v p flags) unmap_page_hw [] todo h = Some (r, h')" "pt_evolves h h'"
    "case r of Inr _ \<Rightarrow> distinct (map (key \<circ> fst) todo) \<and> (\<forall>(v, p)\<in>set todo. pages h (key v) = None)
         \<and> pages h' = pages h ++ map_of (map (\<lambda>(v, p). (key v, set_page 0 p (leaf_flags flags))) todo)
     | Inl _ \<Rightarrow> pages h' = pages h |` (- key ` set [])"
    using ptm.map_all_trans [of h "[]" todo flags] by auto
  have K: "keeps h h'" using A(2) by (simp add: pt_evolves_def)
  have entries: "map (\<lambda>(v, p). (key v, set_page 0 p (leaf_flags flags))) todo = mapping_entries m"
    by (simp add: todo_def m_def mapping_entries_def)
  have keys: "map (key \<circ> fst) todo = map fst (mapping_entries m)"
    by (simp add: todo_def m_def mapping_entries_def)
  have run: "vmm_map virt phys n flags owner (s, h) = (case r of Inl e \<Rightarrow> Some (Inl e, s, h') | Inr _ \<Rightarrow> Some (Inr (), s', h'))"
    unfolding accepted(5) todo_def [symmetric] m_def [symmetric] s'_def [symmetric] A(1) by simp
  show ?thesis
  proof (cases r)
    case (Inl e)
    then have "pages h' = pages h" using A(3) by (simp add: restrict_map_def fun_eq_iff)
    then show ?thesis using run Inl K vmm_inv_keeps [OF I K] by simp
  next
    case (Inr u)
    have B: "distinct (map fst (mapping_entries m))" "\<forall>(v, p)\<in>set todo. pages h (key v) = None"
      "pages h' = pages h ++ map_of (mapping_entries m)"
      using A(3) Inr unfolding entries keys by simp_all
    have none: "pages h k = None" if "k \<in> fst ` set (mapping_entries m)" for k
      using B(2) that unfolding entries [symmetric] by auto
    have all: "all_entries s' = all_entries s @ mapping_entries m" by (simp add: all_entries_def s'_def)
    note ph = vmm_invD(4) [OF I]
    have disj: "fst ` set (all_entries s) \<inter> fst ` set (mapping_entries m) = {}"
      using none unfolding ph map_of_eq_None_iff by blast
    have 1: "pages h' = map_of (all_entries s')"
      unfolding B(3) ph all map_of_append using disj by (intro map_add_comm) (simp add: dom_map_of_conv_image_fst)
    have 2: "distinct (map fst (all_entries s'))" using vmm_invD(3) [OF I] B(1) disj by (simp add: all)
    have 3: "owned_frames s' = owned_frames s" by (simp add: owned_frames_def s'_def m_def)
    have I': "f \<notin> free_set (hw_pmm h')" "f \<notin> table_pages h'" "0 < f" "f < tracked_pages (hw_pmm h')" if "f \<in> set (owned_frames s)" for f
      using vmm_invD(7) [OF I that] K by (auto simp: keeps_def)
    have "vmm_inv (s', h')"
      unfolding vmm_inv_def prod.case
    proof (intro conjI ballI)
      fix x assume "x \<in> set (vmm_mappings s')"
      then have "x = m \<or> x \<in> set (vmm_mappings s)" by (auto simp: s'_def)
      then show "0 < map_pages x" "unat (phys_start x) mod 4096 = 0" "unat (virt_start x) mod 4096 = 0"
        "unat (virt_start x) + map_pages x * 4096 < 2 ^ 64" "mappable (virt_start x) (phys_start x) (map_pages x)"
        using accepted(1-4) M vmm_invD(6) [OF I, of x] by (auto simp: m_def is_page_aligned_unat)
    qed (use 1 2 3 I' vmm_invD [OF I] keeps_inv [OF K] in \<open>simp_all add: s'_def\<close>)
    then show ?thesis using run Inr K accepted by (simp add: s'_def m_def)
  qed
qed

text \<open>The requests covered: outside the recursive slot, at physical addresses of at most 52 bits and, for user mappings, outside
  slot 0.  Kernel mappings in slot 0 are refused by the code.\<close>

definition map_request :: "u64 \<Rightarrow> u64 \<Rightarrow> nat \<Rightarrow> u64 \<Rightarrow> bool" where
  "map_request virt phys n flags \<longleftrightarrow> (\<forall>k<n. idx 39 (page_at virt k) \<noteq> 511) \<and> unat phys + n * 4096 \<le> 2 ^ 52
     \<and> (flags AND FLAG_USER \<noteq> 0 \<longrightarrow> (\<forall>k<n. idx 39 (page_at virt k) \<noteq> 0))"

lemma kernel_slot:
  assumes "KERNEL_VIRT_BASE \<le> virt"
  shows "idx 39 (page_at virt k) \<noteq> 0"
proof -
  have "unat virt \<le> unat (page_at virt k)" using unsigned_less [of virt, where ?'a = nat] by (simp add: page_at_def unat_saturating_add)
  moreover have "0xFFFF800000000000 \<le> unat virt" using assms by (simp add: word_le_nat_alt)
  ultimately have u: "0xFFFF800000000000 \<le> unat (page_at virt k)" by simp
  define d where "d = unat (page_at virt k) div 2 ^ 39 - 0x1FFFF00"
  have "unat (page_at virt k) div 2 ^ 39 < 0x2000000" using unsigned_less [of "page_at virt k", where ?'a = nat] by (simp add: div_less_iff_less_mult)
  moreover have "0x1FFFF00 \<le> unat (page_at virt k) div 2 ^ 39" using u by (simp add: less_eq_div_iff_mult_less_eq)
  ultimately have "unat (page_at virt k) div 2 ^ 39 = 256 + d + 512 * 65535" "d < 256" by (simp_all add: d_def)
  then have "unat (page_at virt k) div 2 ^ 39 mod 512 = 256 + d" by (simp only: mod_mult_self2) simp
  then show ?thesis by (simp add: idx_unat)
qed

lemma vmm_map_request:
  assumes I: "vmm_inv (s, h)" and M: "map_request virt phys n flags"
  shows "\<exists>r s' h'. vmm_map virt phys n flags owner (s, h) = Some (r, s', h') \<and> keeps h h' \<and> vmm_inv (s', h')
    \<and> (case r of
         Inl _ \<Rightarrow> s' = s \<and> pages h' = pages h
       | Inr _ \<Rightarrow> s' = s\<lparr>vmm_mappings := vmm_mappings s @ [new_mapping virt phys n flags owner]\<rparr>
           \<and> is_page_aligned phys \<and> is_page_aligned virt)"
proof (rule vmm_map_cases [OF vmm_invD(1) [OF I], of virt phys n flags owner h], goal_cases)
  case (1 e)
  then show ?thesis using I keeps_refl [OF vmm_invD(2) [OF I]] by simp
next
  case 2
  have "managed (key (page_at virt k))" if "k < n" for k
    using M kernel_slot [OF 2(6), of k] that by (auto simp: map_request_def managed_def key_def path_def)
  then have "mappable virt phys n" using M by (simp add: mappable_def map_request_def)
  then show ?thesis by (rule vmm_map_spec [OF I])
qed

lemma mappable_request: "mappable virt phys n \<Longrightarrow> map_request virt phys n flags"
  using managed_key(4,5) by (auto simp: mappable_def map_request_def)

section \<open>Unmapping\<close>

lemma same_low_trans: "same_low h h1 \<Longrightarrow> same_low h1 h2 \<Longrightarrow> same_low h h2"
  unfolding same_low_def by (auto 0 3)

lemma same_low_pmm [simp]: "same_low h (h'\<lparr>hw_pmm := p\<rparr>) = same_low h h'" "same_low (h\<lparr>hw_pmm := p\<rparr>) h' = same_low h h'"
  by (simp_all add: same_low_def)

lemma keeps_same_low: "keeps h h' \<Longrightarrow> same_low h h'"
  by (simp add: keeps_def)

lemma distinct_middle: "distinct (xs @ ys @ zs) \<Longrightarrow> distinct (xs @ zs)"
  by auto

lemma distinct_middle_notin: "distinct (xs @ ys @ zs) \<Longrightarrow> y \<in> set ys \<Longrightarrow> y \<notin> set (xs @ zs)"
  by auto

lemma map_of_remove_middle:
  assumes "distinct (map fst (xs @ ys @ zs))"
  shows "map_of (xs @ ys @ zs) |` (- fst ` set ys) = map_of (xs @ zs)"
proof
  fix k
  show "(map_of (xs @ ys @ zs) |` (- fst ` set ys)) k = map_of (xs @ zs) k"
  proof (cases "k \<in> fst ` set ys")
    case True
    then have "map_of (xs @ zs) k = None" using assms by (auto simp: map_of_eq_None_iff)
    moreover have "(map_of (xs @ ys @ zs) |` (- fst ` set ys)) k = None" using True by simp
    ultimately show ?thesis by (simp only:)
  next
    case False
    then have "map_of ys k = None" by (simp add: map_of_eq_None_iff)
    then show ?thesis using False by (simp add: map_add_def split: option.split)
  qed
qed

text \<open>Returning the pages of an owned range to the page allocator.\<close>

lemma free_range_spec:
  assumes "pmm_inv p" "0 < n" "unat a mod 4096 = 0" "\<And>f. f \<in> {page_no a..<page_no a + n} \<Longrightarrow> 0 < f \<and> f < tracked_pages p \<and> f \<notin> free_set p"
  shows "\<exists>q. free_pages_range a n p = (True, q) \<and> pmm_inv q \<and> tracked_pages q = tracked_pages p
    \<and> free_set q = {page_no a..<page_no a + n} \<union> free_set p"
proof -
  have "unat a = page_no a * 4096" using assms(3) div_mult_mod_eq [of "unat a" 4096] unfolding page_no_def by linarith
  moreover have "0 < page_no a" "page_no a + n \<le> tracked_pages p"
    using assms(4) [of "page_no a"] assms(4) [of "page_no a + (n - 1)"] assms(2) by force+
  ultimately show ?thesis
    using free_pages_loop_ok [OF assms(1), of "page_no a" n a] assms(2,4) by (auto simp: free_pages_range_def)
qed

lemma unmap_all_pmm:
  "pt_inv h \<Longrightarrow> \<forall>v\<in>set vs. managed (key v) \<Longrightarrow> unmap_all unmap_page_hw vs h = Some h' \<Longrightarrow> hw_pmm h' = hw_pmm h"
proof (induction vs arbitrary: h)
  case (Cons v vs)
  obtain r h1 where "unmap_page_hw v h = Some (r, h1)" "keeps h h1" "hw_pmm h1 = hw_pmm h"
    using unmap_page_hw_spec [OF Cons.prems(1), of v] Cons.prems(2) by auto
  then show ?case using Cons.IH [of h1] Cons.prems(2,3) keeps_inv [of h h1] by simp
qed simp

lemma keys_of_pages:
  "key ` set (map (page_at (virt_start m)) [0..<map_pages m]) = fst ` set (mapping_entries m)"
  by (simp add: mapping_entries_def image_image)

lemma vmm_unmap_spec:
  assumes I: "vmm_inv (s, h)"
  shows "\<exists>r s' h'. vmm_unmap virt (s, h) = Some (r, s', h') \<and> vmm_inv (s', h') \<and> same_low h h'
    \<and> (case r of
         Inl _ \<Rightarrow> s' = s \<and> h' = h \<and> virt \<notin> virt_start ` set (vmm_mappings s)
       | Inr _ \<Rightarrow> (\<exists>i<length (vmm_mappings s). virt_start (vmm_mappings s ! i) = virt
           \<and> s' = s\<lparr>vmm_mappings := remove_nth i (vmm_mappings s)\<rparr>
           \<and> pages h' = pages h |` (- fst ` set (mapping_entries (vmm_mappings s ! i)))
           \<and> free_set (hw_pmm h') = free_set (hw_pmm h) \<union> (if owned_physical (vmm_mappings s ! i)
               then {page_no (phys_start (vmm_mappings s ! i))..<page_no (phys_start (vmm_mappings s ! i)) + map_pages (vmm_mappings s ! i)}
               else {})))"
proof -
  have aligned: "is_page_aligned virt" if "virt \<in> virt_start ` set (vmm_mappings s)"
    using that vmm_invD(6) [OF I] by (auto simp: is_page_aligned_unat)
  show ?thesis
  proof (cases "find_position (\<lambda>m. virt_start m = virt) (vmm_mappings s)")
    case None
    then have "virt \<notin> virt_start ` set (vmm_mappings s)" by (auto simp: find_position_None)
    then show ?thesis using None I vmm_invD(1) [OF I] by (simp add: vmm_unmap_def same_low_def)
  next
    case (Some i)
    define m where "m = vmm_mappings s ! i"
    have i: "i < length (vmm_mappings s)" "virt_start m = virt" using find_position_Some [OF Some] by (simp_all add: m_def)
    have mem: "m \<in> set (vmm_mappings s)" using i(1) by (simp add: m_def)
    define xs ys where "xs = take i (vmm_mappings s)" and "ys = drop (Suc i) (vmm_mappings s)"
    define s' where "s' = s\<lparr>vmm_mappings := remove_nth i (vmm_mappings s)\<rparr>"
    have split: "vmm_mappings s = xs @ m # ys" using i(1) by (simp add: xs_def ys_def m_def id_take_nth_drop)
    have s': "vmm_mappings s' = xs @ ys" by (simp add: s'_def remove_nth_def xs_def ys_def)
    note mok = vmm_invD(6) [OF I mem]
    have "\<forall>v\<in>set (map (page_at (virt_start m)) [0..<map_pages m]). managed (key v)" using mok by (auto simp: mappable_def)
    moreover have "pt_evolves h h" using vmm_invD(2) [OF I] keeps_refl by (simp add: pt_evolves_def)
    ultimately obtain h' where U: "unmap_all unmap_page_hw (map (page_at (virt_start m)) [0..<map_pages m]) h = Some h'"
      "pt_evolves h h'" "pages h' = pages h |` (- fst ` set (mapping_entries m))"
      using ptm.unmap_all_trans [of h "map (page_at (virt_start m)) [0..<map_pages m]"] unfolding keys_of_pages by blast
    have K: "keeps h h'" using U(2) by (simp add: pt_evolves_def)
    let ?A = "concat (map mapping_entries xs)" and ?B = "concat (map mapping_entries ys)"
    have all: "all_entries s = ?A @ mapping_entries m @ ?B" "all_entries s' = ?A @ ?B"
      by (simp_all add: all_entries_def split s')
    have pg: "pages h' = map_of (all_entries s')"
      unfolding U(3) vmm_invD(4) [OF I] all by (rule map_of_remove_middle) (use vmm_invD(3) [OF I] all in simp)
    let ?own = "\<lambda>m. if owned_physical m then [page_no (phys_start m)..<page_no (phys_start m) + map_pages m] else []"
    have own: "owned_frames s = concat (map ?own xs) @ ?own m @ concat (map ?own ys)"
      "owned_frames s' = concat (map ?own xs) @ concat (map ?own ys)"
      by (simp_all add: owned_frames_def split s')
    have sub: "set (owned_frames s') \<subseteq> set (owned_frames s)" by (auto simp: own)
    have I': "vmm_inv (s', h')"
      unfolding vmm_inv_def prod.case
    proof (intro conjI ballI)
      show "distinct (map fst (all_entries s'))" using vmm_invD(3) [OF I] unfolding all map_append by (rule distinct_middle)
      show "distinct (owned_frames s')" using vmm_invD(5) [OF I] unfolding own by auto
    next
      fix f assume "f \<in> set (owned_frames s')"
      then show "0 < f" "f < tracked_pages (hw_pmm h')" "f \<notin> free_set (hw_pmm h')" "f \<notin> table_pages h'"
        using vmm_invD(7) [OF I, of f] sub K by (auto simp: keeps_def)
    next
      fix x assume "x \<in> set (vmm_mappings s')"
      then have "x \<in> set (vmm_mappings s)" by (auto simp: s' split)
      then show "0 < map_pages x" "unat (phys_start x) mod 4096 = 0" "unat (virt_start x) mod 4096 = 0"
        "unat (virt_start x) + map_pages x * 4096 < 2 ^ 64" "mappable (virt_start x) (phys_start x) (map_pages x)"
        using vmm_invD(6) [OF I] by blast+
    qed (use pg vmm_invD(1) [OF I] keeps_inv [OF K] in \<open>simp_all add: s'_def\<close>)
    have pmm': "hw_pmm h' = hw_pmm h" using unmap_all_pmm [OF vmm_invD(2) [OF I] _ U(1)] mok by (auto simp: mappable_def)
    have run: "vmm_unmap virt (s, h) = Some (Inr (), s',
        if owned_physical m then h'\<lparr>hw_pmm := snd (free_pages_range (phys_start m) (map_pages m) (hw_pmm h'))\<rparr> else h')"
      using Some U(1) aligned [of] mem i(2) vmm_invD(1) [OF I]
      by (auto simp: vmm_unmap_def Let_def s'_def image_iff simp flip: m_def)
    show ?thesis
    proof (cases "owned_physical m")
      case False
      then show ?thesis using run I' K i U(3) pmm' by (auto simp: keeps_same_low s'_def m_def intro!: exI [of _ i])
    next
      case True
      have fr: "0 < f \<and> f < tracked_pages (hw_pmm h') \<and> f \<notin> free_set (hw_pmm h') \<and> f \<notin> table_pages h' \<and> f \<notin> set (owned_frames s')"
        if "f \<in> {page_no (phys_start m)..<page_no (phys_start m) + map_pages m}" for f
      proof -
        have f: "f \<in> set (?own m)" using that True by simp
        then have "f \<in> set (owned_frames s)" unfolding own by simp
        moreover have "f \<notin> set (owned_frames s')"
          using distinct_middle_notin [OF vmm_invD(5) [OF I, unfolded own(1)] f] unfolding own .
        ultimately show ?thesis using vmm_invD(7) [OF I, of f] K by (auto simp: keeps_def)
      qed
      have "pmm_inv (hw_pmm h')" using keeps_inv [OF K] by (simp add: pt_inv_def)
      then obtain q where q: "free_pages_range (phys_start m) (map_pages m) (hw_pmm h') = (True, q)" "pmm_inv q"
        "tracked_pages q = tracked_pages (hw_pmm h')"
        "free_set q = {page_no (phys_start m)..<page_no (phys_start m) + map_pages m} \<union> free_set (hw_pmm h')"
        using free_range_spec [of "hw_pmm h'" "map_pages m" "phys_start m"] mok fr by auto
      have "vmm_inv (s', h'\<lparr>hw_pmm := q\<rparr>)"
        using I' q(2,3,4) fr table_pages_used [OF keeps_inv [OF K]] vmm_invD(7) [OF I']
        by (intro vmm_inv_pmm) blast+
      then show ?thesis using run True q K i U(3) pmm'
        by (auto simp: keeps_same_low s'_def m_def intro!: exI [of _ i])
    qed
  qed
qed

section \<open>Mapping at the next kernel address\<close>

lemma reserve_virt_spec:
  "vmm_initialized s \<Longrightarrow> reserve_virt n s = (case checked_range_end (next_kernel_virt s) n of
     None \<Rightarrow> (Inl ''vmm: virtual range overflow'', s)
   | Some e \<Rightarrow> (Inr (next_kernel_virt s), s\<lparr>next_kernel_virt := e\<rparr>))"
  by (simp add: reserve_virt_def Let_def)

lemma map_physical_anywhere_spec:
  assumes I: "vmm_inv (s, h)" and M: "mappable (next_kernel_virt s) phys n"
  shows "\<exists>r s' h'. map_physical_anywhere phys n flags owner (s, h) = Some (r, s', h') \<and> vmm_inv (s', h') \<and> same_low h h'
    \<and> (case r of Inl _ \<Rightarrow> vmm_mappings s' = vmm_mappings s
       | Inr v \<Rightarrow> v = next_kernel_virt s \<and> vmm_mappings s' = vmm_mappings s @ [new_mapping v phys n flags owner])"
proof (cases "n = 0 \<or> \<not> is_page_aligned phys \<or> checked_range_end (next_kernel_virt s) n = None")
  case True
  then show ?thesis using I vmm_invD(1) [OF I]
    by (auto simp: map_physical_anywhere_def reserve_virt_spec same_low_def)
next
  case False
  then obtain e where e: "checked_range_end (next_kernel_virt s) n = Some e" by auto
  define s1 where "s1 = s\<lparr>next_kernel_virt := e\<rparr>"
  have "vmm_inv (s1, h)" using I by (simp add: s1_def)
  then obtain r s' h' where V: "vmm_map (next_kernel_virt s) phys n flags owner (s1, h) = Some (r, s', h')" "keeps h h'" "vmm_inv (s', h')"
    "case r of Inl _ \<Rightarrow> s' = s1 \<and> pages h' = pages h
       | Inr _ \<Rightarrow> s' = s1\<lparr>vmm_mappings := vmm_mappings s1 @ [new_mapping (next_kernel_virt s) phys n flags owner]\<rparr>
           \<and> is_page_aligned phys \<and> is_page_aligned (next_kernel_virt s)"
    using vmm_map_spec [OF _ M, of s1 h flags owner] by blast
  have run: "map_physical_anywhere phys n flags owner (s, h) = (case r of
      Inl e \<Rightarrow> Some (Inl e, (if next_kernel_virt s' \<ge> page_at (next_kernel_virt s) n
                             then s'\<lparr>next_kernel_virt := next_kernel_virt s\<rparr> else s'), h')
    | Inr _ \<Rightarrow> Some (Inr (next_kernel_virt s), s', h'))"
    using False e V(1) vmm_invD(1) [OF I]
    by (simp add: map_physical_anywhere_def reserve_virt_spec s1_def split: sum.split)
  show ?thesis
  proof (cases r)
    case (Inl x)
    have inv: "vmm_inv (if b then s'\<lparr>next_kernel_virt := next_kernel_virt s\<rparr> else s', h')" for b using V(3) by simp
    show ?thesis using run Inl V(4) inv keeps_same_low [OF V(2)] by (auto simp: s1_def)
  next
    case (Inr u)
    then show ?thesis using run V(3,4) keeps_same_low [OF V(2)] by (simp add: s1_def)
  qed
qed

lemma mark_owned_new:
  "mark_owned v p n (s\<lparr>vmm_mappings := xs @ [new_mapping v p n fl ow]\<rparr>)
    = s\<lparr>vmm_mappings := xs @ [(new_mapping v p n fl ow)\<lparr>owned_physical := True\<rparr>]\<rparr>"
  by (simp add: mark_owned_def)

lemma alloc_and_map_spec:
  assumes I: "vmm_inv (s, h)" and M: "\<And>k. k < n \<Longrightarrow> managed (key (page_at (next_kernel_virt s) k))"
  shows "\<exists>r s' h'. alloc_and_map n flags owner (s, h) = Some (r, s', h') \<and> vmm_inv (s', h') \<and> same_low h h'
    \<and> (case r of Inl _ \<Rightarrow> vmm_mappings s' = vmm_mappings s
       | Inr v \<Rightarrow> v = next_kernel_virt s \<and> (\<exists>phys. vmm_mappings s' =
           vmm_mappings s @ [(new_mapping v phys n flags owner)\<lparr>owned_physical := True\<rparr>]))"
proof -
  note D = vmm_invD [OF I]
  have P: "pmm_inv (hw_pmm h)" using D(2) by (simp add: pt_inv_def)
  obtain got p where a: "alloc_pages n (hw_pmm h) = (got, p)" by fastforce
  show ?thesis
  proof (cases "n = 0 \<or> got = None")
    case True
    moreover have "got = None \<Longrightarrow> p = hw_pmm h" using a alloc_None_unchanged by (simp add: alloc_pages_def)
    ultimately show ?thesis using I a by (auto simp: alloc_and_map_def same_low_def)
  next
    case False
    then obtain phys where phys: "got = Some phys" and n: "0 < n" by auto
    obtain first where A: "1 \<le> first" "unat phys = first * 4096" "{first..<first + n} \<subseteq> free_set (hw_pmm h)"
      "free_set p = free_set (hw_pmm h) - {first..<first + n}" "tracked_pages p = tracked_pages (hw_pmm h)" "pmm_inv p"
      using alloc_Some_spec [OF P] a phys unfolding alloc_pages_def by blast
    have "first + (n - 1) \<in> free_set (hw_pmm h)" using A(3) n by auto
    then have lim: "first + n \<le> tracked_pages (hw_pmm h)" unfolding mem_free_set using n by linarith
    have "first + n \<le> MAX_PAGES" using lim P by (simp add: pmm_inv_def)
    then have mapp: "mappable (next_kernel_virt s) phys n" using M A(2) by (auto simp: mappable_def MAX_PAGES_eq)
    have no: "page_no phys = first" using A(2) by (simp add: page_no_def)
    define h1 where "h1 = h\<lparr>hw_pmm := p\<rparr>"
    have I1: "vmm_inv (s, h1)"
      unfolding h1_def using I A(4,5,6) table_pages_used [OF D(2)] D(7) by (intro vmm_inv_pmm) blast+
    have free1: "free_set (hw_pmm h1) \<inter> {first..<first + n} = {}" using A(4) by (auto simp: h1_def)
    have tab1: "table_pages h1 \<inter> {first..<first + n} = {}" using A(3) table_pages_used [OF D(2)] by (auto simp: h1_def)
    have own1: "set (owned_frames s) \<inter> {first..<first + n} = {}" using A(3) D(7) by blast
    show ?thesis
    proof (cases "checked_range_end (next_kernel_virt s) n")
      case None
      then show ?thesis using I1 a phys n D(1) by (simp add: alloc_and_map_def reserve_virt_spec h1_def same_low_def)
    next
      case (Some e)
      define s1 where "s1 = s\<lparr>next_kernel_virt := e\<rparr>"
      have "vmm_inv (s1, h1)" using I1 by (simp add: s1_def)
      then obtain r s' h' where V: "vmm_map (next_kernel_virt s) phys n flags owner (s1, h1) = Some (r, s', h')" "keeps h1 h'" "vmm_inv (s', h')"
        "case r of Inl _ \<Rightarrow> s' = s1 \<and> pages h' = pages h1
           | Inr _ \<Rightarrow> s' = s1\<lparr>vmm_mappings := vmm_mappings s1 @ [new_mapping (next_kernel_virt s) phys n flags owner]\<rparr>
               \<and> is_page_aligned phys \<and> is_page_aligned (next_kernel_virt s)"
        using vmm_map_spec [OF _ mapp, of s1 h1 flags owner] by blast
      have low: "same_low h h'" using keeps_same_low [OF V(2)] by (simp add: h1_def)
      have fr: "f \<notin> free_set (hw_pmm h')" "f \<notin> table_pages h'" "0 < f" "f < tracked_pages (hw_pmm h')" "f \<notin> set (owned_frames s)"
        if "f \<in> {first..<first + n}" for f
      proof -
        have "f \<notin> free_set (hw_pmm h1)" "f \<notin> table_pages h1" using that free1 tab1 by blast+
        then show "f \<notin> free_set (hw_pmm h')" "f \<notin> table_pages h'" using V(2) by (auto simp: keeps_def)
        show "f \<notin> set (owned_frames s)" using that own1 by blast
        show "0 < f" "f < tracked_pages (hw_pmm h')" using that A(1,5) lim V(2) by (simp_all add: keeps_def h1_def)
      qed
      show ?thesis
      proof (cases r)
        case (Inl x)
        have s': "s' = s1" using V(4) Inl by simp
        obtain q where q: "free_pages_range phys n (hw_pmm h') = (True, q)" "pmm_inv q" "tracked_pages q = tracked_pages (hw_pmm h')"
          "free_set q = {first..<first + n} \<union> free_set (hw_pmm h')"
          using free_range_spec [of "hw_pmm h'" n phys] n A(2) fr keeps_inv [OF V(2)] unfolding no pt_inv_def by auto
        have own: "owned_frames s' = owned_frames s" by (simp add: s' s1_def owned_frames_def)
        have "vmm_inv (s', h'\<lparr>hw_pmm := q\<rparr>)"
          using V(3) q(2,3,4) fr table_pages_used [OF keeps_inv [OF V(2)]] vmm_invD(7) [OF V(3)] unfolding own
          by (intro vmm_inv_pmm) (auto simp: own)
        moreover have "alloc_and_map n flags owner (s, h) = Some (Inl x, s', h'\<lparr>hw_pmm := q\<rparr>)"
          using a phys n D(1) Some V(1) Inl q(1)
          by (simp add: alloc_and_map_def reserve_virt_spec map_owned_def h1_def s1_def)
        ultimately show ?thesis using low by (simp add: s' s1_def)
      next
        case (Inr u)
        define m where "m = new_mapping (next_kernel_virt s) phys n flags owner"
        define s2 where "s2 = s1\<lparr>vmm_mappings := vmm_mappings s @ [m\<lparr>owned_physical := True\<rparr>]\<rparr>"
        have s': "s' = s1\<lparr>vmm_mappings := vmm_mappings s @ [m]\<rparr>" using V(4) Inr by (simp add: s1_def m_def)
        have all: "all_entries s2 = all_entries s'"
          by (simp add: all_entries_def s2_def s' mapping_entries_def)
        have own: "owned_frames s2 = owned_frames s @ [first..<first + n]"
          by (simp add: owned_frames_def s2_def m_def no)
        have old: "f \<in> set (owned_frames s') \<longleftrightarrow> f \<in> set (owned_frames s)" for f
          by (simp add: owned_frames_def s' m_def)
        have inv: "vmm_inv (s2, h')"
          unfolding vmm_inv_def prod.case
        proof (intro conjI ballI)
          show "distinct (owned_frames s2)" using D(5) own1 unfolding own by auto
          show "vmm_initialized s2" using D(1) by (simp add: s2_def s1_def)
        next
          fix f assume "f \<in> set (owned_frames s2)"
          then have "f \<in> set (owned_frames s') \<or> f \<in> {first..<first + n}" unfolding own by (auto simp: old)
          then show "0 < f" "f < tracked_pages (hw_pmm h')" "f \<notin> free_set (hw_pmm h')" "f \<notin> table_pages h'"
            using vmm_invD(7) [OF V(3), of f] fr [of f] by blast+
        next
          fix x assume "x \<in> set (vmm_mappings s2)"
          then have "x = m\<lparr>owned_physical := True\<rparr> \<or> x \<in> set (vmm_mappings s')" by (auto simp: s2_def s')
          moreover have "m \<in> set (vmm_mappings s')" by (simp add: s')
          ultimately show "0 < map_pages x" "unat (phys_start x) mod 4096 = 0" "unat (virt_start x) mod 4096 = 0"
            "unat (virt_start x) + map_pages x * 4096 < 2 ^ 64" "mappable (virt_start x) (phys_start x) (map_pages x)"
            using vmm_invD(6) [OF V(3), of x] vmm_invD(6) [OF V(3), of m] by auto
        qed (use vmm_invD(2-4) [OF V(3)] in \<open>simp_all only: all\<close>)
        have "alloc_and_map n flags owner (s, h) = Some (Inr (next_kernel_virt s), s2, h')"
          using a phys n D(1) Some V(1) Inr unfolding s'
          by (simp add: alloc_and_map_def reserve_virt_spec map_owned_def h1_def s1_def s2_def m_def mark_owned_def)
        then show ?thesis using inv low by (auto simp: s2_def m_def)
      qed
    qed
  qed
qed

section \<open>Steps of the system\<close>

text \<open>The operations of the manager, and any change of the page allocator by the rest of the kernel that frees no page
  table and no page the manager owns.  Left out are requests the code accepts although it cannot serve them: mappings in
  the recursive slot, user mappings in slot 0, and physical addresses of more than 52 bits.\<close>

inductive vmm_step :: "vmm \<Rightarrow> vmm \<Rightarrow> bool" where
  step_map: "map_request virt phys n flags \<Longrightarrow> vmm_map virt phys n flags owner w = Some (r, w') \<Longrightarrow> vmm_step w w'"
| step_alloc: "(\<And>k. k < n \<Longrightarrow> managed (key (page_at (next_kernel_virt (fst w)) k))) \<Longrightarrow>
    alloc_and_map n flags owner w = Some (r, w') \<Longrightarrow> vmm_step w w'"
| step_anywhere: "mappable (next_kernel_virt (fst w)) phys n \<Longrightarrow>
    map_physical_anywhere phys n flags owner w = Some (r, w') \<Longrightarrow> vmm_step w w'"
| step_unmap: "vmm_unmap virt w = Some (r, w') \<Longrightarrow> vmm_step w w'"
| step_other: "pmm_inv p \<Longrightarrow> tracked_pages p = tracked_pages (hw_pmm h) \<Longrightarrow>
    free_set p \<inter> (table_pages h \<union> set (owned_frames s)) = {} \<Longrightarrow> vmm_step (s, h) (s, h\<lparr>hw_pmm := p\<rparr>)"

definition vmm_boot :: "paging_hw \<Rightarrow> vmm" where
  "vmm_boot h = snd (vmm_init (hw_cr3 h) (vmm_new, h))"

lemma vmm_boot_inv:
  assumes "pt_inv h" "pages h = Map.empty"
  shows "vmm_inv (vmm_boot h)" "snd (vmm_boot h) = h"
proof -
  have "frame_ok (hw_cr3 h)" using pt_inv_frame [OF assms(1) path_Nil tbl_root] by simp
  then have "is_page_aligned (hw_cr3 h)" by (simp add: is_page_aligned_unat frame_ok_def)
  then have b: "vmm_boot h = (vmm_new\<lparr>vmm_cr3 := hw_cr3 h, vmm_initialized := True, next_kernel_virt := KERNEL_VIRT_BASE\<rparr>, h)"
    by (simp add: vmm_boot_def vmm_init_def vmm_new_def)
  show "vmm_inv (vmm_boot h)"
    unfolding b using assms by (simp add: vmm_inv_def vmm_new_def all_entries_def owned_frames_def)
  show "snd (vmm_boot h) = h" by (simp add: b)
qed

lemma vmm_step_inv:
  assumes "vmm_step w w'" "vmm_inv w"
  shows "vmm_inv w' \<and> same_low (snd w) (snd w')"
  using assms
proof (induction rule: vmm_step.induct)
  case (step_map virt phys n flags owner w r w')
  obtain s h where w: "w = (s, h)" by fastforce
  show ?case using vmm_map_request [of s h virt phys n flags owner] step_map unfolding w by (auto dest: keeps_same_low)
next
  case (step_alloc n w flags owner r w')
  obtain s h where w: "w = (s, h)" by fastforce
  show ?case using alloc_and_map_spec [of s h n flags owner] step_alloc unfolding w by auto
next
  case (step_anywhere w phys n flags owner r w')
  obtain s h where w: "w = (s, h)" by fastforce
  show ?case using map_physical_anywhere_spec [of s h phys n flags owner] step_anywhere unfolding w by auto
next
  case (step_unmap virt w r w')
  obtain s h where w: "w = (s, h)" by fastforce
  show ?case using vmm_unmap_spec [of s h virt] step_unmap unfolding w by auto
next
  case (step_other p h s)
  then show ?case using vmm_inv_pmm [of s h p] by (simp add: same_low_def)
qed

lemma vmm_reach_inv:
  assumes "pt_inv h0" "pages h0 = Map.empty" "vmm_step\<^sup>*\<^sup>* (vmm_boot h0) w"
  shows "vmm_inv w \<and> same_low h0 (snd w)"
  using assms(3)
proof (induction rule: rtranclp_induct)
  case base
  show ?case using vmm_boot_inv [OF assms(1,2)] by (simp add: same_low_def)
next
  case (step w w')
  then show ?case using vmm_step_inv [OF step.hyps(2)] same_low_trans by blast
qed

section \<open>Translation\<close>

lemma offset_in_page:
  assumes "unat v mod 4096 = 0" "off < 4096"
  shows "key (v + of_nat off) = key v" "take_bit 12 (v + of_nat off) = (of_nat off :: u64)"
proof -
  have v: "unat v + off < 2 ^ 64"
  proof -
    have "unat v div 4096 < 2 ^ 52" using unsigned_less [of v, where ?'a = nat] by (simp add: div_less_iff_less_mult)
    moreover have "unat v = unat v div 4096 * 4096" using assms(1) div_mult_mod_eq [of "unat v" 4096] by linarith
    ultimately show ?thesis using assms(2) by simp
  qed
  have o: "unat (of_nat off :: u64) = off" using assms(2) by (intro unat_of_nat_small) simp
  have u: "unat (v + of_nat off) = unat v + off" using v o unat_add_lem [of v "of_nat off"] by simp
  have page: "(unat v + off) div 4096 = unat v div 4096"
    using assms by (simp add: div_add1_eq)
  have "(unat v + off) div 2 ^ (12 + k) = unat v div 2 ^ (12 + k)" for k
    using page by (simp add: power_add div_mult2_eq)
  from this [of 0] this [of 9] this [of 18] this [of 27]
  show "key (v + of_nat off) = key v" by (simp add: key_def idx_unat u)
  have "unat (take_bit 12 (v + of_nat off)) = take_bit 12 (unat v + off)" by (simp only: unsigned_take_bit_eq u)
  also have "\<dots> = off" using assms by (simp add: take_bit_eq_mod mod_add_eq [symmetric])
  finally show "take_bit 12 (v + of_nat off) = (of_nat off :: u64)" using o by (simp only: word_unat_eq_iff)
qed

lemma mapped_page:
  assumes I: "vmm_inv (s, h)" and m: "m \<in> set (vmm_mappings s)" "k < map_pages m"
  shows "managed (key (page_at (virt_start m) k))" "unat (page_at (virt_start m) k) mod 4096 = 0"
    "frame_ok (page_at (phys_start m) k)"
    "pages h (key (page_at (virt_start m) k)) = Some (set_page 0 (page_at (phys_start m) k) (leaf_flags (map_flags m)))"
proof -
  note mok = vmm_invD(6) [OF I m(1)]
  show "managed (key (page_at (virt_start m) k))" using mok m(2) by (simp add: mappable_def)
  have "unat (page_at (virt_start m) k) = unat (virt_start m) + k * 4096" using mok m(2) by (intro unat_page_at) simp
  then show "unat (page_at (virt_start m) k) mod 4096 = 0" using mok by simp
  have "unat (page_at (phys_start m) k) = unat (phys_start m) + k * 4096"
    using mok m(2) by (intro unat_page_at) (simp add: mappable_def)
  then show "frame_ok (page_at (phys_start m) k)" using mok m(2) by (simp add: frame_ok_def mappable_def)
  have "(key (page_at (virt_start m) k), set_page 0 (page_at (phys_start m) k) (leaf_flags (map_flags m))) \<in> set (all_entries s)"
    using m by (force simp: all_entries_def mapping_entries_def)
  then show "pages h (key (page_at (virt_start m) k)) = Some (set_page 0 (page_at (phys_start m) k) (leaf_flags (map_flags m)))"
    using vmm_invD(3,4) [OF I] by simp
qed

lemma checked_add_offset:
  assumes "frame_ok p" "off < 4096"
  shows "checked_add p (of_nat off) = Some (p + of_nat off)"
proof -
  have o: "unat (of_nat off :: u64) = off" using assms(2) by (intro unat_of_nat_small) simp
  have "unat p + off < 2 ^ LENGTH(64)" using assms unfolding frame_ok_def by simp
  then show ?thesis unfolding checked_add_def o by (rule if_P)
qed

lemma unmapped_page:
  assumes I: "vmm_inv (s, h)" and u: "\<And>m k. m \<in> set (vmm_mappings s) \<Longrightarrow> k < map_pages m \<Longrightarrow> key (page_at (virt_start m) k) \<noteq> q"
  shows "pages h q = None"
proof -
  have "q \<notin> fst ` set (all_entries s)"
  proof
    assume "q \<in> fst ` set (all_entries s)"
    then obtain e where "(q, e) \<in> set (all_entries s)" by fastforce
    then obtain m where m: "m \<in> set (vmm_mappings s)" "(q, e) \<in> set (mapping_entries m)"
      unfolding all_entries_def set_concat set_map by blast
    then obtain k where k: "k < map_pages m" "q = key (page_at (virt_start m) k)" by (auto simp: mapping_entries_def)
    show False using u [OF m(1) k(1)] k(2) by (rule notE [OF _ sym])
  qed
  then have "map_of (all_entries s) q = None" by (simp only: map_of_eq_None_iff not_False_eq_True)
  moreover have "pages h q = map_of (all_entries s) q" by (rule fun_cong [OF vmm_invD(4) [OF I]])
  ultimately show ?thesis by (simp only:)
qed

lemma starts_distinct:
  assumes I: "vmm_inv (s, h)"
  shows "distinct (map virt_start (vmm_mappings s))"
proof -
  have "distinct (map fst (concat (map mapping_entries ms))) \<Longrightarrow> \<forall>m\<in>set ms. 0 < map_pages m \<Longrightarrow> distinct (map virt_start ms)" for ms
  proof (induction ms)
    case (Cons m ms)
    have first: "key (page_at (virt_start x) 0) \<in> fst ` set (mapping_entries x)" if "0 < map_pages x" for x
      using that by (force simp: mapping_entries_def)
    have "virt_start m \<notin> virt_start ` set ms"
    proof
      assume "virt_start m \<in> virt_start ` set ms"
      then obtain x where x: "x \<in> set ms" "virt_start x = virt_start m" by auto
      have "key (page_at (virt_start m) 0) \<in> fst ` set (concat (map mapping_entries ms))"
        using first [of x] Cons.prems(2) x by force
      moreover have "fst ` set (mapping_entries m) \<inter> fst ` set (concat (map mapping_entries ms)) = {}"
        using Cons.prems(1) by simp
      ultimately show False using first [of m] Cons.prems(2) by auto
    qed
    with Cons show ?case by simp
  qed simp
  then show ?thesis using vmm_invD(3,6) [OF I] by (simp add: all_entries_def)
qed

section \<open>A machine for the examples\<close>

text \<open>Four free pages, and a root table that holds nothing but the recursive slot.\<close>

definition demo_hw :: paging_hw where
  "demo_hw = \<lparr>hw_mem = (\<lambda>f i. if f = 0x5000 \<and> i = 511 then 0x5003 else 0), hw_cr3 = 0x5000, hw_pmm = demo_pmm, hw_flushed = []\<rparr>"

lemma demo_descend: "path q \<Longrightarrow> tbl demo_hw q = (if q = [] then Some 0x5000 else None)"
  by (cases q) (auto simp: tbl_def demo_hw_def path_def)

lemma demo_pt_inv: "pt_inv demo_hw"
proof -
  have u: "5 \<notin> free_set demo_pmm" by (simp add: mem_free_set demo_eval)
  have e: "is_present 0x5003" "\<not> is_huge 0x5003" "entry_address 0x5003 = 0x5000"
    by (simp_all add: is_present_def is_huge_def entry_address_def)
  have "recursive demo_hw" using e by (simp add: recursive_def demo_hw_def)
  moreover have "table_tree (hw_mem demo_hw) (hw_cr3 demo_hw)"
    unfolding table_tree_def using demo_descend by (auto simp: tbl_def split: if_splits)
  moreover have root: "q = [] \<and> f = 0x5000" if "path q" "tbl demo_hw q = Some f" for q f
    using that demo_descend [OF that(1)] by (simp split: if_splits)
  have zero: "hw_mem demo_hw 0x5000 i = 0" if "\<not> is_present (hw_mem demo_hw 0x5000 i)" for i
    using that e(1) by (auto simp: demo_hw_def)
  have small: "\<not> is_huge (hw_mem demo_hw 0x5000 i)" for i using e(2) by (simp add: demo_hw_def is_huge_bit)
  have frame: "frame_ok 0x5000" "page_no 0x5000 = 5" by (simp_all add: frame_ok_def page_no_def)
  have pmm: "hw_pmm demo_hw = demo_pmm" by (simp add: demo_hw_def)
  ultimately show ?thesis
    unfolding pt_inv_def pmm
  proof (intro conjI allI impI)
    fix q f assume "path q" "tbl demo_hw q = Some f"
    then show "frame_ok f" "page_no f \<notin> free_set demo_pmm" using root [of q f] frame u by simp_all
  next
    fix q f i assume "path q" "tbl demo_hw q = Some f" "\<not> is_present (hw_mem demo_hw f i)"
    then show "hw_mem demo_hw f i = 0" using root [of q f] zero by simp
  next
    fix q f i assume "path (q @ [i])" "tbl demo_hw q = Some f"
    then show "\<not> is_huge (hw_mem demo_hw f i)" using root [OF path_appendD, of q "[i]" f] small by simp
  qed (rule demo_inv)
qed

lemma demo_pages: "pages demo_hw = Map.empty"
  by (rule ext) (auto simp: pages_def demo_descend managed_def)

lemma demo_window: "window KERNEL_VIRT_BASE 4"
  by (simp add: window_def)

lemma demo_boot:
  "vmm_boot demo_hw = (\<lparr>vmm_initialized = True, vmm_cr3 = 0x5000, vmm_mappings = [], next_kernel_virt = KERNEL_VIRT_BASE\<rparr>, demo_hw)"
  by (simp add: vmm_boot_def vmm_init_def vmm_new_def is_page_aligned_def demo_hw_def PAGE_SIZE_def)

lemma demo_mappable: "n \<le> 4 \<Longrightarrow> mappable KERNEL_VIRT_BASE 0xB8000 n"
  using window_managed [OF demo_window] by (auto simp: mappable_def)

lemma page_at_0 [simp]: "page_at v 0 = v"
  using unsigned_less [of v, where ?'a = nat] by (simp add: page_at_def saturating_add_def saturating_mul_def)

text \<open>Mapping the VGA text buffer there succeeds.\<close>

lemma demo_map_runs:
  "\<exists>h'. vmm_map KERNEL_VIRT_BASE 0xB8000 1 3 ''vga-text'' (vmm_boot demo_hw) =
    Some (Inr (), \<lparr>vmm_initialized = True, vmm_cr3 = 0x5000, vmm_mappings = [new_mapping KERNEL_VIRT_BASE 0xB8000 1 3 ''vga-text''],
       next_kernel_virt = KERNEL_VIRT_BASE\<rparr>, h')"
proof -
  have "managed (key KERNEL_VIRT_BASE)" using window_managed [OF demo_window, of 0] by simp
  moreover have "card (free_set (hw_pmm demo_hw)) = 4" using demo_inv demo_fields by (simp add: demo_hw_def pmm_inv_def)
  ultimately obtain h' where h': "map_page_hw KERNEL_VIRT_BASE 0xB8000 3 demo_hw = Some (Inr (), h')"
    using map_page_hw_spec [OF demo_pt_inv, of KERNEL_VIRT_BASE "0xB8000" 3]
    by (fastforce simp: demo_pages split: sum.splits)
  have "checked_range_end KERNEL_VIRT_BASE 1 = Some 0xFFFF800000001000" by (simp add: checked_range_end_Some)
  then show ?thesis
    unfolding demo_boot
    by (simp add: vmm_map_def is_page_aligned_def PAGE_SIZE_def h')
qed

lemma demo_alloc_runs:
  "\<exists>s h. alloc_and_map 1 3 ''heap'' (vmm_boot demo_hw) = Some (Inr KERNEL_VIRT_BASE, s, h)"
proof -
  have c: "card (free_set demo_pmm) = 4" using demo_inv demo_fields by (simp add: pmm_inv_def)
  obtain got p where a: "alloc_page demo_pmm = (got, p)" by fastforce
  have "free_set demo_pmm \<noteq> {}" using c by auto
  then have "got \<noteq> None" using alloc_page_fails [OF demo_inv, of p] a by auto
  then obtain phys where phys: "alloc_page demo_pmm = (Some phys, p)" using a by auto
  note N = alloc_page_new [OF demo_inv phys]
  define h1 where "h1 = demo_hw\<lparr>hw_pmm := p\<rparr>"
  have "pt_inv h1"
    unfolding h1_def using N table_pages_used [OF demo_pt_inv] by (intro pt_inv_pmm [OF demo_pt_inv]) (auto simp: demo_hw_def)
  moreover have "pages h1 = Map.empty" by (simp add: h1_def demo_pages)
  moreover have "card (free_set (hw_pmm h1)) = 3" using N c by (simp add: h1_def)
  moreover have "managed (key KERNEL_VIRT_BASE)" using window_managed [OF demo_window, of 0] by simp
  ultimately obtain h' where h': "map_page_hw KERNEL_VIRT_BASE phys 3 h1 = Some (Inr (), h')"
    using map_page_hw_spec [of h1 KERNEL_VIRT_BASE phys 3] by (fastforce split: sum.splits)
  have e: "checked_range_end KERNEL_VIRT_BASE 1 = Some 0xFFFF800000001000" by (simp add: checked_range_end_Some)
  have al: "is_page_aligned phys" "is_page_aligned KERNEL_VIRT_BASE"
    using N by (simp_all add: is_page_aligned_unat frame_ok_def)
  have "vmm_map KERNEL_VIRT_BASE phys 1 3 ''heap'' (s, h1) = Some (Inr (), s\<lparr>vmm_mappings := vmm_mappings s @ [new_mapping KERNEL_VIRT_BASE phys 1 3 ''heap'']\<rparr>, h')"
    if "vmm_initialized s" "vmm_mappings s = []" for s
    using that e al h' by (simp add: vmm_map_def)
  moreover have "alloc_pages 1 (hw_pmm demo_hw) = (Some phys, p)" using phys by (simp add: alloc_page_def demo_hw_def)
  ultimately show ?thesis
    unfolding demo_boot using e by (simp add: alloc_and_map_def reserve_virt_def map_owned_def h1_def)
qed

section \<open>Properties\<close>

text \<open>C2: the page tables implement the list of recorded mappings.  Start with tables that hold the recursive
  slot and map nothing outside slot 0, and apply any sequence of the operations in \<open>vmm_step\<close>: requests outside the
  recursive slot, user requests also outside slot 0, physical addresses of at most 52 bits, and changes of the page
  allocator by the rest of the kernel that free no page in use.  Then every byte of every recorded mapping translates to the
  byte at the same offset of its physical range, for \<open>vmm::translate\<close> and, at canonical addresses, for the
  processor; an address outside slot 0 and the recursive slot that no recorded mapping covers does not
  translate, for either; and the processor's view of slot 0, where the kernel itself runs, is the initial one.\<close>

theorem vmm_translation_refines:
  assumes "pt_inv h0" "pages h0 = Map.empty" "vmm_step\<^sup>*\<^sup>* (vmm_boot h0) (s, h)"
  shows "(\<forall>m\<in>set (vmm_mappings s). \<forall>k<map_pages m. \<forall>off<4096.
      (let v = page_at (virt_start m) k + of_nat off; p = page_at (phys_start m) k in
       vmm_translate v (s, h) = Some (Some (p + of_nat off)) \<and> (canonicalize_48 v = v \<longrightarrow> mmu h v = Some p)))
    \<and> (\<forall>v. idx 39 v \<noteq> 0 \<and> idx 39 v \<noteq> 511 \<and> (\<forall>m\<in>set (vmm_mappings s). \<forall>k<map_pages m. key (page_at (virt_start m) k) \<noteq> key v)
        \<longrightarrow> vmm_translate v (s, h) = Some None \<and> mmu h v = None)
    \<and> (\<forall>v. idx 39 v = 0 \<longrightarrow> mmu h v = mmu h0 v)"
proof (intro conjI ballI allI impI)
  have R: "vmm_inv (s, h)" "same_low h0 h" using vmm_reach_inv [OF assms] by simp_all
  note I = vmm_invD(1,2) [OF R(1)]
  show "mmu h v = mmu h0 v" if "idx 39 v = 0" for v using mmu_low [OF R(2) assms(1) that] .
  fix v assume v: "idx 39 v \<noteq> 0 \<and> idx 39 v \<noteq> 511 \<and> (\<forall>m\<in>set (vmm_mappings s). \<forall>k<map_pages m. key (page_at (virt_start m) k) \<noteq> key v)"
  then have k: "managed (key v)" by (simp add: managed_def key_def path_def)
  then have none: "pages h (key v) = None" using unmapped_page [OF R(1), of "key v"] v by blast
  show "vmm_translate v (s, h) = Some None" using none k translate_hw_spec [OF I(2), of v] I(1) by (simp add: vmm_translate_def)
  show "mmu h v = None"
    using mmu_managed [OF I(2) k] none by (cases "canonicalize_48 v = v") (simp_all add: mmu_def level_indices_eq)
next
  have R: "vmm_inv (s, h)" "same_low h0 h" using vmm_reach_inv [OF assms] by simp_all
  note I = vmm_invD(1,2) [OF R(1)]
  fix m k off assume m: "m \<in> set (vmm_mappings s)" "k < map_pages m" and off: "off < (4096 :: nat)"
  let ?v = "page_at (virt_start m) k + of_nat off" and ?p = "page_at (phys_start m) k"
  note P = mapped_page [OF R(1) m]
  note K = offset_in_page [OF P(2) off]
  have e: "entry_address (set_page 0 ?p (leaf_flags (map_flags m))) = ?p"
    using frame_ok_address [OF P(3)] by (simp add: entry_address_set_page leaf_flags_bits)
  have "vmm_translate ?v (s, h) = Some (Some (?p + of_nat off))"
    using translate_hw_spec [OF I(2), of ?v] P(1,4) K checked_add_offset [OF P(3) off] I(1) by (simp add: vmm_translate_def e)
  moreover have "mmu h ?v = Some ?p" if "canonicalize_48 ?v = ?v"
    using mmu_managed [OF I(2) _ that] P(1,4) K(1) by (simp add: e)
  ultimately show "let v = ?v; p = ?p in
       vmm_translate v (s, h) = Some (Some (p + of_nat off)) \<and> (canonicalize_48 v = v \<longrightarrow> mmu h v = Some p)"
    by (simp add: Let_def)
qed

theorem vmm_translation_refines_witness:
  "\<exists>s h. vmm_map KERNEL_VIRT_BASE 0xB8000 1 3 ''vga-text'' (vmm_boot demo_hw) = Some (Inr (), s, h)
    \<and> vmm_translate (KERNEL_VIRT_BASE + of_nat 0x10) (s, h) = Some (Some (0xB8000 + of_nat 0x10))"
proof -
  obtain h where run: "vmm_map KERNEL_VIRT_BASE 0xB8000 1 3 ''vga-text'' (vmm_boot demo_hw) =
    Some (Inr (), \<lparr>vmm_initialized = True, vmm_cr3 = 0x5000, vmm_mappings = [new_mapping KERNEL_VIRT_BASE 0xB8000 1 3 ''vga-text''],
       next_kernel_virt = KERNEL_VIRT_BASE\<rparr>, h)" (is "_ = Some (Inr (), ?s, h)") using demo_map_runs by blast
  have "vmm_step\<^sup>*\<^sup>* (vmm_boot demo_hw) (?s, h)" using step_map [OF mappable_request [OF demo_mappable] run] by auto
  from vmm_translation_refines [OF demo_pt_inv demo_pages this]
  have "\<forall>off<4096. vmm_translate (KERNEL_VIRT_BASE + of_nat off) (?s, h) = Some (Some (0xB8000 + of_nat off))"
    by (simp add: Let_def)
  then have "vmm_translate (KERNEL_VIRT_BASE + of_nat 0x10) (?s, h) = Some (Some (0xB8000 + of_nat 0x10))" by (rule allE [of _ "0x10"]) simp
  with run show ?thesis by blast
qed

text \<open>C14: mapping a range is atomic.  Take a request outside the recursive slot, for user mappings also outside slot 0, with
  physical addresses of at most 52 bits; the code does not check these three conditions.  Under the invariant \<open>vmm::map\<close>
  returns without a page fault; on success it records the mapping and adds exactly the entries of its pages, none of which was
  mapped; on an error, even one in the middle of the range, no recorded mapping, no page of the tables and not the identity
  map of low memory has changed.\<close>

theorem vmm_map_atomic:
  assumes "vmm_inv (s, h)" "\<And>k. k < n \<Longrightarrow> idx 39 (page_at virt k) \<noteq> 511" "unat phys + n * 4096 \<le> 2 ^ 52"
    "\<And>k. flags AND FLAG_USER \<noteq> 0 \<Longrightarrow> k < n \<Longrightarrow> idx 39 (page_at virt k) \<noteq> 0"
  shows "\<exists>r s' h'. vmm_map virt phys n flags owner (s, h) = Some (r, s', h') \<and> vmm_inv (s', h') \<and> same_low h h'
    \<and> (case r of
         Inl _ \<Rightarrow> s' = s \<and> pages h' = pages h
       | Inr _ \<Rightarrow> s' = s\<lparr>vmm_mappings := vmm_mappings s @ [new_mapping virt phys n flags owner]\<rparr>
           \<and> pages h' = pages h ++ map_of (mapping_entries (new_mapping virt phys n flags owner))
           \<and> (\<forall>k<n. pages h (key (page_at virt k)) = None))"
proof -
  obtain r s' h' where V: "vmm_map virt phys n flags owner (s, h) = Some (r, s', h')" "keeps h h'" "vmm_inv (s', h')"
    "case r of Inl _ \<Rightarrow> s' = s \<and> pages h' = pages h
       | Inr _ \<Rightarrow> s' = s\<lparr>vmm_mappings := vmm_mappings s @ [new_mapping virt phys n flags owner]\<rparr>
           \<and> is_page_aligned phys \<and> is_page_aligned virt"
    using vmm_map_request [OF assms(1), of virt phys n flags owner] assms(2-4) unfolding map_request_def by blast
  show ?thesis
  proof (cases r)
    case (Inl e)
    then show ?thesis using V keeps_same_low by simp
  next
    case (Inr u)
    let ?E = "mapping_entries (new_mapping virt phys n flags owner)"
    have s': "s' = s\<lparr>vmm_mappings := vmm_mappings s @ [new_mapping virt phys n flags owner]\<rparr>" using V(4) Inr by simp
    then have all: "all_entries s' = all_entries s @ ?E" by (simp add: all_entries_def)
    have disj: "fst ` set (all_entries s) \<inter> fst ` set ?E = {}" using vmm_invD(3) [OF V(3)] unfolding all by simp
    have "pages h' = pages h ++ map_of ?E"
      unfolding vmm_invD(4) [OF V(3)] vmm_invD(4) [OF assms(1)] all map_of_append
      by (rule map_add_comm) (use disj in \<open>simp add: dom_map_of_conv_image_fst Int_commute\<close>)
    moreover have "pages h (key (page_at virt k)) = None" if "k < n" for k
    proof -
      have "key (page_at virt k) \<in> fst ` set ?E" using that by (force simp: mapping_entries_def)
      then have "key (page_at virt k) \<notin> fst ` set (all_entries s)" using disj by blast
      then show ?thesis unfolding vmm_invD(4) [OF assms(1)] by (simp only: map_of_eq_None_iff not_False_eq_True)
    qed
    ultimately show ?thesis using V(1,3) Inr keeps_same_low [OF V(2)] s' by simp
  qed
qed

theorem vmm_map_atomic_witness:
  "\<exists>r s' h'. vmm_map KERNEL_VIRT_BASE 0xB8000 2 3 ''vga-text'' (vmm_boot demo_hw) = Some (r, s', h') \<and> vmm_inv (s', h')"
proof -
  obtain s h where b: "vmm_boot demo_hw = (s, h)" by fastforce
  have "vmm_inv (s, h)" using vmm_boot_inv(1) [OF demo_pt_inv demo_pages] b by simp
  moreover have "idx 39 (page_at KERNEL_VIRT_BASE k) \<noteq> 511" if "k < 2" for k
    using demo_mappable [of 2] managed_key(5) that by (simp add: mappable_def)
  ultimately show ?thesis using vmm_map_atomic [of s h 2 KERNEL_VIRT_BASE "0xB8000" 3 "''vga-text''"] b by auto
qed

text \<open>C22: allocation and release.  When \<open>vmm::alloc_and_map\<close> returns an address, \<open>vmm::unmap\<close> of that address succeeds,
  the recorded mappings and every translation are again those before the allocation, and the physical
  pages of the range are free again.\<close>

theorem vmm_alloc_unmap_roundtrip:
  assumes I: "vmm_inv (s, h)" and M: "\<And>k. k < n \<Longrightarrow> managed (key (page_at (next_kernel_virt s) k))"
    and run: "alloc_and_map n flags owner (s, h) = Some (Inr v, s1, h1)"
  shows "\<exists>s2 h2. vmm_unmap v (s1, h1) = Some (Inr (), s2, h2) \<and> vmm_inv (s2, h2) \<and> vmm_mappings s2 = vmm_mappings s
    \<and> pages h2 = pages h \<and> (\<exists>phys. vmm_mappings s1 = vmm_mappings s @ [(new_mapping v phys n flags owner)\<lparr>owned_physical := True\<rparr>]
        \<and> {page_no phys..<page_no phys + n} \<subseteq> free_set (hw_pmm h2))"
proof -
  obtain phys where A: "vmm_inv (s1, h1)" "v = next_kernel_virt s"
    "vmm_mappings s1 = vmm_mappings s @ [(new_mapping v phys n flags owner)\<lparr>owned_physical := True\<rparr>]"
    using alloc_and_map_spec [OF I, of n flags owner] M run by auto
  define m where "m = (new_mapping v phys n flags owner)\<lparr>owned_physical := True\<rparr>"
  obtain r s2 h2 where U: "vmm_unmap v (s1, h1) = Some (r, s2, h2)" "vmm_inv (s2, h2)"
    "case r of
         Inl _ \<Rightarrow> s2 = s1 \<and> h2 = h1 \<and> v \<notin> virt_start ` set (vmm_mappings s1)
       | Inr _ \<Rightarrow> (\<exists>i<length (vmm_mappings s1). virt_start (vmm_mappings s1 ! i) = v
           \<and> s2 = s1\<lparr>vmm_mappings := remove_nth i (vmm_mappings s1)\<rparr>
           \<and> pages h2 = pages h1 |` (- fst ` set (mapping_entries (vmm_mappings s1 ! i)))
           \<and> free_set (hw_pmm h2) = free_set (hw_pmm h1) \<union> (if owned_physical (vmm_mappings s1 ! i)
               then {page_no (phys_start (vmm_mappings s1 ! i))..<page_no (phys_start (vmm_mappings s1 ! i)) + map_pages (vmm_mappings s1 ! i)}
               else {}))"
    using vmm_unmap_spec [OF A(1), of v] by blast
  have "v \<in> virt_start ` set (vmm_mappings s1)" by (simp add: A(3))
  then obtain u where "r = Inr u" using U(3) by (cases r) auto
  then obtain i where i: "r = Inr ()" "i < length (vmm_mappings s1)" "virt_start (vmm_mappings s1 ! i) = v"
    "s2 = s1\<lparr>vmm_mappings := remove_nth i (vmm_mappings s1)\<rparr>"
    "free_set (hw_pmm h2) = free_set (hw_pmm h1) \<union> (if owned_physical (vmm_mappings s1 ! i)
       then {page_no (phys_start (vmm_mappings s1 ! i))..<page_no (phys_start (vmm_mappings s1 ! i)) + map_pages (vmm_mappings s1 ! i)} else {})"
    using U(3) by auto
  have "map virt_start (vmm_mappings s1) ! i = v" using i(2,3) by simp
  moreover have "map virt_start (vmm_mappings s1) ! length (vmm_mappings s) = v" by (simp add: A(3) nth_append)
  moreover have "length (vmm_mappings s) < length (vmm_mappings s1)" by (simp add: A(3))
  ultimately have eq: "i = length (vmm_mappings s)"
    using starts_distinct [OF A(1)] i(2) nth_eq_iff_index_eq [of "map virt_start (vmm_mappings s1)" i "length (vmm_mappings s)"] by simp
  have maps: "vmm_mappings s2 = vmm_mappings s" using i(4) A(3) by (simp add: eq remove_nth_def)
  have "pages h2 = pages h"
    unfolding vmm_invD(4) [OF U(2)] vmm_invD(4) [OF I] by (simp add: all_entries_def maps)
  moreover have "{page_no phys..<page_no phys + n} \<subseteq> free_set (hw_pmm h2)" using i(5) A(3) eq by simp
  ultimately show ?thesis using U(1,2) i(1) maps A(3) by blast
qed

theorem vmm_alloc_unmap_roundtrip_witness:
  "\<exists>s1 h1 s2 h2. alloc_and_map 1 3 ''heap'' (vmm_boot demo_hw) = Some (Inr KERNEL_VIRT_BASE, s1, h1)
    \<and> vmm_unmap KERNEL_VIRT_BASE (s1, h1) = Some (Inr (), s2, h2) \<and> pages h2 = pages demo_hw"
proof -
  obtain s h where run: "alloc_and_map 1 3 ''heap'' (vmm_boot demo_hw) = Some (Inr KERNEL_VIRT_BASE, s, h)"
    using demo_alloc_runs by blast
  define s0 where "s0 = fst (vmm_boot demo_hw)"
  have b: "vmm_boot demo_hw = (s0, demo_hw)" by (simp add: s0_def demo_boot)
  have "vmm_inv (s0, demo_hw)" using vmm_boot_inv(1) [OF demo_pt_inv demo_pages] b by simp
  moreover have "managed (key (page_at (next_kernel_virt s0) k))" if "k < 1" for k
    using that window_managed [OF demo_window, of k] by (simp add: s0_def demo_boot)
  ultimately obtain s2 h2 where "vmm_unmap KERNEL_VIRT_BASE (s, h) = Some (Inr (), s2, h2)" "pages h2 = pages demo_hw"
    using vmm_alloc_unmap_roundtrip [of s0 demo_hw 1 3 "''heap''" KERNEL_VIRT_BASE s h] run unfolding b by blast
  with run show ?thesis by blast
qed

text \<open>C29: unmapping the last page of a page table.  The frame of the table is unlinked, but it is not given back to
  the page allocator, so no one can use it again; and the translation of the table's own pointer through
  the recursive slot changes although \<^verbatim>\<open>invlpg\<close> is called on the unmapped page only.\<close>

theorem unmap_loses_table:
  assumes "pt_inv h" "managed (key v)" "pages h (key v) \<noteq> None" "\<And>j. j \<noteq> snd (key v) \<Longrightarrow> pages h (fst (key v), j) = None"
  shows "\<exists>pt h'. tbl h (fst (key v)) = Some pt \<and> unmap_page_hw v h = Some (Inr (), h')
    \<and> page_no pt \<notin> table_pages h' \<and> page_no pt \<notin> free_set (hw_pmm h')
    \<and> mmu h (ptr_of (fst (key v))) = Some pt \<and> mmu h' (ptr_of (fst (key v))) = None
    \<and> hw_flushed h' = v # hw_flushed h \<and> key (ptr_of (fst (key v))) \<noteq> key v"
  using unmap_leaks_table [OF assms(1-3)] assms(4) by blast

theorem unmap_loses_table_witness:
  "\<exists>h pt h'. map_page_hw KERNEL_VIRT_BASE 0xB8000 3 demo_hw = Some (Inr (), h)
    \<and> unmap_page_hw KERNEL_VIRT_BASE h = Some (Inr (), h') \<and> tbl h (fst (key KERNEL_VIRT_BASE)) = Some pt
    \<and> page_no pt \<notin> table_pages h' \<and> page_no pt \<notin> free_set (hw_pmm h')"
proof -
  have m: "managed (key KERNEL_VIRT_BASE)" using window_managed [OF demo_window, of 0] by simp
  have "card (free_set (hw_pmm demo_hw)) = 4" using demo_inv demo_fields by (simp add: demo_hw_def pmm_inv_def)
  with m obtain h where h: "map_page_hw KERNEL_VIRT_BASE 0xB8000 3 demo_hw = Some (Inr (), h)" "keeps demo_hw h"
    "pages h = [key KERNEL_VIRT_BASE \<mapsto> set_page 0 0xB8000 (leaf_flags 3)]"
    using map_page_hw_spec [OF demo_pt_inv, of KERNEL_VIRT_BASE "0xB8000" 3]
    by (fastforce simp: demo_pages split: sum.splits)
  have "pages h (fst (key KERNEL_VIRT_BASE), j) = None" if "j \<noteq> snd (key KERNEL_VIRT_BASE)" for j
    unfolding h(3) using that by (auto simp: prod_eq_iff)
  moreover have "pages h (key KERNEL_VIRT_BASE) \<noteq> None" by (simp add: h(3))
  ultimately show ?thesis using unmap_loses_table [OF keeps_inv [OF h(2)] m] h(1) by blast
qed

end
