(* ===== verification/Boot_Tables.thy ===== *)
theory Boot_Tables
  imports Vmm
begin

text \<open>
  The page tables built at boot: \<^verbatim>\<open>bootstrap_kernel_page_tables\<close> of \<^verbatim>\<open>seed/saios/src/vmm.rs\<close> and what it calls.
  At that time the firmware maps memory to itself, so a table is used through its physical address and no
  walk is involved.  The stack pointer that \<open>map_boot_stack\<close> reads is an argument.  Shown is that
  the tables, once activated, satisfy the initial condition of theory \<open>Vmm\<close> and map the first GiB and every
  requested range to itself; when the construction succeeds; and when the search for a low page gives up.
\<close>

section \<open>Operations\<close>

type_synonym 'a boot_run = "'a res \<times> paging_hw"

definition bbind :: "'a boot_run \<Rightarrow> ('a \<Rightarrow> paging_hw \<Rightarrow> 'b boot_run) \<Rightarrow> 'b boot_run" where
  "bbind x f = (case x of (Inl e, h) \<Rightarrow> (Inl e, h) | (Inr a, h) \<Rightarrow> f a h)"

fun alloc_low :: "nat \<Rightarrow> pmm \<Rightarrow> u64 option res \<times> pmm" where
  "alloc_low 0 p = (Inr None, p)"
| "alloc_low (Suc n) p =
     (case alloc_page p of
        (None, q) \<Rightarrow> (Inl ''vmm: out of memory allocating page table'', q)
      | (Some candidate, q) \<Rightarrow>
          if candidate < EARLY_TABLE_MAX_PHYS then (Inr (Some candidate), q)
          else alloc_low n (snd (free_page candidate q)))"

definition alloc_zeroed_table :: "paging_hw \<Rightarrow> u64 boot_run" where
  "alloc_zeroed_table h =
     (case alloc_low 4096 (hw_pmm h) of
        (Inl e, p) \<Rightarrow> (Inl e, h\<lparr>hw_pmm := p\<rparr>)
      | (Inr None, p) \<Rightarrow> (Inl ''vmm: no low-memory page available for page table'', h\<lparr>hw_pmm := p\<rparr>)
      | (Inr (Some phys), p) \<Rightarrow> (Inr phys, clear_table phys (h\<lparr>hw_pmm := p\<rparr>)))"

definition boot_table :: "u64 \<Rightarrow> nat \<Rightarrow> paging_hw \<Rightarrow> unit boot_run" where
  "boot_table frame i h =
     (if is_present (hw_mem h frame i) then (Inr (), h)
      else bbind (alloc_zeroed_table h) (\<lambda>t h.
        (Inr (), write_entry frame i (set_page (hw_mem h frame i) t PT_WRITABLE) h)))"

definition map_kernel_page :: "u64 \<Rightarrow> u64 \<Rightarrow> u64 \<Rightarrow> u64 \<Rightarrow> paging_hw \<Rightarrow> bool boot_run" where
  "map_kernel_page root virt phys flags h = (case level_indices virt of (l4, l3, l2, l1, _) \<Rightarrow>
     bbind (boot_table root l4 h) (\<lambda>_ h.
     let pdpt = entry_address (hw_mem h root l4) in
     bbind (boot_table pdpt l3 h) (\<lambda>_ h.
     let pd = entry_address (hw_mem h pdpt l3) in
     bbind (boot_table pd l2 h) (\<lambda>_ h.
     if is_huge (hw_mem h pd l2)
     then (if saturating_add (entry_address (hw_mem h pd l2)) (virt AND 0x1fffff) = phys then (Inr False, h)
           else (Inl ''vmm: page already mapped'', h))
     else let pt = entry_address (hw_mem h pd l2) in
       if is_present (hw_mem h pt l1)
       then (if entry_address (hw_mem h pt l1) = phys then (Inr False, h)
             else (Inl ''vmm: page already mapped'', h))
       else (Inr True, write_entry pt l1 (set_page (hw_mem h pt l1) phys (leaf_flags flags OR PT_PRESENT)) h)))))"

definition map_identity_low_mem :: "u64 \<Rightarrow> paging_hw \<Rightarrow> unit boot_run" where
  "map_identity_low_mem root h =
     bbind (alloc_zeroed_table h) (\<lambda>pdpt h.
     let h = write_entry root 0 (set_page (hw_mem h root 0) pdpt PT_WRITABLE) h in
     bbind (alloc_zeroed_table h) (\<lambda>pd h.
     let h = write_entry pdpt 0 (set_page (hw_mem h pdpt 0) pd PT_WRITABLE) h in
     (Inr (), fold (\<lambda>i h. write_entry pd i (set_page (hw_mem h pd i) (of_nat i * 0x200000)
                (PT_WRITABLE OR PT_PRESENT OR PT_GLOBAL OR PT_HUGE)) h) [0..<512] h)))"

function range_loop :: "u64 \<Rightarrow> u64 \<Rightarrow> u64 \<Rightarrow> u64 \<Rightarrow> paging_hw \<Rightarrow> unit boot_run" where
  "range_loop root current limit flags h =
     (if current < limit
      then case map_kernel_page root current current flags h of
             (Inr _, h') \<Rightarrow> range_loop root (saturating_add current PAGE_SIZE) limit flags h'
           | (Inl e, h') \<Rightarrow>
               if e = ''vmm: page already mapped''
               then range_loop root (saturating_add current PAGE_SIZE) limit flags h'
               else (Inl e, h')
      else (Inr (), h))"
  by pat_completeness auto

lemma next_page_grows: "unat current < unat (limit :: u64) \<Longrightarrow> unat current < unat (saturating_add current PAGE_SIZE)"
proof -
  assume "unat current < unat limit"
  moreover have "unat limit < 2 ^ 64" using unsigned_less [of limit, where ?'a = nat] by simp
  ultimately show ?thesis by (simp add: unat_saturating_add PAGE_SIZE_mask)
qed

termination range_loop
  by (relation "measure (\<lambda>(_, current, limit, _, _). unat limit - unat current)")
    (auto simp: word_less_nat_alt intro!: diff_less_mono2 elim: next_page_grows)

declare range_loop.simps [simp del]

definition map_range_identity :: "u64 \<Rightarrow> u64 \<Rightarrow> u64 \<Rightarrow> u64 \<Rightarrow> paging_hw \<Rightarrow> unit boot_run" where
  "map_range_identity root start e flags h =
     range_loop root (align_down start PAGE_SIZE) (align_up e PAGE_SIZE) flags h"

definition map_boot_stack :: "u64 \<Rightarrow> u64 \<Rightarrow> paging_hw \<Rightarrow> unit boot_run" where
  "map_boot_stack root rsp h =
     (let below_pages = saturating_mul PAGE_SIZE 16;
          start = align_down (saturating_sub rsp below_pages) PAGE_SIZE;
          e = align_up (saturating_add rsp PAGE_SIZE) PAGE_SIZE
      in map_range_identity root start e (FLAG_WRITE OR FLAG_GLOBAL) h)"

definition bootstrap_kernel_page_tables ::
  "u64 \<Rightarrow> u64 \<Rightarrow> u64 \<Rightarrow> u64 \<Rightarrow> u64 \<Rightarrow> u64 \<Rightarrow> u64 \<Rightarrow> paging_hw \<Rightarrow> u64 boot_run" where
  "bootstrap_kernel_page_tables framebuffer_base framebuffer_size boot_info_ptr boot_info_size kernel_start kernel_end rsp h =
     bbind (alloc_zeroed_table h) (\<lambda>root h.
     bbind (map_identity_low_mem root h) (\<lambda>_ h.
     let ram_flags = FLAG_WRITE OR FLAG_GLOBAL;
         framebuffer_flags = FLAG_WRITE OR FLAG_GLOBAL OR FLAG_WRITE_COMBINE;
         boot_info_flags = FLAG_WRITE OR FLAG_GLOBAL in
     bbind (if kernel_end > kernel_start then map_range_identity root kernel_start kernel_end ram_flags h
            else (Inr (), h)) (\<lambda>_ h.
     bbind (if boot_info_size > 0
            then map_range_identity root (align_down boot_info_ptr PAGE_SIZE)
                   (align_up (saturating_add boot_info_ptr boot_info_size) PAGE_SIZE) boot_info_flags h
            else (Inr (), h)) (\<lambda>_ h.
     bbind (if framebuffer_size > 0
            then map_range_identity root (align_down framebuffer_base PAGE_SIZE)
                   (align_up (saturating_add framebuffer_base framebuffer_size) PAGE_SIZE) framebuffer_flags h
            else (Inr (), h)) (\<lambda>_ h.
     bbind (map_boot_stack root rsp h) (\<lambda>_ h.
     (Inr root, write_entry root 511 (set_page (hw_mem h root 511) root PT_WRITABLE) h)))))))"

section \<open>The search for a low page\<close>

lemma alloc_low_spec:
  assumes "pmm_inv p" "alloc_low n p = (r, p')"
  shows "pmm_inv p' \<and> (case r of
      Inr (Some t) \<Rightarrow> frame_ok t \<and> page_no t \<in> free_set p \<and> free_set p' = free_set p - {page_no t} \<and> t < EARLY_TABLE_MAX_PHYS
    | _ \<Rightarrow> free_set p' = free_set p)"
  using assms
proof (induction n arbitrary: p)
  case (Suc n)
  obtain got q where a: "alloc_page p = (got, q)" by fastforce
  show ?case
  proof (cases got)
    case None
    then show ?thesis using Suc.prems a alloc_page_none [of p q] by auto
  next
    case (Some c)
    have N: "pmm_inv q" "frame_ok c" "page_no c \<in> free_set p" "free_set q = free_set p - {page_no c}" "tracked_pages q = tracked_pages p"
      using alloc_page_new [OF Suc.prems(1), of c q] a Some by simp_all
    show ?thesis
    proof (cases "c < EARLY_TABLE_MAX_PHYS")
      case True
      then have "r = Inr (Some c)" "p' = q" using Suc.prems(2) a Some by simp_all
      then show ?thesis using N True by simp
    next
      case False
      obtain b p1 where f: "free_page c q = (b, p1)" by fastforce
      have "page_no c \<noteq> 0" using N(3) Suc.prems(1) unfolding pmm_inv_def by metis
      moreover have "page_no c < tracked_pages q" using N(3,5) by (simp add: mem_free_set)
      moreover have "unat c = page_no c * 4096" using N(2) div_mult_mod_eq [of "unat c" 4096] unfolding frame_ok_def page_no_def by linarith
      ultimately obtain p2 where "free_page c q = (True, p2)" "free_set p2 = insert (page_no c) (free_set q)" "pmm_inv p2"
        using free_page_ok [OF N(1), of "page_no c" c] N(4) by auto
      then have "pmm_inv p1" "free_set p1 = insert (page_no c) (free_set q)" using f by simp_all
      moreover have "insert (page_no c) (free_set q) = free_set p" using N(3,4) by auto
      moreover have "alloc_low n p1 = (r, p')" using Suc.prems(2) a Some False f by simp
      ultimately show ?thesis using Suc.IH [of p1] by (simp only:)
    qed
  qed
qed auto

lemma alloc_low_error:
  "alloc_low n p = (Inl e, p') \<Longrightarrow> e = ''vmm: out of memory allocating page table''"
proof (induction n arbitrary: p)
  case (Suc n)
  obtain got q where a: "alloc_page p = (got, q)" by fastforce
  show ?case
  proof (cases got)
    case None
    then show ?thesis using Suc.prems a by simp
  next
    case (Some c)
    then have "c < EARLY_TABLE_MAX_PHYS \<or> alloc_low n (snd (free_page c q)) = (Inl e, p')" using Suc.prems a by (simp split: if_splits)
    moreover have "\<not> c < EARLY_TABLE_MAX_PHYS" using Suc.prems a Some by auto
    ultimately show ?thesis using Suc.IH by blast
  qed
qed simp

lemma alloc_zeroed_table_spec:
  assumes "pmm_inv (hw_pmm h)" "alloc_zeroed_table h = (r, h')"
  shows "case r of
      Inr t \<Rightarrow> (\<exists>p. h' = clear_table t (h\<lparr>hw_pmm := p\<rparr>) \<and> pmm_inv p \<and> frame_ok t \<and> page_no t \<in> free_set (hw_pmm h)
        \<and> free_set p = free_set (hw_pmm h) - {page_no t})
    | Inl e \<Rightarrow> e \<noteq> ''vmm: page already mapped''"
proof -
  define tries :: nat where "tries = 4096"
  obtain got p where a: "alloc_low tries (hw_pmm h) = (got, p)" by fastforce
  have run: "alloc_zeroed_table h = (case got of
        Inl e \<Rightarrow> (Inl e, h\<lparr>hw_pmm := p\<rparr>)
      | Inr None \<Rightarrow> (Inl ''vmm: no low-memory page available for page table'', h\<lparr>hw_pmm := p\<rparr>)
      | Inr (Some phys) \<Rightarrow> (Inr phys, clear_table phys (h\<lparr>hw_pmm := p\<rparr>)))"
    unfolding alloc_zeroed_table_def tries_def [symmetric] a by (simp split: sum.split option.split)
  consider (err) e where "got = Inl e" | (none) "got = Inr None" | (ok) t where "got = Inr (Some t)"
    by (metis sum.exhaust option.exhaust)
  then show ?thesis
  proof cases
    case err
    then have "r = Inl e" using run assms(2) by simp
    then show ?thesis using alloc_low_error a err by fastforce
  next
    case none
    then have "r = Inl ''vmm: no low-memory page available for page table''" using run assms(2) by simp
    then show ?thesis by simp
  next
    case ok
    then have "r = Inr t" "h' = clear_table t (h\<lparr>hw_pmm := p\<rparr>)" using run assms(2) by simp_all
    then show ?thesis using alloc_low_spec [OF assms(1) a] ok by auto
  qed
qed

section \<open>The invariant during the construction\<close>

definition bt_inv :: "u64 \<Rightarrow> paging_hw \<Rightarrow> bool" where
  "bt_inv r h \<longleftrightarrow> pmm_inv (hw_pmm h) \<and> table_tree (hw_mem h) r \<and> hw_mem h r 511 = 0
     \<and> (\<forall>q f. path q \<longrightarrow> descend (hw_mem h) r q = Some f \<longrightarrow> frame_ok f \<and> page_no f \<notin> free_set (hw_pmm h))
     \<and> (\<forall>q f i. path q \<longrightarrow> descend (hw_mem h) r q = Some f \<longrightarrow> i < 512 \<longrightarrow> \<not> is_present (hw_mem h f i) \<longrightarrow> hw_mem h f i = 0)
     \<and> (\<forall>q f i. path (q @ [i]) \<longrightarrow> descend (hw_mem h) r q = Some f \<longrightarrow> hd (q @ [i]) \<noteq> 0 \<longrightarrow> hw_mem h f i = 0)
     \<and> (\<forall>q f i. path (q @ [i]) \<longrightarrow> descend (hw_mem h) r q = Some f \<longrightarrow> length q \<le> 1 \<longrightarrow> \<not> is_huge (hw_mem h f i))
     \<and> (\<forall>b c d f. path [0, b, c] \<longrightarrow> descend (hw_mem h) r [0, b, c] = Some f \<longrightarrow> d < 512 \<longrightarrow> is_present (hw_mem h f d)
          \<longrightarrow> entry_address (hw_mem h f d) = address_of 0 b c d)
     \<and> (\<forall>b c f. path [0, b] \<longrightarrow> descend (hw_mem h) r [0, b] = Some f \<longrightarrow> c < 512 \<longrightarrow> is_huge (hw_mem h f c)
          \<longrightarrow> entry_address (hw_mem h f c) = address_of 0 b c 0)"

text \<open>Tables and present entries are only added.\<close>

definition grows :: "u64 \<Rightarrow> paging_hw \<Rightarrow> paging_hw \<Rightarrow> bool" where
  "grows r h h' \<longleftrightarrow> (\<forall>q f. path q \<longrightarrow> descend (hw_mem h) r q = Some f \<longrightarrow>
     descend (hw_mem h') r q = Some f \<and> (\<forall>i. is_present (hw_mem h f i) \<longrightarrow> hw_mem h' f i = hw_mem h f i))"

lemma grows_refl: "grows r h h"
  by (simp add: grows_def)

lemma growsD:
  assumes "grows r h h'" "path q" "descend (hw_mem h) r q = Some f"
  shows "descend (hw_mem h') r q = Some f" "is_present (hw_mem h f i) \<Longrightarrow> hw_mem h' f i = hw_mem h f i"
  using assms unfolding grows_def by blast+

lemma grows_trans:
  assumes "grows r h h1" "grows r h1 h2"
  shows "grows r h h2"
  unfolding grows_def
proof (intro allI impI conjI)
  fix q f assume q: "path q" "descend (hw_mem h) r q = Some f"
  have 1: "descend (hw_mem h1) r q = Some f" "\<And>i. is_present (hw_mem h f i) \<Longrightarrow> hw_mem h1 f i = hw_mem h f i"
    using assms(1) q unfolding grows_def by blast+
  have 2: "descend (hw_mem h2) r q = Some f" "\<And>i. is_present (hw_mem h1 f i) \<Longrightarrow> hw_mem h2 f i = hw_mem h1 f i"
    using assms(2) q(1) 1(1) unfolding grows_def by blast+
  show "descend (hw_mem h2) r q = Some f" by (rule 2(1))
  fix i assume "is_present (hw_mem h f i)"
  then show "hw_mem h2 f i = hw_mem h f i" using 1(2) [of i] 2(2) [of i] by simp
qed

lemma bt_invD:
  assumes "bt_inv r h"
  shows "pmm_inv (hw_pmm h)" "table_tree (hw_mem h) r" "hw_mem h r 511 = 0"
    "path q \<Longrightarrow> descend (hw_mem h) r q = Some f \<Longrightarrow> frame_ok f \<and> page_no f \<notin> free_set (hw_pmm h)"
    "path q \<Longrightarrow> descend (hw_mem h) r q = Some f \<Longrightarrow> i < 512 \<Longrightarrow> \<not> is_present (hw_mem h f i) \<Longrightarrow> hw_mem h f i = 0"
    "path (q @ [i]) \<Longrightarrow> descend (hw_mem h) r q = Some f \<Longrightarrow> hd (q @ [i]) \<noteq> 0 \<Longrightarrow> hw_mem h f i = 0"
    "path (q @ [i]) \<Longrightarrow> descend (hw_mem h) r q = Some f \<Longrightarrow> length q \<le> 1 \<Longrightarrow> \<not> is_huge (hw_mem h f i)"
    "path [0, b, c] \<Longrightarrow> descend (hw_mem h) r [0, b, c] = Some f \<Longrightarrow> d < 512 \<Longrightarrow> is_present (hw_mem h f d)
          \<Longrightarrow> entry_address (hw_mem h f d) = address_of 0 b c d"
    "path [0, b] \<Longrightarrow> descend (hw_mem h) r [0, b] = Some f \<Longrightarrow> c < 512 \<Longrightarrow> is_huge (hw_mem h f c)
          \<Longrightarrow> entry_address (hw_mem h f c) = address_of 0 b c 0"
  using assms unfolding bt_inv_def by blast+

text \<open>A change that writes one entry \<open>e\<close>, where nothing was present, at index \<open>i\<close> of the table at \<open>p\<close> and may add the
  empty table \<open>n\<close> there.\<close>

lemma bt_step:
  assumes B: "bt_inv r h" and p: "path p" "descend (hw_mem h) r p = Some f" "i < 512" "hd (p @ [i]) = 0" "\<not> is_present (hw_mem h f i)"
    and pmm: "pmm_inv (hw_pmm h')" "free_set (hw_pmm h') \<subseteq> free_set (hw_pmm h)"
    and T: "\<And>q. path q \<Longrightarrow> descend (hw_mem h') r q = (if new \<and> q = p @ [i] then Some n else descend (hw_mem h) r q)"
    and M: "\<And>q g j. path q \<Longrightarrow> descend (hw_mem h) r q = Some g \<Longrightarrow> hw_mem h' g j = (if q = p \<and> j = i then e else hw_mem h g j)"
    and n: "new \<Longrightarrow> hw_mem h' n = table_clear \<and> frame_ok n \<and> page_no n \<notin> free_set (hw_pmm h') \<and> (\<forall>q. path q \<longrightarrow> descend (hw_mem h) r q \<noteq> Some n)"
    and e: "is_present e" "length p \<le> 1 \<Longrightarrow> \<not> is_huge e"
      "\<And>b c. p = [0, b, c] \<Longrightarrow> entry_address e = address_of 0 b c i"
      "\<And>b. p = [0, b] \<Longrightarrow> is_huge e \<Longrightarrow> entry_address e = address_of 0 b i 0"
  shows "bt_inv r h' \<and> grows r h h'"
proof
  note D = bt_invD [OF B]
  have old: "(new \<and> q = p @ [i] \<and> g = n \<and> hw_mem h' g = table_clear) \<or> (descend (hw_mem h) r q = Some g)"
    if "path q" "descend (hw_mem h') r q = Some g" for q g
    using T [OF that(1)] that(2) n by (cases "new \<and> q = p @ [i]") auto
  show "grows r h h'"
    unfolding grows_def
  proof (intro allI impI conjI)
    fix q g assume q: "path q" "descend (hw_mem h) r q = Some g"
    show "hw_mem h' g j = hw_mem h g j" if "is_present (hw_mem h g j)" for j
    proof -
      have "\<not> (q = p \<and> j = i)" using that p(2,5) q(2) by auto
      then show ?thesis by (subst M [OF q]) (rule if_not_P)
    qed
    show "descend (hw_mem h') r q = Some g"
    proof (cases "new \<and> q = p @ [i]")
      case True
      then have "descend (hw_mem h) r q = None" using p(2,5) by (simp add: descend_snoc)
      then show ?thesis using q(2) by simp
    next
      case False
      then show ?thesis using q(2) by (subst T [OF q(1)]) auto
    qed
  qed
  show "bt_inv r h'"
    unfolding bt_inv_def
  proof (intro conjI allI impI)
    show "table_tree (hw_mem h') r"
      unfolding table_tree_def
    proof (intro allI impI)
      fix a b g assume ab: "path a" "path b" "descend (hw_mem h') r a = Some g" "descend (hw_mem h') r b = Some g"
      show "a = b"
        using old [OF ab(1,3)] old [OF ab(2,4)] n ab(1,2) table_treeD [OF D(2) ab(1,2)] by metis
    qed
    show "hw_mem h' r 511 = 0" using M [OF path_Nil, of r 511] D(3) p(4) by auto
  next
    fix q g assume q: "path q" "descend (hw_mem h') r q = Some g"
    show "frame_ok g" using old [OF q] n D(4) [OF q(1)] by blast
    show "page_no g \<notin> free_set (hw_pmm h')" using old [OF q] n D(4) [OF q(1)] pmm(2) by blast
  next
    fix q g j assume q: "path q" "descend (hw_mem h') r q = Some g" "j < 512" "\<not> is_present (hw_mem h' g j)"
    show "hw_mem h' g j = 0"
      using old [OF q(1,2)] M [OF q(1), of g j] D(5) [OF q(1), of g j] q(3,4) e(1) by (auto simp: table_clear_def split: if_splits)
  next
    fix q g j assume q: "path (q @ [j])" "descend (hw_mem h') r q = Some g" "hd (q @ [j]) \<noteq> 0"
    have pq: "path q" using q(1) path_appendD by blast
    have "q \<noteq> p @ [i]" using q(3) p(4) by (cases p) auto
    then have g: "descend (hw_mem h) r q = Some g" using old [OF pq q(2)] by simp
    moreover have "\<not> (q = p \<and> j = i)" using q(3) p(4) by auto
    ultimately show "hw_mem h' g j = 0" using M [OF pq g, of j] D(6) [OF q(1) g q(3)] by auto
  next
    fix q g j assume q: "path (q @ [j])" "descend (hw_mem h') r q = Some g" "length q \<le> 1"
    have pq: "path q" using q(1) path_appendD by blast
    show "\<not> is_huge (hw_mem h' g j)"
      using old [OF pq q(2)] M [OF pq, of g j] D(7) [OF q(1) _ q(3)] e(2) q(3) by (auto simp: table_clear_def is_huge_bit split: if_splits)
  next
    fix b c d g assume q: "path [0, b, c]" "descend (hw_mem h') r [0, b, c] = Some g" "d < 512" "is_present (hw_mem h' g d)"
    have "hw_mem h' g \<noteq> table_clear" using q(4) by (auto simp: table_clear_def)
    then have g: "descend (hw_mem h) r [0, b, c] = Some g" using old [OF q(1,2)] by blast
    show "entry_address (hw_mem h' g d) = address_of 0 b c d"
      using M [OF q(1) g, of d] D(8) [OF q(1) g q(3)] q(4) e(3) by (auto split: if_splits)
  next
    fix b c g assume q: "path [0, b]" "descend (hw_mem h') r [0, b] = Some g" "c < 512" "is_huge (hw_mem h' g c)"
    have "hw_mem h' g \<noteq> table_clear" using q(4) by (auto simp: table_clear_def is_huge_bit)
    then have g: "descend (hw_mem h) r [0, b] = Some g" using old [OF q(1,2)] by blast
    show "entry_address (hw_mem h' g c) = address_of 0 b c 0"
      using M [OF q(1) g, of c] D(9) [OF q(1) g q(3)] q(4) e(4) by (auto split: if_splits)
  qed (rule pmm(1))
qed

lemma bt_link:
  assumes B: "bt_inv r h" and p: "path (p @ [i])" "hd (p @ [i]) = 0" "descend (hw_mem h) r p = Some f" "\<not> is_present (hw_mem h f i)"
    and new: "pmm_inv q" "frame_ok n" "page_no n \<in> free_set (hw_pmm h)" "free_set q = free_set (hw_pmm h) - {page_no n}"
  defines "h1 \<equiv> clear_table n (h\<lparr>hw_pmm := q\<rparr>)"
  defines "h' \<equiv> write_entry f i (set_page (hw_mem h1 f i) n PT_WRITABLE) h1"
  shows "bt_inv r h' \<and> grows r h h' \<and> hw_mem h' f i = set_page 0 n PT_WRITABLE \<and> descend (hw_mem h') r (p @ [i]) = Some n"
proof -
  note D = bt_invD [OF B]
  have pp: "path p" and i: "i < 512" "length p < 3" using p(1) path_appendD path_append_lt [of p i "[]"] by auto
  have fresh: "descend (hw_mem h) r a \<noteq> Some n" if "path a" for a using D(4) [OF that] new(3) by blast
  then have fn: "f \<noteq> n" using p(3) pp by blast
  have zero: "hw_mem h f i = 0" using D(5) [OF pp p(3) i(1) p(4)] .
  let ?e = "set_page 0 n PT_WRITABLE"
  have flags: "entry_address PT_WRITABLE = 0" "\<not> bit PT_WRITABLE 7" by (simp_all add: entry_address_def)
  have e: "is_present ?e" "\<not> is_huge ?e" "entry_address ?e = n"
    using flags frame_ok_address [OF new(2)] by (simp_all add: set_page_simps is_huge_bit entry_address_set_page)
  have mem: "hw_mem h' = (hw_mem h)(f := (hw_mem h f)(i := ?e), n := table_clear)"
    using fn zero by (auto simp: h'_def h1_def write_entry_def clear_table_def fun_eq_iff)
  have T: "descend (hw_mem h') r a = (if True \<and> a = p @ [i] then Some n else descend (hw_mem h) r a)" if "path a" for a
    using descend_link [OF D(2) pp p(3,4) that e fresh] by (simp add: mem)
  have M: "hw_mem h' g j = (if a = p \<and> j = i then ?e else hw_mem h g j)" if "path a" "descend (hw_mem h) r a = Some g" for a g j
  proof -
    have "g \<noteq> n" using fresh [OF that(1)] that(2) by auto
    moreover have "g = f \<longleftrightarrow> a = p" using table_treeD [OF D(2) that(1) pp that(2)] that(2) p(3) by auto
    ultimately show ?thesis by (auto simp: mem)
  qed
  have "hw_pmm h' = q" "hw_mem h' n = table_clear" by (simp_all add: mem) (simp add: h'_def h1_def write_entry_def clear_table_def)
  then have "bt_inv r h' \<and> grows r h h'"
    using e new i p(4) fresh
    by (intro bt_step [OF B pp p(3) i(1) p(2,4) _ _ T M]) auto
  moreover have "hw_mem h' f i = ?e" using M [OF pp p(3), of i] by simp
  ultimately show ?thesis using T [OF p(1)] by simp
qed

lemma boot_table_spec:
  assumes B: "bt_inv r h" and p: "path (p @ [i])" "hd (p @ [i]) = 0" "descend (hw_mem h) r p = Some f"
    and run: "boot_table f i h = (x, h')"
  shows "case x of
      Inl e \<Rightarrow> e \<noteq> ''vmm: page already mapped''
    | Inr _ \<Rightarrow> bt_inv r h' \<and> grows r h h' \<and> is_present (hw_mem h' f i)
        \<and> (\<not> is_huge (hw_mem h' f i) \<longrightarrow> descend (hw_mem h') r (p @ [i]) = Some (entry_address (hw_mem h' f i)))"
proof (cases "is_present (hw_mem h f i)")
  case True
  then have "x = Inr ()" "h' = h" using run by (simp_all add: boot_table_def)
  then show ?thesis using True B grows_refl p(3) by (simp add: descend_snoc)
next
  case False
  obtain y h1 where a: "alloc_zeroed_table h = (y, h1)" by fastforce
  note A = alloc_zeroed_table_spec [OF bt_invD(1) [OF B] a]
  show ?thesis
  proof (cases y)
    case (Inl e)
    then have "x = Inl e" using run a False by (simp add: boot_table_def bbind_def)
    then show ?thesis using A Inl by simp
  next
    case (Inr t)
    then obtain q where q: "h1 = clear_table t (h\<lparr>hw_pmm := q\<rparr>)" "pmm_inv q" "frame_ok t" "page_no t \<in> free_set (hw_pmm h)"
      "free_set q = free_set (hw_pmm h) - {page_no t}" using A by auto
    have x: "x = Inr ()" "h' = write_entry f i (set_page (hw_mem h1 f i) t PT_WRITABLE) h1"
      using run a False Inr by (simp_all add: boot_table_def bbind_def)
    have L: "bt_inv r h' \<and> grows r h h' \<and> hw_mem h' f i = set_page 0 t PT_WRITABLE \<and> descend (hw_mem h') r (p @ [i]) = Some t"
      unfolding x(2) q(1) by (rule bt_link [OF B p False q(2-5)])
    have "entry_address PT_WRITABLE = 0" by (simp add: entry_address_def)
    then have "entry_address (set_page 0 t PT_WRITABLE) = t"
      using frame_ok_address [OF q(3)] by (simp add: entry_address_set_page)
    then show ?thesis using L x(1) by (simp add: set_page_simps)
  qed
qed

section \<open>Addresses below 512 GiB\<close>

lemma high_bits_clear: "unat (v :: u64) < 2 ^ 39 \<Longrightarrow> 39 \<le> n \<Longrightarrow> \<not> bit v n"
proof -
  assume "unat v < 2 ^ 39" "39 \<le> n"
  then have "take_bit 39 v = v" by (simp add: word_unat_eq_iff unsigned_take_bit_eq take_bit_nat_eq_self)
  then show ?thesis using \<open>39 \<le> n\<close> by (metis bit_take_bit_iff linorder_not_le)
qed

lemma bit_idx: "bit (idx k v) j \<longleftrightarrow> j < 9 \<and> bit v (k + j)"
  by (auto simp: idx_def bit_unsigned_iff bit_take_bit_iff bit_drop_bit_eq dest: bit_imp_le_length)

lemma bit_address_low:
  assumes "b < 512" "c < 512" "d < 512"
  shows "bit (address_of 0 b c d) n \<longleftrightarrow> 30 \<le> n \<and> n < 39 \<and> bit b (n - 30)
    \<or> 21 \<le> n \<and> n < 30 \<and> bit c (n - 21) \<or> 12 \<le> n \<and> n < 21 \<and> bit d (n - 12)"
proof (cases "n < 48")
  case True
  have "take_bit 9 b = b" using assms(1) by (simp add: take_bit_nat_eq_self)
  then have "bit b (n - 30) \<Longrightarrow> n - 30 < 9" by (metis bit_take_bit_iff)
  then show ?thesis using bit_address_of [of 0 b c d n] assms True by auto
next
  case False
  have "\<not> bit (address_of 0 b c d) 47" using bit_address_of [of 0 b c d 47] assms by simp
  then have "\<not> bit (address_of 0 b c d) n"
    using False unfolding address_of_def by (simp add: bit_canonicalize_48)
  then show ?thesis using False by simp
qed

lemma bit_align_down: "bit (align_down v PAGE_SIZE) n \<longleftrightarrow> bit v n \<and> 12 \<le> n"
  unfolding align_down_def PAGE_SIZE_mask by (auto simp: bit_simps dest: bit_imp_le_length)

lemma low_address:
  assumes "unat v < 2 ^ 39"
  shows "idx 39 v = 0" "canonicalize_48 v = v"
    "align_down v PAGE_SIZE = address_of 0 (idx 30 v) (idx 21 v) (idx 12 v)"
    "(address_of 0 (idx 30 v) (idx 21 v) 0 AND NOT (mask 21)) OR (take_bit 21 v AND NOT (mask 12)) = align_down v PAGE_SIZE"
proof -
  note H = high_bits_clear [OF assms]
  show "idx 39 v = 0" using assms by (simp add: idx_unat)
  show "canonicalize_48 v = v" by (rule bit_eqI) (auto simp: bit_canonicalize_48 H dest: bit_imp_le_length)
  have split: "n < 12 \<or> 12 \<le> n \<and> n < 21 \<or> 21 \<le> n \<and> n < 30 \<or> 30 \<le> n \<and> n < 39 \<or> 39 \<le> n" for n :: nat by linarith
  show "align_down v PAGE_SIZE = address_of 0 (idx 30 v) (idx 21 v) (idx 12 v)"
  proof (rule bit_eqI)
    fix n show "bit (align_down v PAGE_SIZE) n = bit (address_of 0 (idx 30 v) (idx 21 v) (idx 12 v)) n"
      using split [of n] H [of n] by (elim disjE) (simp_all add: bit_align_down bit_address_low bit_idx less_diff_conv2)
  qed
  show "(address_of 0 (idx 30 v) (idx 21 v) 0 AND NOT (mask 21)) OR (take_bit 21 v AND NOT (mask 12)) = align_down v PAGE_SIZE"
  proof (rule bit_eqI)
    fix n assume "possible_bit TYPE(64 word) n"
    then show "bit ((address_of 0 (idx 30 v) (idx 21 v) 0 AND NOT (mask 21)) OR (take_bit 21 v AND NOT (mask 12))) n = bit (align_down v PAGE_SIZE) n"
      using split [of n] H [of n]
      by (elim disjE) (simp_all add: bit_or_iff bit_and_iff bit_not_iff bit_mask_iff bit_take_bit_iff bit_align_down bit_address_low bit_idx less_diff_conv2)
  qed
qed

section \<open>Pages mapped to themselves\<close>

definition mapped :: "u64 \<Rightarrow> paging_hw \<Rightarrow> u64 \<Rightarrow> bool" where
  "mapped r h v \<longleftrightarrow> (\<exists>pd. descend (hw_mem h) r [0, idx 30 v] = Some pd \<and> is_present (hw_mem h pd (idx 21 v))
     \<and> (is_huge (hw_mem h pd (idx 21 v)) \<or> (\<exists>pt. descend (hw_mem h) r [0, idx 30 v, idx 21 v] = Some pt
          \<and> is_present (hw_mem h pt (idx 12 v)))))"

definition ident :: "u64 \<Rightarrow> paging_hw \<Rightarrow> bool" where
  "ident r h \<longleftrightarrow> (\<forall>b c d f. path [0, b, c] \<longrightarrow> descend (hw_mem h) r [0, b, c] = Some f \<longrightarrow> d < 512 \<longrightarrow> is_present (hw_mem h f d)
          \<longrightarrow> entry_address (hw_mem h f d) = address_of 0 b c d)
     \<and> (\<forall>b c f. path [0, b] \<longrightarrow> descend (hw_mem h) r [0, b] = Some f \<longrightarrow> c < 512 \<longrightarrow> is_huge (hw_mem h f c)
          \<longrightarrow> entry_address (hw_mem h f c) = address_of 0 b c 0)"

lemma bt_ident: "bt_inv r h \<Longrightarrow> ident r h"
  unfolding bt_inv_def ident_def by blast

lemma low_paths: "path [0]" "path [0, idx 30 v]" "path [0, idx 30 v, idx 21 v]"
  by (simp_all add: path_def)

lemma grows_mapped:
  assumes "grows r h h'" "mapped r h v"
  shows "mapped r h' v"
proof -
  have G: "descend (hw_mem h') r q = Some f" "is_present (hw_mem h f i) \<Longrightarrow> hw_mem h' f i = hw_mem h f i"
    if "path q" "descend (hw_mem h) r q = Some f" for q f i
    using assms(1) that unfolding grows_def by blast+
  obtain pd where pd: "descend (hw_mem h) r [0, idx 30 v] = Some pd" "is_present (hw_mem h pd (idx 21 v))"
    "is_huge (hw_mem h pd (idx 21 v)) \<or> (\<exists>pt. descend (hw_mem h) r [0, idx 30 v, idx 21 v] = Some pt \<and> is_present (hw_mem h pt (idx 12 v)))"
    using assms(2) unfolding mapped_def by blast
  note g = G [OF low_paths(2) pd(1)]
  have e: "hw_mem h' pd (idx 21 v) = hw_mem h pd (idx 21 v)" using g(2) pd(2) by blast
  have "is_huge (hw_mem h' pd (idx 21 v)) \<or> (\<exists>pt. descend (hw_mem h') r [0, idx 30 v, idx 21 v] = Some pt \<and> is_present (hw_mem h' pt (idx 12 v)))"
    using pd(3)
  proof
    assume "\<exists>pt. descend (hw_mem h) r [0, idx 30 v, idx 21 v] = Some pt \<and> is_present (hw_mem h pt (idx 12 v))"
    then obtain pt where pt: "descend (hw_mem h) r [0, idx 30 v, idx 21 v] = Some pt" "is_present (hw_mem h pt (idx 12 v))" by blast
    have "descend (hw_mem h') r [0, idx 30 v, idx 21 v] = Some pt" "hw_mem h' pt (idx 12 v) = hw_mem h pt (idx 12 v)"
      using G [OF low_paths(3) pt(1)] pt(2) by blast+
    then show ?thesis using pt(2) by metis
  qed (metis e)
  then show ?thesis using g(1) e pd(2) unfolding mapped_def by metis
qed

lemma mapped_mmu:
  assumes I: "ident (hw_cr3 h) h" and v: "unat v < 2 ^ 39" and m: "mapped (hw_cr3 h) h v"
  shows "mmu h v = Some (align_down v PAGE_SIZE)"
proof -
  define r where "r = hw_cr3 h"
  obtain pd where pd: "descend (hw_mem h) r [0, idx 30 v] = Some pd" "is_present (hw_mem h pd (idx 21 v))"
    "is_huge (hw_mem h pd (idx 21 v)) \<or> (\<exists>pt. descend (hw_mem h) r [0, idx 30 v, idx 21 v] = Some pt \<and> is_present (hw_mem h pt (idx 12 v)))"
    using m unfolding mapped_def r_def by blast
  have e4: "is_present (hw_mem h r 0)" using pd(1) by (simp split: if_splits)
  define e3 where "e3 = hw_mem h (entry_address (hw_mem h r 0)) (idx 30 v)"
  have e3: "is_present e3" "\<not> is_huge e3" "entry_address e3 = pd" using pd(1) by (simp_all add: e3_def split: if_splits)
  note L = low_address [OF v]
  show ?thesis
  proof (cases "is_huge (hw_mem h pd (idx 21 v))")
    case True
    have "entry_address (hw_mem h pd (idx 21 v)) = address_of 0 (idx 30 v) (idx 21 v) 0"
      using I low_paths(2) pd(1) True unfolding ident_def r_def by (metis idx_less)
    then have "large_frame 21 (hw_mem h pd (idx 21 v)) v = align_down v PAGE_SIZE" using L(4) by (simp add: large_frame_def)
    then show ?thesis
      using e4 e3 pd(2) True L(1,2) by (simp add: mmu_def level_indices_eq Let_def flip: r_def e3_def)
  next
    case False
    then obtain pt where pt: "descend (hw_mem h) r [0, idx 30 v, idx 21 v] = Some pt" "is_present (hw_mem h pt (idx 12 v))"
      using pd(3) by blast
    have "pt = entry_address (hw_mem h pd (idx 21 v))"
      using descend_snoc [OF pd(1), of "idx 21 v"] pt(1) pd(2) False by simp
    moreover have "entry_address (hw_mem h pt (idx 12 v)) = align_down v PAGE_SIZE"
      using I low_paths(3) pt unfolding ident_def r_def L(3) by (metis idx_less)
    ultimately show ?thesis
      using e4 e3 pd(2) pt(2) False L(1,2) by (simp add: mmu_def level_indices_eq Let_def flip: r_def e3_def)
  qed
qed

lemma large_page_self:
  assumes v: "unat v < 2 ^ 39" "unat v mod 4096 = 0"
  shows "saturating_add (address_of 0 (idx 30 v) (idx 21 v) 0) (v AND 0x1fffff) = v"
proof -
  let ?a = "address_of 0 (idx 30 v) (idx 21 v) 0"
  note H = high_bits_clear [OF v(1)]
  have m: "v AND 0x1fffff = take_bit 21 v" by (simp add: take_bit_eq_mask mask_eq_exp_minus_1)
  have sum: "?a + take_bit 21 v = ?a OR take_bit 21 v"
    by (rule disjunctive_add) (auto simp: bit_address_low bit_take_bit_iff)
  have split: "n < 21 \<or> 21 \<le> n \<and> n < 30 \<or> 30 \<le> n \<and> n < 39 \<or> 39 \<le> n" for n :: nat by linarith
  have "?a OR take_bit 21 v = v"
  proof (rule bit_eqI)
    fix n show "bit (?a OR take_bit 21 v) n = bit v n"
      using split [of n] H [of n] by (elim disjE) (simp_all add: bit_or_iff bit_address_low bit_take_bit_iff bit_idx less_diff_conv2)
  qed
  moreover have "unat ?a + unat (take_bit 21 v) < 2 ^ LENGTH(64)"
  proof -
    have "take_bit 39 ?a = ?a" by (rule bit_eqI) (auto simp: bit_take_bit_iff bit_address_low)
    then have "unat ?a = take_bit 39 (unat ?a)" by (metis unsigned_take_bit_eq)
    then have "unat ?a < 2 ^ 39" by (metis take_bit_nat_less_exp)
    moreover have "unat (take_bit 21 v) < 2 ^ 21" by (simp only: unsigned_take_bit_eq take_bit_nat_less_exp)
    ultimately show ?thesis by simp
  qed
  ultimately show ?thesis unfolding m saturating_add_def using sum by simp
qed

lemma aligned_self: "unat v mod 4096 = 0 \<Longrightarrow> align_down v PAGE_SIZE = v"
  using div_mult_mod_eq [of "unat v" 4096] by (simp add: word_unat_eq_iff unat_align_down)

text \<open>Writing a leaf or a large page does not change the tree.\<close>

lemma bt_write:
  assumes B: "bt_inv r h" and p: "path p" "descend (hw_mem h) r p = Some f" "i < 512" "\<not> is_present (hw_mem h f i)" "is_present e"
    and e: "(\<exists>b c. p = [0, b, c] \<and> entry_address e = address_of 0 b c i) \<or> (\<exists>b. p = [0, b] \<and> is_huge e \<and> entry_address e = address_of 0 b i 0)"
  defines "h' \<equiv> write_entry f i e h"
  shows "bt_inv r h' \<and> grows r h h' \<and> hw_mem h' f i = e"
proof -
  note D = bt_invD [OF B]
  have mem: "hw_mem h' = (hw_mem h)(f := (hw_mem h f)(i := e))" "hw_pmm h' = hw_pmm h" by (simp_all add: h'_def write_entry_def)
  have T: "descend (hw_mem h') r q = (if False \<and> q = p @ [i] then Some 0 else descend (hw_mem h) r q)" if q: "path q" for q
  proof (cases "\<exists>s. q = p @ i # s")
    case True
    then obtain s where s: "q = p @ i # s" by blast
    then have "length p < 3" using q by (simp add: path_def)
    then have "is_huge e" using e by auto
    moreover have "descend (hw_mem h') r p = descend (hw_mem h) r p"
      unfolding mem by (rule descend_write_other [OF D(2) p(1,2) p(1), where i = i]) auto
    ultimately show ?thesis using p(2,4) by (simp add: s descend_append mem)
  next
    case False
    then have "descend (hw_mem h') r q = descend (hw_mem h) r q"
      unfolding mem by (intro descend_write_other [OF D(2) p(1,2) q, where i = i]) auto
    then show ?thesis by simp
  qed
  have M: "hw_mem h' g j = (if a = p \<and> j = i then e else hw_mem h g j)" if "path a" "descend (hw_mem h) r a = Some g" for a g j
  proof -
    have "g = f \<longleftrightarrow> a = p" using table_treeD [OF D(2) that(1) p(1) that(2)] that(2) p(2) by auto
    then show ?thesis by (auto simp: mem)
  qed
  have hd: "hd (p @ [i]) = 0" using e by auto
  have "bt_inv r h' \<and> grows r h h'"
    by (rule bt_step [OF B p(1,2,3) hd p(4) _ _ T M]) (use p(5) e D(1) in \<open>auto simp: mem\<close>)
  then show ?thesis by (simp add: mem)
qed

lemma map_kernel_page_spec:
  assumes B: "bt_inv r h" and v: "unat v < 2 ^ 39" "unat v mod 4096 = 0" and run: "map_kernel_page r v v fl h = (x, h')"
  shows "case x of
      Inl e \<Rightarrow> e \<noteq> ''vmm: page already mapped''
    | Inr _ \<Rightarrow> bt_inv r h' \<and> grows r h h' \<and> mapped r h' v"
proof -
  define b c d where "b = idx 30 v" and "c = idx 21 v" and "d = idx 12 v"
  have lt: "b < 512" "c < 512" "d < 512" by (simp_all add: b_def c_def d_def)
  have P: "path ([] @ [0])" "path ([0] @ [b])" "path ([0, b] @ [c])" using low_paths(1) low_paths(2,3) [of v] by (simp_all add: b_def c_def)
  have z: "idx 39 v = 0" by (rule low_address(1) [OF v(1)])
  obtain x1 h1 where t1: "boot_table r 0 h = (x1, h1)" by fastforce
  note S1 = boot_table_spec [OF B P(1) _ _ t1, simplified]
  show ?thesis
  proof (cases x1)
    case (Inl e)
    then have "x = Inl e" using run t1 by (simp add: map_kernel_page_def level_indices_eq z bbind_def)
    then show ?thesis using S1 Inl by simp
  next
    case (Inr u1)
    have B1: "bt_inv r h1" "grows r h h1" "is_present (hw_mem h1 r 0)" using S1 Inr by simp_all
    have "\<not> is_huge (hw_mem h1 r 0)" using bt_invD(7) [OF B1(1) P(1), of r] by simp
    then have d1: "descend (hw_mem h1) r [0] = Some (entry_address (hw_mem h1 r 0))" using S1 Inr by simp
    define pdpt where "pdpt = entry_address (hw_mem h1 r 0)"
    obtain x2 h2 where t2: "boot_table pdpt b h1 = (x2, h2)" by fastforce
    note S2 = boot_table_spec [OF B1(1) P(2) _ d1 [folded pdpt_def] t2, simplified]
    show ?thesis
    proof (cases x2)
      case (Inl e)
      then have "x = Inl e" using run t1 Inr t2
        by (simp add: map_kernel_page_def level_indices_eq z bbind_def b_def pdpt_def)
      then show ?thesis using S2 Inl by simp
    next
      case (Inr u2)
      have B2: "bt_inv r h2" "grows r h1 h2" "is_present (hw_mem h2 pdpt b)" using S2 Inr by simp_all
      have dp: "descend (hw_mem h2) r [0] = Some pdpt" using B2(2) low_paths(1) d1 unfolding grows_def pdpt_def by blast
      have "\<not> is_huge (hw_mem h2 pdpt b)" using bt_invD(7) [OF B2(1) P(2) dp] by simp
      then have d2: "descend (hw_mem h2) r [0, b] = Some (entry_address (hw_mem h2 pdpt b))" using S2 Inr by simp
      define pd where "pd = entry_address (hw_mem h2 pdpt b)"
      obtain x3 h3 where t3: "boot_table pd c h2 = (x3, h3)" by fastforce
      note S3 = boot_table_spec [OF B2(1) P(3) _ d2 [folded pd_def] t3, simplified]
      show ?thesis
      proof (cases x3)
        case (Inl e)
        then have "x = Inl e" using run t1 \<open>x1 = Inr u1\<close> t2 Inr t3
          by (simp add: map_kernel_page_def level_indices_eq z bbind_def b_def c_def pdpt_def pd_def)
        then show ?thesis using S3 Inl by simp
      next
        case (Inr u3)
        have B3: "bt_inv r h3" "grows r h2 h3" "is_present (hw_mem h3 pd c)"
          "\<not> is_huge (hw_mem h3 pd c) \<Longrightarrow> descend (hw_mem h3) r [0, b, c] = Some (entry_address (hw_mem h3 pd c))"
          using S3 Inr by simp_all
        have d3: "descend (hw_mem h3) r [0, b] = Some pd" unfolding pd_def by (rule growsD(1) [OF B3(2) _ d2]) (use P(2) in simp)
        have G: "grows r h h3" using grows_trans [OF grows_trans [OF B1(2) B2(2)] B3(2)] .
        have rest: "(x, h') = (if is_huge (hw_mem h3 pd c)
           then (if saturating_add (entry_address (hw_mem h3 pd c)) (v AND 0x1fffff) = v then (Inr False, h3)
                 else (Inl ''vmm: page already mapped'', h3))
           else if is_present (hw_mem h3 (entry_address (hw_mem h3 pd c)) d)
             then (if entry_address (hw_mem h3 (entry_address (hw_mem h3 pd c)) d) = v then (Inr False, h3)
                   else (Inl ''vmm: page already mapped'', h3))
             else (Inr True, write_entry (entry_address (hw_mem h3 pd c)) d
                (set_page (hw_mem h3 (entry_address (hw_mem h3 pd c)) d) v (leaf_flags fl OR PT_PRESENT)) h3))"
          unfolding run [symmetric] map_kernel_page_def level_indices_eq z prod.case b_def [symmetric] c_def [symmetric] d_def [symmetric]
            t1 \<open>x1 = Inr u1\<close> bbind_def sum.case Let_def pdpt_def [symmetric] t2 \<open>x2 = Inr u2\<close> pd_def [symmetric] t3 Inr ..
        show ?thesis
        proof (cases "is_huge (hw_mem h3 pd c)")
          case True
          have "entry_address (hw_mem h3 pd c) = address_of 0 b c 0"
            using bt_invD(9) [OF B3(1) _ d3 lt(2) True] P(2) by simp
          then have "saturating_add (entry_address (hw_mem h3 pd c)) (v AND 0x1fffff) = v"
            using large_page_self [OF v] by (simp add: b_def c_def)
          then have "x = Inr False" "h' = h3" using rest True by simp_all
          moreover have "mapped r h3 v" using d3 B3(3) True unfolding mapped_def b_def c_def by blast
          ultimately show ?thesis using B3(1) G by simp
        next
          case False
          define pt where "pt = entry_address (hw_mem h3 pd c)"
          have d4: "descend (hw_mem h3) r [0, b, c] = Some pt" using B3(4) [OF False] by (simp add: pt_def)
          have va: "address_of 0 b c d = v" using low_address(3) [OF v(1)] aligned_self [OF v(2)] by (simp add: b_def c_def d_def)
          have pp: "path [0, b, c]" using P(3) by simp
          show ?thesis
          proof (cases "is_present (hw_mem h3 pt d)")
            case True
            have "entry_address (hw_mem h3 pt d) = v" using bt_invD(8) [OF B3(1) pp d4 lt(3) True] va by simp
            then have "x = Inr False" "h' = h3" using rest False True by (simp_all add: pt_def)
            moreover have "mapped r h3 v" using d3 d4 B3(3) True unfolding mapped_def b_def c_def d_def by blast
            ultimately show ?thesis using B3(1) G by simp
          next
            case absent: False
            have zero: "hw_mem h3 pt d = 0" using bt_invD(5) [OF B3(1) pp d4 lt(3) absent] .
            define e where "e = set_page 0 v (leaf_flags fl OR PT_PRESENT)"
            have x: "x = Inr True" "h' = write_entry pt d e h3" using rest False absent zero by (simp_all add: pt_def e_def)
            have "frame_ok v" using v by (simp add: frame_ok_def)
            moreover have "entry_address (leaf_flags fl OR PT_PRESENT) = 0"
            proof -
              have "entry_address (a OR PT_PRESENT) = entry_address a" for a
                by (rule bit_eqI) (auto simp: bit_entry_address bit_or_iff bit_1_iff)
              then show ?thesis by (simp add: leaf_flags_bits)
            qed
            ultimately have "entry_address e = address_of 0 b c d"
              by (simp add: e_def entry_address_set_page frame_ok_address va)
            then have W: "bt_inv r h'" "grows r h3 h'" "hw_mem h' pt d = e"
              unfolding x(2) using bt_write [OF B3(1) pp d4 lt(3) absent, of e] by (simp_all add: e_def set_page_simps)
            have pres: "is_present (hw_mem h' pt d)" using W by (simp add: e_def set_page_simps)
            have "descend (hw_mem h') r [0, b] = Some pd" "hw_mem h' pd c = hw_mem h3 pd c" "descend (hw_mem h') r [0, b, c] = Some pt"
              using growsD(1) [OF W(2) _ d3] growsD(2) [OF W(2) _ d3, of c] growsD(1) [OF W(2) pp d4] P(2) B3(3) by simp_all
            then have "mapped r h' v" using pres B3(3) unfolding mapped_def b_def c_def d_def by metis
            then show ?thesis using W x(1) grows_trans [OF G] by simp
          qed
        qed
      qed
    qed
  qed
qed

section \<open>The first GiB\<close>

lemma bt_init:
  assumes "pmm_inv (hw_pmm h)" "frame_ok r" "page_no r \<notin> free_set (hw_pmm h)" "hw_mem h r = table_clear"
  shows "bt_inv r h"
proof -
  have d: "descend (hw_mem h) r q = (if q = [] then Some r else None)" for q
    using assms(4) by (cases q) (simp_all add: table_clear_def)
  have "\<not> is_present 0" "\<not> is_huge 0" by (simp_all add: is_huge_bit)
  then show ?thesis
    unfolding bt_inv_def table_tree_def d using assms by (auto simp: table_clear_def)
qed

lemma bt_alloc:
  assumes B: "bt_inv r h" and p: "path (p @ [i])" "hd (p @ [i]) = 0" "descend (hw_mem h) r p = Some f" "\<not> is_present (hw_mem h f i)"
    and a: "alloc_zeroed_table h = (Inr t, h1)"
  defines "h' \<equiv> write_entry f i (set_page (hw_mem h1 f i) t PT_WRITABLE) h1"
  shows "bt_inv r h'" "grows r h h'" "descend (hw_mem h') r (p @ [i]) = Some t" "hw_mem h' t = table_clear"
proof -
  obtain q where q: "h1 = clear_table t (h\<lparr>hw_pmm := q\<rparr>)" "pmm_inv q" "frame_ok t" "page_no t \<in> free_set (hw_pmm h)"
    "free_set q = free_set (hw_pmm h) - {page_no t}" using alloc_zeroed_table_spec [OF bt_invD(1) [OF B] a] by auto
  show "bt_inv r h'" "grows r h h'" "descend (hw_mem h') r (p @ [i]) = Some t"
    unfolding h'_def q(1) using bt_link [OF B p q(2-5)] by blast+
  have "path p" using p(1) path_appendD by blast
  then have "f \<noteq> t" using bt_invD(4) [OF B _ p(3)] q(4) by blast
  then show "hw_mem h' t = table_clear" by (simp add: h'_def q(1) write_entry_def clear_table_def)
qed

abbreviation big_entry :: "nat \<Rightarrow> u64" where
  "big_entry i \<equiv> set_page 0 (of_nat i * 0x200000) (PT_WRITABLE OR PT_PRESENT OR PT_GLOBAL OR PT_HUGE)"

lemma big_entry:
  assumes "i < 512"
  shows "is_present (big_entry i)" "is_huge (big_entry i)" "entry_address (big_entry i) = address_of 0 0 i 0"
proof -
  show "is_present (big_entry i)" by (simp add: set_page_simps)
  show "is_huge (big_entry i)" by (simp add: is_huge_bit bit_set_page bit_or_iff bit_push_bit_iff)
  have "take_bit 9 i = i" using assms by (simp add: take_bit_nat_eq_self)
  then have i: "bit i k \<Longrightarrow> k < 9" for k by (metis bit_take_bit_iff)
  have "of_nat i * 0x200000 = (push_bit 21 (of_nat i) :: u64)" by (simp add: push_bit_eq_mult)
  moreover have "entry_address (push_bit 21 (of_nat i)) = address_of 0 0 i 0"
    by (rule bit_eqI) (use i in \<open>force simp: bit_entry_address bit_address_low [OF _ assms] bit_push_bit_iff bit_of_nat_iff\<close>)
  moreover have "entry_address (PT_WRITABLE OR PT_PRESENT OR PT_GLOBAL OR PT_HUGE) = 0" by (simp add: entry_address_def)
  ultimately show "entry_address (big_entry i) = address_of 0 0 i 0" by (simp only: entry_address_set_page)
qed

lemma big_entries:
  assumes B: "bt_inv r h" and d: "descend (hw_mem h) r [0, 0] = Some pd" and z: "hw_mem h pd = table_clear" and k: "k \<le> 512"
  defines "h' \<equiv> fold (\<lambda>i h. write_entry pd i (set_page (hw_mem h pd i) (of_nat i * 0x200000)
                (PT_WRITABLE OR PT_PRESENT OR PT_GLOBAL OR PT_HUGE)) h) [0..<k] h"
  shows "bt_inv r h' \<and> grows r h h' \<and> (\<forall>j. hw_mem h' pd j = (if j < k then big_entry j else 0))"
  unfolding h'_def using k
proof (induction k)
  case 0
  then show ?case using B z by (simp add: grows_refl table_clear_def)
next
  case (Suc k)
  define g where "g = fold (\<lambda>i h. write_entry pd i (set_page (hw_mem h pd i) (of_nat i * 0x200000)
                (PT_WRITABLE OR PT_PRESENT OR PT_GLOBAL OR PT_HUGE)) h) [0..<k] h"
  have I: "bt_inv r g" "grows r h g" "\<And>j. hw_mem g pd j = (if j < k then big_entry j else 0)"
    using Suc unfolding g_def by simp_all
  have pp: "path [0, 0]" by (simp add: path_def)
  have k: "k < 512" using Suc.prems by simp
  have dg: "descend (hw_mem g) r [0, 0] = Some pd" by (rule growsD(1) [OF I(2) pp d])
  have np: "\<not> is_present (hw_mem g pd k)" by (simp add: I(3))
  have W: "bt_inv r (write_entry pd k (big_entry k) g) \<and> grows r g (write_entry pd k (big_entry k) g)"
    using bt_write [OF I(1) pp dg k np big_entry(1) [OF k]] big_entry(2,3) [OF k] by simp
  have "fold (\<lambda>i h. write_entry pd i (set_page (hw_mem h pd i) (of_nat i * 0x200000)
                (PT_WRITABLE OR PT_PRESENT OR PT_GLOBAL OR PT_HUGE)) h) [0..<Suc k] h = write_entry pd k (big_entry k) g"
    using I(3) [of k] by (simp add: g_def)
  moreover have "hw_mem (write_entry pd k (big_entry k) g) pd j = (if j < Suc k then big_entry j else 0)" for j
    using I(3) [of j] by (simp add: write_entry_def)
  ultimately show ?case using W grows_trans [OF I(2)] by simp
qed

text \<open>What the ranges rely on: every address of the first GiB is on a large page.\<close>

definition low_large :: "u64 \<Rightarrow> paging_hw \<Rightarrow> bool" where
  "low_large r h \<longleftrightarrow> (\<exists>pd. descend (hw_mem h) r [0, 0] = Some pd \<and> (\<forall>c<512. is_present (hw_mem h pd c) \<and> is_huge (hw_mem h pd c)))"

lemma low_index: "unat v < 2 ^ 30 \<Longrightarrow> idx 30 v = 0"
  by (simp add: idx_unat)

lemma low_large_mapped: "low_large r h \<Longrightarrow> unat v < 2 ^ 30 \<Longrightarrow> mapped r h v"
  unfolding low_large_def mapped_def using low_index [of v] idx_less [of 21 v] by metis

lemma grows_low_large:
  assumes "grows r h h'" "low_large r h"
  shows "low_large r h'"
proof -
  obtain pd where pd: "descend (hw_mem h) r [0, 0] = Some pd" "\<And>c. c < 512 \<Longrightarrow> is_present (hw_mem h pd c) \<and> is_huge (hw_mem h pd c)"
    using assms(2) unfolding low_large_def by blast
  have "path [0, 0]" by (simp add: path_def)
  note g = growsD [OF assms(1) this pd(1)]
  show ?thesis unfolding low_large_def using g(1) g(2) pd(2) by metis
qed

lemma map_identity_low_mem_spec:
  assumes B: "bt_inv r h" and np: "\<not> is_present (hw_mem h r 0)" and run: "map_identity_low_mem r h = (Inr x, h')"
  shows "bt_inv r h'" "low_large r h'"
proof -
  have P: "path ([] @ [0])" "path ([0] @ [0])" by (simp_all add: path_def)
  obtain y1 h1 where a1: "alloc_zeroed_table h = (y1, h1)" by fastforce
  then obtain pdpt where y1: "y1 = Inr pdpt" using run by (cases y1) (simp_all add: map_identity_low_mem_def bbind_def)
  define h2 where "h2 = write_entry r 0 (set_page (hw_mem h1 r 0) pdpt PT_WRITABLE) h1"
  have d0: "hd ([] @ [0 :: nat]) = 0" "hd ([0] @ [0 :: nat]) = 0" "descend (hw_mem h) r [] = Some r" by simp_all
  note A1 = bt_alloc [OF B P(1) d0(1,3) np a1 [unfolded y1], folded h2_def]
  obtain y2 h3 where a2: "alloc_zeroed_table h2 = (y2, h3)" by fastforce
  obtain pd where y2: "y2 = Inr pd"
    using run unfolding map_identity_low_mem_def a1 y1 bbind_def prod.case sum.case Let_def h2_def [symmetric] a2
    by (cases y2) simp_all
  have np2: "\<not> is_present (hw_mem h2 pdpt 0)" using A1(4) by (simp add: table_clear_def)
  have d2: "descend (hw_mem h2) r [0] = Some pdpt" using A1(3) by simp
  define h4 where "h4 = write_entry pdpt 0 (set_page (hw_mem h3 pdpt 0) pd PT_WRITABLE) h3"
  note A2 = bt_alloc [OF A1(1) P(2) d0(2) d2 np2 a2 [unfolded y2], folded h4_def]
  have d4: "descend (hw_mem h4) r [0, 0] = Some pd" using A2(3) by simp
  define n :: nat where "n = 512"
  have h': "h' = fold (\<lambda>i h. write_entry pd i (set_page (hw_mem h pd i) (of_nat i * 0x200000)
                (PT_WRITABLE OR PT_PRESENT OR PT_GLOBAL OR PT_HUGE)) h) [0..<n] h4"
    using run unfolding map_identity_low_mem_def a1 y1 bbind_def prod.case sum.case Let_def h2_def [symmetric] a2 y2 h4_def [symmetric] n_def [symmetric]
    by simp
  have E: "bt_inv r h'" "grows r h4 h'" "\<And>j. hw_mem h' pd j = (if j < n then big_entry j else 0)"
    using big_entries [OF A2(1) d4 A2(4), of n] unfolding h' by (simp_all add: n_def)
  show "bt_inv r h'" by (rule E(1))
  have "path [0, 0]" by (simp add: path_def)
  then have "descend (hw_mem h') r [0, 0] = Some pd" using growsD(1) [OF E(2) _ d4] by blast
  moreover have "is_present (hw_mem h' pd c) \<and> is_huge (hw_mem h' pd c)" if "c < 512" for c
    using that big_entry(1,2) [OF that] by (simp add: E(3) n_def)
  ultimately show "low_large r h'" unfolding low_large_def by blast
qed

section \<open>Ranges\<close>

lemma same_page_mapped:
  assumes "unat v div 4096 = unat u div 4096" "mapped r h u"
  shows "mapped r h v"
proof -
  have "unat v div 2 ^ (12 + k) = unat u div 2 ^ (12 + k)" for k
    using assms(1) by (simp add: power_add div_mult2_eq)
  from this [of 0] this [of 9] this [of 18] have "idx 12 v = idx 12 u" "idx 21 v = idx 21 u" "idx 30 v = idx 30 u"
    by (simp_all add: idx_unat)
  then show ?thesis using assms(2) unfolding mapped_def by metis
qed

lemma range_loop_spec:
  assumes "bt_inv r h" "unat current mod 4096 = 0" "unat limit \<le> 2 ^ 39" "range_loop r current limit fl h = (Inr x, h')"
  shows "bt_inv r h' \<and> grows r h h' \<and> (\<forall>v. unat current \<le> unat v \<longrightarrow> unat v < unat limit \<longrightarrow> mapped r h' v)"
  using assms
proof (induction r current limit fl h rule: range_loop.induct)
  case (1 r current limit fl h)
  show ?case
  proof (cases "current < limit")
    case False
    then have "h' = h" using 1(6) by (simp add: range_loop.simps [of r current])
    then show ?thesis using 1(3) False by (simp add: grows_refl word_less_nat_alt)
  next
    case True
    then have lt: "unat current < 2 ^ 39" using 1(5) by (simp add: word_less_nat_alt)
    obtain y h1 where m: "map_kernel_page r current current fl h = (y, h1)" by fastforce
    note S = map_kernel_page_spec [OF 1(3) lt 1(4) m]
    have ok: "\<exists>b. y = Inr b" using 1(6) True m S by (cases y) (auto simp: range_loop.simps [of r current])
    then obtain b where y: "y = Inr b" by blast
    have B: "bt_inv r h1" "grows r h h1" "mapped r h1 current" using S y by simp_all
    have run: "range_loop r (saturating_add current PAGE_SIZE) limit fl h1 = (Inr x, h')"
      using 1(6) True m y by (simp add: range_loop.simps [of r current])
    have nxt: "unat (saturating_add current PAGE_SIZE) = unat current + 4096"
      using lt by (simp add: unat_saturating_add PAGE_SIZE_mask)
    have IH: "bt_inv r h'" "grows r h1 h'"
      "\<And>v. unat current + 4096 \<le> unat v \<Longrightarrow> unat v < unat limit \<Longrightarrow> mapped r h' v"
      using 1(2) [OF True m [symmetric] y B(1) _ 1(5) run] 1(4) nxt by simp_all
    have "mapped r h' v" if "unat current \<le> unat v" "unat v < unat limit" for v
    proof (cases "unat current + 4096 \<le> unat v")
      case False
      have "unat current div 4096 * 4096 = unat current" using 1(4) div_mult_mod_eq [of "unat current" 4096] by linarith
      then have "unat v div 4096 = unat current div 4096" using False that(1) by (intro div_nat_eqI) simp_all
      then show ?thesis using same_page_mapped grows_mapped [OF IH(2) B(3)] by blast
    qed (use IH(3) that in blast)
    then show ?thesis using IH(1,2) grows_trans [OF B(2)] by blast
  qed
qed

text \<open>A range of the first GiB is covered already; mapping it changes nothing and cannot fail.\<close>

lemma map_kernel_page_low:
  assumes B: "bt_inv r h" and L: "low_large r h" and v: "unat v < 2 ^ 30" "unat v mod 4096 = 0"
  shows "map_kernel_page r v v fl h = (Inr False, h)"
proof -
  have z: "idx 39 v = 0" "idx 30 v = 0" using v(1) low_index [of v] low_address(1) [of v] by simp_all
  obtain pd where pd: "descend (hw_mem h) r [0, 0] = Some pd" "is_present (hw_mem h pd (idx 21 v))" "is_huge (hw_mem h pd (idx 21 v))"
    using L idx_less [of 21 v] unfolding low_large_def by blast
  have e: "is_present (hw_mem h r 0)" "is_present (hw_mem h (entry_address (hw_mem h r 0)) 0)"
    "entry_address (hw_mem h (entry_address (hw_mem h r 0)) 0) = pd"
    using pd(1) by (simp_all split: if_splits)
  have "path [0, 0]" by (simp add: path_def)
  then have "entry_address (hw_mem h pd (idx 21 v)) = address_of 0 0 (idx 21 v) 0"
    using bt_invD(9) [OF B _ pd(1) _ pd(3)] by simp
  then have "saturating_add (entry_address (hw_mem h pd (idx 21 v))) (v AND 0x1fffff) = v"
    using large_page_self [of v] v z(2) by simp
  then show ?thesis
    using pd(2,3) e by (simp add: map_kernel_page_def level_indices_eq z boot_table_def bbind_def Let_def)
qed

lemma range_loop_low:
  assumes "bt_inv r h" "low_large r h" "unat current mod 4096 = 0" "unat limit \<le> 2 ^ 30"
  shows "range_loop r current limit fl h = (Inr (), h)"
  using assms
proof (induction r current limit fl h rule: range_loop.induct)
  case (1 r current limit fl h)
  show ?case
  proof (cases "current < limit")
    case True
    then have lt: "unat current < 2 ^ 30" using 1(6) by (simp add: word_less_nat_alt)
    note m = map_kernel_page_low [OF 1(3,4) lt 1(5), of fl]
    have nxt: "unat (saturating_add current PAGE_SIZE) = unat current + 4096"
      using lt by (simp add: unat_saturating_add PAGE_SIZE_mask)
    have "range_loop r (saturating_add current PAGE_SIZE) limit fl h = (Inr (), h)"
      using 1(2) [OF True m [symmetric] refl 1(3,4) _ 1(6)] 1(5) nxt by simp
    then show ?thesis using True m by (simp add: range_loop.simps [of r current])
  qed (simp add: range_loop.simps [of r current])
qed

lemma align_up_range:
  assumes "unat e \<le> 4096 * n" "n < 2 ^ 51"
  shows "unat e \<le> unat (align_up e PAGE_SIZE)" "unat (align_up e PAGE_SIZE) \<le> 4096 * n"
proof -
  have "unat (align_up e PAGE_SIZE) = (unat e + 4095) div 4096 * 4096"
    using assms by (intro unat_align_up) simp
  moreover have "unat e \<le> (unat e + 4095) div 4096 * 4096"
    using div_mult_mod_eq [of "unat e + 4095" 4096] mod_less_divisor [of 4096 "unat e + 4095"] by linarith
  moreover have "(unat e + 4095) div 4096 < Suc n"
    using assms(1) by (simp add: div_less_iff_less_mult)
  ultimately show "unat e \<le> unat (align_up e PAGE_SIZE)" "unat (align_up e PAGE_SIZE) \<le> 4096 * n" by simp_all
qed

lemma align_down_le: "unat (align_down v PAGE_SIZE) \<le> unat v" "unat (align_down v PAGE_SIZE) mod 4096 = 0"
  by (simp_all add: unat_align_down)

text \<open>A range requested with any end up to 512 GiB.\<close>

lemma map_range_identity_spec:
  assumes "bt_inv r h" "unat e \<le> 2 ^ 39" "map_range_identity r start e fl h = (Inr x, h')"
  shows "bt_inv r h' \<and> grows r h h' \<and> (\<forall>v. unat start \<le> unat v \<longrightarrow> unat v < unat e \<longrightarrow> mapped r h' v)"
proof -
  have A: "unat e \<le> unat (align_up e PAGE_SIZE)" "unat (align_up e PAGE_SIZE) \<le> 2 ^ 39"
    using align_up_range [of e "2 ^ 27"] assms(2) by simp_all
  note S = range_loop_spec [OF assms(1) align_down_le(2) A(2) assms(3) [unfolded map_range_identity_def]]
  have "mapped r h' v" if "unat start \<le> unat v" "unat v < unat e" for v
    using S that A(1) align_down_le(1) [of start] by auto
  then show ?thesis using S by blast
qed

lemma map_range_identity_low:
  assumes "bt_inv r h" "low_large r h" "unat e \<le> 2 ^ 30"
  shows "map_range_identity r start e fl h = (Inr (), h)"
  unfolding map_range_identity_def
  using align_up_range(2) [of e "2 ^ 18"] assms by (intro range_loop_low align_down_le(2)) simp_all

text \<open>The boot code aligns the ranges of the boot information and of the frame buffer before the call, too.\<close>

lemma aligned_range_spec:
  assumes "bt_inv r h" "unat base + unat len \<le> 2 ^ 39"
    "map_range_identity r (align_down base PAGE_SIZE) (align_up (saturating_add base len) PAGE_SIZE) fl h = (Inr x, h')"
  shows "bt_inv r h' \<and> grows r h h' \<and> (\<forall>v. unat base \<le> unat v \<longrightarrow> unat v < unat base + unat len \<longrightarrow> mapped r h' v)"
proof -
  have u: "unat (saturating_add base len) = unat base + unat len" using assms(2) by (simp add: unat_saturating_add)
  have A: "unat base + unat len \<le> unat (align_up (saturating_add base len) PAGE_SIZE)" "unat (align_up (saturating_add base len) PAGE_SIZE) \<le> 2 ^ 39"
    using align_up_range [of "saturating_add base len" "2 ^ 27"] assms(2) u by simp_all
  note S = map_range_identity_spec [OF assms(1) A(2) assms(3)]
  have "mapped r h' v" if "unat base \<le> unat v" "unat v < unat base + unat len" for v
    using S that A(1) align_down_le(1) [of base] by auto
  then show ?thesis using S by blast
qed

lemma aligned_range_low:
  assumes "bt_inv r h" "low_large r h" "unat base + unat len \<le> 2 ^ 30"
  shows "map_range_identity r start (align_up (saturating_add base len) PAGE_SIZE) fl h = (Inr (), h)"
proof -
  have "unat (saturating_add base len) = unat base + unat len" using assms(3) by (simp add: unat_saturating_add)
  then show ?thesis using align_up_range(2) [of "saturating_add base len" "2 ^ 18"] assms by (intro map_range_identity_low) simp_all
qed

lemma map_boot_stack_spec:
  assumes "bt_inv r h" "unat rsp + 4096 \<le> 2 ^ 39" "map_boot_stack r rsp h = (Inr x, h')"
  shows "bt_inv r h' \<and> grows r h h' \<and> (\<forall>v. unat rsp - 65536 \<le> unat v \<longrightarrow> unat v < unat rsp + 4096 \<longrightarrow> mapped r h' v)"
proof -
  have p: "unat PAGE_SIZE = 4096" by (simp add: PAGE_SIZE_def)
  have below: "unat (saturating_mul PAGE_SIZE 16) = 65536" by (simp add: unat_saturating_mul p)
  have u: "unat (saturating_add rsp PAGE_SIZE) = unat rsp + 4096" using assms(2) by (simp add: unat_saturating_add p)
  have A: "unat rsp + 4096 \<le> unat (align_up (saturating_add rsp PAGE_SIZE) PAGE_SIZE)" "unat (align_up (saturating_add rsp PAGE_SIZE) PAGE_SIZE) \<le> 2 ^ 39"
    using align_up_range [of "saturating_add rsp PAGE_SIZE" "2 ^ 27"] assms(2) u by simp_all
  note S = map_range_identity_spec [OF assms(1) A(2) assms(3) [unfolded map_boot_stack_def Let_def]]
  have "mapped r h' v" if "unat rsp - 65536 \<le> unat v" "unat v < unat rsp + 4096" for v
    using S that A(1) align_down_le(1) [of "saturating_sub rsp (saturating_mul PAGE_SIZE 16)"]
    by (simp add: unat_saturating_sub below)
  then show ?thesis using S by blast
qed

section \<open>The recursive slot\<close>

lemma bt_activate:
  assumes B: "bt_inv r h"
  defines "h' \<equiv> (write_entry r 511 (set_page (hw_mem h r 511) r PT_WRITABLE) h)\<lparr>hw_cr3 := r\<rparr>"
  shows "pt_inv h' \<and> pages h' = Map.empty \<and> ident r h' \<and> (\<forall>v. mapped r h v \<longrightarrow> mapped r h' v)"
proof -
  note D = bt_invD [OF B]
  have root: "descend (hw_mem h) r [] = Some r" by simp
  have fr: "frame_ok r" using D(4) [OF path_Nil root] by blast
  let ?e = "set_page 0 r PT_WRITABLE"
  have flags: "entry_address PT_WRITABLE = 0" "\<not> bit PT_WRITABLE 7" by (simp_all add: entry_address_def)
  have e: "is_present ?e" "\<not> is_huge ?e" "entry_address ?e = r"
    using flags frame_ok_address [OF fr] by (simp_all add: set_page_simps is_huge_bit entry_address_set_page)
  have mem: "hw_mem h' = (hw_mem h)(r := (hw_mem h r)(511 := ?e))" "hw_pmm h' = hw_pmm h" "hw_cr3 h' = r"
    using D(3) by (simp_all add: h'_def write_entry_def)
  have T: "descend (hw_mem h') r q = descend (hw_mem h) r q" if "path q" for q
    unfolding mem using that by (intro descend_write_other [OF D(2) path_Nil root that, where i = 511]) (auto simp: path_def)
  have M: "hw_mem h' g j = (if a = [] \<and> j = 511 then ?e else hw_mem h g j)" if "path a" "descend (hw_mem h) r a = Some g" for a g j
  proof -
    have "g = r \<longleftrightarrow> a = []" using table_treeD [OF D(2) that(1) path_Nil that(2)] that(2) by auto
    then show ?thesis by (auto simp: mem)
  qed
  have tb: "tbl h' q = descend (hw_mem h) r q" if "path q" for q using T [OF that] by (simp add: tbl_def mem)
  have "pt_inv h'"
    unfolding pt_inv_def
  proof (intro conjI allI impI)
    show "pmm_inv (hw_pmm h')" using D(1) mem by simp
    show "recursive h'" using e by (simp add: recursive_def mem)
    show "table_tree (hw_mem h') (hw_cr3 h')" using D(2) T unfolding table_tree_def mem(3) by metis
  next
    fix q f assume "path q" "tbl h' q = Some f"
    then show "frame_ok f" "page_no f \<notin> free_set (hw_pmm h')" using D(4) tb mem by simp_all
  next
    fix q f i assume q: "path q" "tbl h' q = Some f" "i < 512" "\<not> is_present (hw_mem h' f i)"
    have d: "descend (hw_mem h) r q = Some f" using tb q(1,2) by simp
    show "hw_mem h' f i = 0" using M [OF q(1) d, of i] D(5) [OF q(1) d q(3)] q(4) e(1) by (auto split: if_splits)
  next
    fix q f i assume q: "path (q @ [i])" "hd (q @ [i]) \<noteq> 0 \<or> q = []" "tbl h' q = Some f"
    have pq: "path q" using q(1) path_appendD by blast
    have d: "descend (hw_mem h) r q = Some f" using tb [OF pq] q(3) by simp
    have "\<not> is_huge (hw_mem h f i)"
      using D(6) [OF q(1) d] D(7) [OF q(1) d] q(2) by (cases "hd (q @ [i]) = 0") (auto simp: is_huge_bit)
    then show "\<not> is_huge (hw_mem h' f i)" using M [OF pq d, of i] e(2) by (auto split: if_splits)
  qed
  moreover have "pages h' k = None" for k
  proof (cases "managed k")
    case True
    obtain a s where k: "fst k = a # s" "path (a # s)" "a \<noteq> 0" using True unfolding managed_def by (cases "fst k") auto
    have "path ([] @ [a])" using k(2) by (simp add: path_def)
    then have "hw_mem h r a = 0" using D(6) [OF _ root] k(3) by simp
    then have "tbl h' (fst k) = None" using tb [OF k(2)] k(1) by simp
    then show ?thesis by (simp add: pages_def)
  qed (simp add: pages_def)
  moreover have "ident r h'"
    unfolding ident_def
  proof (intro conjI allI impI)
    fix b c d f assume a: "path [0, b, c]" "descend (hw_mem h') r [0, b, c] = Some f" "d < 512" "is_present (hw_mem h' f d)"
    have x: "descend (hw_mem h) r [0, b, c] = Some f" using T [OF a(1)] a(2) by (simp only:)
    show "entry_address (hw_mem h' f d) = address_of 0 b c d" using M [OF a(1) x, of d] D(8) [OF a(1) x a(3)] a(4) by simp
  next
    fix b c f assume a: "path [0, b]" "descend (hw_mem h') r [0, b] = Some f" "c < 512" "is_huge (hw_mem h' f c)"
    have x: "descend (hw_mem h) r [0, b] = Some f" using T [OF a(1)] a(2) by (simp only:)
    show "entry_address (hw_mem h' f c) = address_of 0 b c 0" using M [OF a(1) x, of c] D(9) [OF a(1) x a(3)] a(4) by simp
  qed
  moreover have "mapped r h' v" if m: "mapped r h v" for v
  proof -
    have "grows r h h'"
      unfolding grows_def
    proof (intro allI impI conjI)
      fix q f i assume q: "path q" "descend (hw_mem h) r q = Some f"
      show "descend (hw_mem h') r q = Some f" using T [OF q(1)] q(2) by simp
      assume "is_present (hw_mem h f i)"
      then show "hw_mem h' f i = hw_mem h f i" using M [OF q, of i] D(3) q(2) by auto
    qed
    then show ?thesis using grows_mapped m by blast
  qed
  ultimately show ?thesis by blast
qed

section \<open>The whole construction\<close>

lemma bbind_Inr: "bbind x f = (Inr b, h') \<longleftrightarrow> (\<exists>a h. x = (Inr a, h) \<and> f a h = (Inr b, h'))"
  by (cases x; cases "fst x") (auto simp: bbind_def)

text \<open>The addresses the boot code asks for: the first GiB, the kernel image, the boot information, the frame buffer, and
  the stack with sixteen pages below the stack pointer.\<close>

definition boot_covers :: "u64 \<Rightarrow> u64 \<Rightarrow> u64 \<Rightarrow> u64 \<Rightarrow> u64 \<Rightarrow> u64 \<Rightarrow> u64 \<Rightarrow> u64 \<Rightarrow> bool" where
  "boot_covers fb fb_size bi bi_size kstart kend rsp v \<longleftrightarrow> unat v < 2 ^ 30
     \<or> unat kstart \<le> unat v \<and> unat v < unat kend
     \<or> unat bi \<le> unat v \<and> unat v < unat bi + unat bi_size
     \<or> unat fb \<le> unat v \<and> unat v < unat fb + unat fb_size
     \<or> unat rsp - 65536 \<le> unat v \<and> unat v < unat rsp + 4096"

definition boot_bounds :: "nat \<Rightarrow> u64 \<Rightarrow> u64 \<Rightarrow> u64 \<Rightarrow> u64 \<Rightarrow> u64 \<Rightarrow> u64 \<Rightarrow> bool" where
  "boot_bounds top_addr fb fb_size bi bi_size kend rsp \<longleftrightarrow> unat kend \<le> top_addr \<and> unat bi + unat bi_size \<le> top_addr
     \<and> unat fb + unat fb_size \<le> top_addr \<and> unat rsp + 4096 \<le> top_addr"

lemma boot_coversE:
  assumes "boot_covers fb fb_size bi bi_size kstart kend rsp v" "boot_bounds (2 ^ 39) fb fb_size bi bi_size kend rsp"
  shows "unat v < 2 ^ 39"
  using assms unfolding boot_covers_def boot_bounds_def by auto

lemma bootstrap_spec:
  assumes I: "pmm_inv (hw_pmm h)" and bd: "boot_bounds (2 ^ 39) fb fb_size bi bi_size kend rsp"
    and run: "bootstrap_kernel_page_tables fb fb_size bi bi_size kstart kend rsp h = (Inr r, h')"
  obtains g where "bt_inv r g" "h' = write_entry r 511 (set_page (hw_mem g r 511) r PT_WRITABLE) g"
    "\<And>v. boot_covers fb fb_size bi bi_size kstart kend rsp v \<Longrightarrow> mapped r g v"
proof -
  let ?f = "FLAG_WRITE OR FLAG_GLOBAL" and ?g = "FLAG_WRITE OR FLAG_GLOBAL OR FLAG_WRITE_COMBINE"
  obtain r0 h0 x1 h1 x2 h2 x3 h3 x4 h4 x5 h5 where
    a0: "alloc_zeroed_table h = (Inr r0, h0)" and a1: "map_identity_low_mem r0 h0 = (Inr x1, h1)"
    and a2: "(if kend > kstart then map_range_identity r0 kstart kend ?f h1 else (Inr (), h1)) = (Inr x2, h2)"
    and a3: "(if bi_size > 0 then map_range_identity r0 (align_down bi PAGE_SIZE) (align_up (saturating_add bi bi_size) PAGE_SIZE) ?f h2
       else (Inr (), h2)) = (Inr x3, h3)"
    and a4: "(if fb_size > 0 then map_range_identity r0 (align_down fb PAGE_SIZE) (align_up (saturating_add fb fb_size) PAGE_SIZE) ?g h3
       else (Inr (), h3)) = (Inr x4, h4)"
    and a5: "map_boot_stack r0 rsp h4 = (Inr x5, h5)"
    and last: "(Inr r0, write_entry r0 511 (set_page (hw_mem h5 r0 511) r0 PT_WRITABLE) h5) = (Inr r :: u64 res, h')"
    using run unfolding bootstrap_kernel_page_tables_def Let_def bbind_Inr by blast
  have r: "r0 = r" using last by simp
  obtain q where q: "h0 = clear_table r (h\<lparr>hw_pmm := q\<rparr>)" "pmm_inv q" "frame_ok r" "page_no r \<notin> free_set q"
    using alloc_zeroed_table_spec [OF I a0] r by auto
  have B0: "bt_inv r h0" using q by (intro bt_init) (simp_all add: clear_table_def)
  have "\<not> is_present (hw_mem h0 r 0)" by (simp add: q(1) clear_table_def table_clear_def)
  note B1 = map_identity_low_mem_spec [OF B0 this a1 [unfolded r]]
  have b: "unat kend \<le> 2 ^ 39" "unat bi + unat bi_size \<le> 2 ^ 39" "unat fb + unat fb_size \<le> 2 ^ 39" "unat rsp + 4096 \<le> 2 ^ 39"
    using bd by (simp_all add: boot_bounds_def)
  have B2: "bt_inv r h2 \<and> grows r h1 h2 \<and> (\<forall>v. unat kstart \<le> unat v \<longrightarrow> unat v < unat kend \<longrightarrow> mapped r h2 v)"
  proof (cases "kend > kstart")
    case True
    then show ?thesis using map_range_identity_spec [OF B1(1) b(1)] a2 r by simp
  next
    case False
    then show ?thesis using a2 B1 grows_refl by (auto simp: word_less_nat_alt)
  qed
  have B3: "bt_inv r h3 \<and> grows r h2 h3 \<and> (\<forall>v. unat bi \<le> unat v \<longrightarrow> unat v < unat bi + unat bi_size \<longrightarrow> mapped r h3 v)"
  proof (cases "bi_size > 0")
    case True
    then show ?thesis using aligned_range_spec [OF conjunct1 [OF B2] b(2)] a3 r by simp
  next
    case False
    then show ?thesis using a3 B2 grows_refl by (auto simp: word_less_nat_alt)
  qed
  have B4: "bt_inv r h4 \<and> grows r h3 h4 \<and> (\<forall>v. unat fb \<le> unat v \<longrightarrow> unat v < unat fb + unat fb_size \<longrightarrow> mapped r h4 v)"
  proof (cases "fb_size > 0")
    case True
    then show ?thesis using aligned_range_spec [OF conjunct1 [OF B3] b(3)] a4 r by simp
  next
    case False
    then show ?thesis using a4 B3 grows_refl by (auto simp: word_less_nat_alt)
  qed
  have B5: "bt_inv r h5 \<and> grows r h4 h5 \<and> (\<forall>v. unat rsp - 65536 \<le> unat v \<longrightarrow> unat v < unat rsp + 4096 \<longrightarrow> mapped r h5 v)"
    using map_boot_stack_spec [OF _ b(4)] B4 a5 r by blast
  have G4: "grows r h4 h5" using B5 by blast
  have G3: "grows r h3 h5" using grows_trans [OF _ G4] B4 by blast
  have G2: "grows r h2 h5" using grows_trans [OF _ G3] B3 by blast
  have G1: "grows r h1 h5" using grows_trans [OF _ G2] B2 by blast
  have m: "mapped r h5 v" if "boot_covers fb fb_size bi bi_size kstart kend rsp v" for v
    using that B2 B3 B4 B5 low_large_mapped [OF B1(2), of v] grows_mapped [OF G4, of v] grows_mapped [OF G3, of v]
      grows_mapped [OF G2, of v] grows_mapped [OF G1, of v]
    unfolding boot_covers_def by blast
  have "h' = write_entry r 511 (set_page (hw_mem h5 r 511) r PT_WRITABLE) h5" using last r by simp
  then show ?thesis using that B5 m by blast
qed

text \<open>The allocator takes the first free page at or after its hint, if there is one.\<close>

lemma alloc_from_hint:
  assumes I: "pmm_inv p" and i: "i \<in> free_set p" "next_hint p \<le> i"
  shows "\<exists>j q. alloc_page p = (Some (of_nat j * PAGE_SIZE), q) \<and> next_hint p \<le> j \<and> j \<le> i \<and> j \<in> free_set p \<and> next_hint q = j + 1"
proof -
  have t: "i < tracked_pages p" "\<not> is_used p i" using i(1) by (simp_all add: mem_free_set)
  have "i \<noteq> 0" using I i(1) unfolding pmm_inv_def by metis
  have f: "1 \<le> free_pages p" "pmm_initialized p"
  proof -
    have "finite (free_set p)" by (rule finite_subset [of _ "{..<tracked_pages p}"]) (auto simp: mem_free_set)
    then have "0 < card (free_set p)" using i(1) by (auto simp: card_gt_0_iff)
    then show "1 \<le> free_pages p" "pmm_initialized p" using I unfolding pmm_inv_def by linarith+
  qed
  define m where "m = tracked_pages p - Suc (Suc 0)"
  define start where "start = (if 1 \<le> next_hint p then next_hint p else 1)"
  have st: "1 \<le> start" "start \<le> i" "next_hint p \<le> start" using i(2) \<open>i \<noteq> 0\<close> by (auto simp: start_def)
  have m: "i - Suc 0 < Suc m" "tracked_pages p - Suc 0 - Suc 0 = m" using t(1) \<open>i \<noteq> 0\<close> by (simp_all add: m_def)
  define free where "free = (\<lambda>offset. range_free p (Suc ((start + offset - Suc 0) mod Suc m)) (Suc 0))"
  have slot: "Suc ((start + x - Suc 0) mod Suc m) = start + x" if "x \<le> i - start" for x
    using that st m(1) by simp
  have "free (i - start)" using slot [of "i - start"] st t(2) by (simp add: free_def range_free_def)
  moreover have "i - start < Suc m" using m(1) st by linarith
  ultimately obtain x where x': "x \<le> i - start" "\<forall>y<x. \<not> free y" "free x" "x < Suc m"
    using ex_least_nat_le [of free "i - start"] by (metis le_less_trans)
  have "find free [0..<Suc m] = Some x"
    unfolding find_Some_iff by (rule exI [of _ x]) (use x' in \<open>simp del: upt_Suc\<close>)
  then have x: "find free [0..<Suc m] = Some x" "x \<le> i - start" "free x" using x' by blast+
  define j where "j = start + x"
  have j: "start \<le> j" "j \<le> i" "Suc ((start + x - Suc 0) mod Suc m) = j" using x(2) st slot [OF x(2)] by (simp_all add: j_def)
  have "\<not> is_used p j" using x(3) j(3) by (simp add: free_def range_free_def)
  then have "j \<in> free_set p" using j(2) t(1) by (simp add: mem_free_set)
  moreover have "\<exists>q. alloc_page p = (Some (of_nat j * PAGE_SIZE), q) \<and> next_hint q = j + 1"
    using f t(1) \<open>i \<noteq> 0\<close> st i(2) x(1) j(3) m unfolding free_def start_def
    by (cases "next_hint p = 0")
       (simp_all add: alloc_page_def alloc_pages_def alloc_pages_below_def Let_def del: upt_Suc flip: m_def)
  ultimately show ?thesis using j st by (metis le_trans)
qed

text \<open>Enough memory: at least \<open>n\<close> free pages below 1 GiB at or after the hint of the allocator, which is at the first page when
  the machine starts.\<close>

definition low_pages :: "pmm \<Rightarrow> nat set" where
  "low_pages p = {i \<in> free_set p. next_hint p \<le> i \<and> i < 2 ^ 18}"

definition low_room :: "nat \<Rightarrow> pmm \<Rightarrow> bool" where
  "low_room n p \<longleftrightarrow> pmm_inv p \<and> n \<le> card (low_pages p)"

lemma alloc_low_ok:
  assumes "low_room (Suc k) p"
  shows "\<exists>t q. alloc_low (Suc n) p = (Inr (Some t), q) \<and> low_room k q"
proof -
  have I: "pmm_inv p" and c: "Suc k \<le> card (low_pages p)" using assms by (simp_all add: low_room_def)
  then have fin: "finite (low_pages p)" "low_pages p \<noteq> {}" using card_eq_0_iff [of "low_pages p"] by auto
  define i where "i = Min (low_pages p)"
  have i: "i \<in> low_pages p" "\<And>x. x \<in> low_pages p \<Longrightarrow> i \<le> x" using fin by (simp_all add: i_def)
  obtain j q where j: "alloc_page p = (Some (of_nat j * PAGE_SIZE), q)" "next_hint p \<le> j" "j \<le> i" "j \<in> free_set p" "next_hint q = j + 1"
    using alloc_from_hint [OF I, of i] i(1) by (auto simp: low_pages_def)
  have low: "i < 2 ^ 18" using i(1) by (simp add: low_pages_def)
  then have "j \<in> low_pages p" using j by (simp add: low_pages_def)
  then have ji: "j = i" using i(2) j(3) by (metis le_antisym)
  have "j < 2 ^ 18" using low ji by simp
  then have u: "unat (of_nat j * PAGE_SIZE) = j * 4096" by (intro unat_page_address) (simp add: MAX_PAGES_eq)
  then have pn: "page_no (of_nat j * PAGE_SIZE) = j" by (simp add: page_no_def)
  have N: "pmm_inv q" "free_set q = free_set p - {j}" using alloc_page_new [OF I j(1)] pn by simp_all
  have "low_pages q = low_pages p - {j}"
  proof (rule set_eqI)
    fix x
    have "Suc i \<le> x" if "x \<in> low_pages p" "x \<noteq> i" using i(2) [OF that(1)] that(2) by simp
    then show "x \<in> low_pages q \<longleftrightarrow> x \<in> low_pages p - {j}"
      using j(2) unfolding low_pages_def N(2) j(5) ji by auto
  qed
  then have "low_room k q" using N(1) c fin i(1) ji by (simp add: low_room_def card_Diff_singleton)
  moreover have "of_nat j * PAGE_SIZE < EARLY_TABLE_MAX_PHYS" using u \<open>j < 2 ^ 18\<close> by (simp add: word_less_nat_alt)
  ultimately show ?thesis using j(1) by simp
qed

lemma alloc_zeroed_table_ok:
  assumes "low_room (Suc k) (hw_pmm h)"
  obtains t h' where "alloc_zeroed_table h = (Inr t, h')" "low_room k (hw_pmm h')"
proof -
  define tries :: nat where "tries = 4095"
  have t: "4096 = Suc tries" by (simp add: tries_def)
  obtain x q where a: "alloc_low (Suc tries) (hw_pmm h) = (Inr (Some x), q)" "low_room k q" using alloc_low_ok [OF assms] by blast
  have "alloc_zeroed_table h = (Inr x, clear_table x (h\<lparr>hw_pmm := q\<rparr>))" unfolding alloc_zeroed_table_def t a(1) by simp
  then show ?thesis using that a(2) by (simp add: clear_table_def)
qed

lemma write_entry_pmm [simp]: "hw_pmm (write_entry f i e h) = hw_pmm h"
  by (simp add: write_entry_def)

lemma map_identity_low_mem_ok:
  assumes "low_room 2 (hw_pmm h)"
  shows "\<exists>h'. map_identity_low_mem r h = (Inr (), h')"
proof -
  have "low_room (Suc 1) (hw_pmm h)" using assms by (simp add: numeral_2_eq_2)
  then obtain t1 h1 where a1: "alloc_zeroed_table h = (Inr t1, h1)" "low_room 1 (hw_pmm h1)"
    using alloc_zeroed_table_ok by blast
  define h2 where "h2 = write_entry r 0 (set_page (hw_mem h1 r 0) t1 PT_WRITABLE) h1"
  have "low_room (Suc 0) (hw_pmm h2)" using a1(2) by (simp add: h2_def)
  then obtain t2 h3 where a2: "alloc_zeroed_table h2 = (Inr t2, h3)" using alloc_zeroed_table_ok by blast
  show ?thesis
    unfolding map_identity_low_mem_def a1(1) bbind_def prod.case sum.case Let_def h2_def [symmetric] a2 by blast
qed

lemma bootstrap_ok:
  assumes L: "low_room 3 (hw_pmm h)" and bd: "boot_bounds (2 ^ 30) fb fb_size bi bi_size kend rsp"
  shows "\<exists>r h'. bootstrap_kernel_page_tables fb fb_size bi bi_size kstart kend rsp h = (Inr r, h')"
proof -
  have "low_room (Suc 2) (hw_pmm h)" using L by (simp add: eval_nat_numeral)
  then obtain r h0 where a0: "alloc_zeroed_table h = (Inr r, h0)" "low_room 2 (hw_pmm h0)"
    using alloc_zeroed_table_ok by blast
  obtain h1 where a1: "map_identity_low_mem r h0 = (Inr (), h1)" using map_identity_low_mem_ok [OF a0(2)] by blast
  obtain q where q: "h0 = clear_table r (h\<lparr>hw_pmm := q\<rparr>)" "pmm_inv q" "frame_ok r" "page_no r \<notin> free_set q"
    using alloc_zeroed_table_spec [OF _ a0(1)] L unfolding low_room_def by auto
  have B0: "bt_inv r h0" using q by (intro bt_init) (simp_all add: clear_table_def)
  have "\<not> is_present (hw_mem h0 r 0)" by (simp add: q(1) clear_table_def table_clear_def)
  note B = map_identity_low_mem_spec [OF B0 this a1]
  have b: "unat kend \<le> 2 ^ 30" "unat bi + unat bi_size \<le> 2 ^ 30" "unat fb + unat fb_size \<le> 2 ^ 30" "unat rsp + unat PAGE_SIZE \<le> 2 ^ 30"
    using bd by (simp_all add: boot_bounds_def PAGE_SIZE_def)
  have "map_boot_stack r rsp h1 = (Inr (), h1)"
    unfolding map_boot_stack_def Let_def by (rule aligned_range_low [OF B b(4)])
  then show ?thesis
    unfolding bootstrap_kernel_page_tables_def Let_def bbind_Inr
    using a0(1) a1 map_range_identity_low [OF B b(1)] aligned_range_low [OF B b(2)] aligned_range_low [OF B b(3)] by simp
qed

section \<open>When no low page is found\<close>

text \<open>A page given back becomes the hint of the allocator, which then proposes it again.\<close>

lemma alloc_low_stuck:
  assumes "pmm_inv p" "fst (alloc_page p) = Some c" "EARLY_TABLE_MAX_PHYS \<le> c"
  shows "fst (alloc_low n p) = Inr None"
  using assms
proof (induction n arbitrary: p)
  case (Suc n)
  obtain q where a: "alloc_page p = (Some c, q)" using Suc.prems(2) by (cases "alloc_page p") simp
  have N: "pmm_inv q" "frame_ok c" "page_no c \<in> free_set p" "free_set q = free_set p - {page_no c}" "tracked_pages q = tracked_pages p"
    using alloc_page_new [OF Suc.prems(1) a] by simp_all
  have u: "unat c = page_no c * 4096" using N(2) div_mult_mod_eq [of "unat c" 4096] unfolding frame_ok_def page_no_def by linarith
  have "page_no c \<noteq> 0" using N(3) Suc.prems(1) unfolding pmm_inv_def by metis
  moreover have "page_no c < tracked_pages q" using N(3,5) by (simp add: mem_free_set)
  ultimately obtain p1 where p1: "free_page c q = (True, p1)" "free_set p1 = insert (page_no c) (free_set q)" "pmm_inv p1"
    using free_page_ok [OF N(1), of "page_no c" c] N(4) u by auto
  have "next_hint q = page_no c + 1"
  proof (cases rule: alloc_pages_below_cases [OF Suc.prems(1), of 1 "- 1", case_names pos none some])
    case (some first)
    then have c: "c = of_nat first * PAGE_SIZE" "next_hint q = first + 1"
      using a by (auto simp: alloc_page_def alloc_pages_def)
    have "first < MAX_PAGES" using some(2) Suc.prems(1) by (simp add: page_bound_def pmm_inv_def)
    then show ?thesis using c by (simp add: page_no_def unat_page_address)
  qed (use a in \<open>simp_all add: alloc_page_def alloc_pages_def\<close>)
  then have "next_hint p1 = page_no c"
    using p1(1) by (auto simp: free_page_def page_no_def unat_div_PAGE_SIZE Let_def set_free_def split: if_splits)
  then have "fst (alloc_page p1) = Some (of_nat (page_no c) * PAGE_SIZE)"
    using alloc_from_hint [OF p1(3), of "page_no c"] p1(2) by auto
  also have "of_nat (page_no c) * PAGE_SIZE = c"
  proof -
    have "(of_nat (page_no c * 4096) :: u64) = c" by (simp only: u [symmetric] word_of_nat_eq_iff) simp
    then show ?thesis by (simp add: PAGE_SIZE_def)
  qed
  finally have "fst (alloc_low n p1) = Inr None" using Suc.IH p1(3) Suc.prems(3) by blast
  then show ?case using a Suc.prems(3) p1(1) by simp
qed simp

section \<open>Theorems\<close>

lemma demo_low: "low_room 3 demo_pmm"
proof -
  have "low_pages demo_pmm = free_set demo_pmm"
    using demo_inv demo_fields unfolding low_pages_def pmm_inv_def by (auto simp: mem_free_set Suc_le_eq intro: gr0I)
  then show ?thesis using demo_inv demo_fields by (simp add: low_room_def pmm_inv_def)
qed

text \<open>C15: the page tables built at boot.  The construction succeeds with three free pages below 1 GiB at or after the
  hint of the page allocator when all ranges lie in the first GiB.  Whenever it succeeds, for ranges below 512 GiB, the root can be
  activated, and from then on, whatever the kernel maps and unmaps through the operations in \<open>vmm_step\<close> (requests outside the
  recursive slot, user requests outside slot 0, physical addresses of at most 52 bits), the processor sees every requested
  address - the first GiB, the kernel image, the boot information, the frame buffer and the boot stack - at itself.\<close>

theorem boot_tables_map_kernel:
  assumes "pmm_inv (hw_pmm h)" and bd: "boot_bounds (2 ^ 39) fb fb_size bi bi_size kend rsp"
  shows "(low_room 3 (hw_pmm h) \<and> boot_bounds (2 ^ 30) fb fb_size bi bi_size kend rsp
      \<longrightarrow> (\<exists>r h1. bootstrap_kernel_page_tables fb fb_size bi bi_size kstart kend rsp h = (Inr r, h1)))
    \<and> (\<forall>r h1. bootstrap_kernel_page_tables fb fb_size bi bi_size kstart kend rsp h = (Inr r, h1) \<longrightarrow>
        fst (activate_kernel_page_tables r h1) = Inr ()
        \<and> (\<forall>s h2 v. vmm_step\<^sup>*\<^sup>* (vmm_boot (snd (activate_kernel_page_tables r h1))) (s, h2)
             \<and> boot_covers fb fb_size bi bi_size kstart kend rsp v \<longrightarrow> mmu h2 v = Some (align_down v PAGE_SIZE)))"
proof (intro conjI allI impI)
  assume "low_room 3 (hw_pmm h) \<and> boot_bounds (2 ^ 30) fb fb_size bi bi_size kend rsp"
  then show "\<exists>r h1. bootstrap_kernel_page_tables fb fb_size bi bi_size kstart kend rsp h = (Inr r, h1)"
    using bootstrap_ok by blast
next
  fix r h1 assume run: "bootstrap_kernel_page_tables fb fb_size bi bi_size kstart kend rsp h = (Inr r, h1)"
  from assms(1) bd run obtain g where g: "bt_inv r g" "h1 = write_entry r 511 (set_page (hw_mem g r 511) r PT_WRITABLE) g"
    "\<And>v. boot_covers fb fb_size bi bi_size kstart kend rsp v \<Longrightarrow> mapped r g v"
    by (rule bootstrap_spec) blast
  define h' where "h' = h1\<lparr>hw_cr3 := r\<rparr>"
  have A: "pt_inv h'" "pages h' = Map.empty" "ident r h'" "\<And>v. mapped r g v \<Longrightarrow> mapped r h' v"
    using bt_activate [OF g(1)] unfolding h'_def g(2) by blast+
  have "frame_ok r" using bt_invD(4) [OF g(1) path_Nil] by simp
  then have act: "activate_kernel_page_tables r h1 = (Inr (), h')"
    by (simp add: activate_kernel_page_tables_def is_page_aligned_unat frame_ok_def h'_def)
  then show "fst (activate_kernel_page_tables r h1) = Inr ()" by simp
  fix s h2 v
  assume v: "vmm_step\<^sup>*\<^sup>* (vmm_boot (snd (activate_kernel_page_tables r h1))) (s, h2)
    \<and> boot_covers fb fb_size bi bi_size kstart kend rsp v"
  have lt: "unat v < 2 ^ 39" using boot_coversE v bd by blast
  have "same_low h' h2" using vmm_reach_inv [OF A(1,2)] v act by auto
  then have "mmu h2 v = mmu h' v" by (rule mmu_low [OF _ A(1) low_address(1) [OF lt]])
  also have "\<dots> = Some (align_down v PAGE_SIZE)"
    using mapped_mmu [of h' v] A(3,4) g(3) v lt by (simp add: h'_def)
  finally show "mmu h2 v = Some (align_down v PAGE_SIZE)" .
qed

theorem boot_tables_map_kernel_witness:
  "\<exists>r h1. bootstrap_kernel_page_tables 0x3000000 0x1000 0x2000 0x100 0x100000 0x200000 0x90000 demo_hw = (Inr r, h1)
     \<and> fst (activate_kernel_page_tables r h1) = Inr () \<and> mmu (snd (activate_kernel_page_tables r h1)) 0x123456 = Some 0x123000"
proof -
  have b: "boot_bounds (2 ^ 39) 0x3000000 0x1000 0x2000 0x100 0x200000 0x90000"
    "boot_bounds (2 ^ 30) 0x3000000 0x1000 0x2000 0x100 0x200000 0x90000" by (simp_all add: boot_bounds_def)
  have p: "hw_pmm demo_hw = demo_pmm" by (simp add: demo_hw_def)
  have c: "boot_covers 0x3000000 0x1000 0x2000 0x100 0x100000 0x200000 0x90000 0x123456" by (simp add: boot_covers_def)
  have a: "align_down 0x123456 PAGE_SIZE = 0x123000" by (simp add: align_down_def PAGE_SIZE_def)
  have I: "pmm_inv (hw_pmm demo_hw)" using demo_inv p by simp
  note T = boot_tables_map_kernel [OF I b(1), of "0x100000"]
  obtain r h1 where r: "bootstrap_kernel_page_tables 0x3000000 0x1000 0x2000 0x100 0x100000 0x200000 0x90000 demo_hw = (Inr r, h1)"
    using T b(2) demo_low p by auto
  obtain s h2 where s: "vmm_boot (snd (activate_kernel_page_tables r h1)) = (s, h2)" by fastforce
  have h2: "h2 = snd (activate_kernel_page_tables r h1)"
    using s by (simp add: vmm_boot_def vmm_init_def split: if_splits)
  have "fst (activate_kernel_page_tables r h1) = Inr ()" using T r by blast
  moreover have "mmu h2 0x123456 = Some (align_down 0x123456 PAGE_SIZE)"
    using T r c s rtranclp.rtrancl_refl [of vmm_step "(s, h2)"] by metis
  ultimately show ?thesis using r h2 a by auto
qed

end
