(* ===== verification/Scheduler.thy ===== *)
theory Scheduler
  imports Prelude
begin

text \<open>
  The thread scheduler, \<^verbatim>\<open>seed/saios/src/scheduler.rs\<close>: the thread table, the run queue, the
  round-robin choice, the context switch and the interrupt flag across a switch.  Function pointers
  and stack addresses are \<open>u64\<close> addresses; the stack of a new thread comes from the global allocator
  and is an argument.  Each operation of the source runs under \<open>without_interrupts\<close> and is one step
  of the relation \<open>sched_step\<close>.  Proved are an invariant of all reachable states, the refinement of
  the queue code to a plain rotation, bounded waiting, the preservation of suspended contexts, and
  what the code does when the idle thread or a spawned thread runs.
\<close>

section \<open>Data\<close>

definition STACK_SIZE :: u64 where
  "STACK_SIZE = 64 * 1024"

abbreviation DEFAULT_QUANTUM_TICKS :: u64 where
  "DEFAULT_QUANTUM_TICKS \<equiv> 10"

datatype ThreadState = Ready | Running | Sleeping | Blocked | Dead

record CpuContext =
  rsp :: u64
  rbx :: u64
  rbp :: u64
  r12 :: u64
  r13 :: u64
  r14 :: u64
  r15 :: u64

definition context_default :: CpuContext where
  "context_default = \<lparr>rsp = 0, rbx = 0, rbp = 0, r12 = 0, r13 = 0, r14 = 0, r15 = 0\<rparr>"

record Thread =
  thread_id :: u64
  thread_state :: ThreadState
  thread_context :: CpuContext
  stack_top :: u64
  thread_entry :: u64

record ThreadInfo =
  info_id :: u64
  info_state :: ThreadState

record Scheduler =
  sched_initialized :: bool
  threads :: "Thread list"
  run_queue :: "nat list"
  current :: nat
  idle :: nat
  next_id :: u64
  quantum_ticks :: u64
  ticks_since_switch :: u64
  needs_reschedule :: bool

definition scheduler_new :: Scheduler where
  "scheduler_new = \<lparr>sched_initialized = False, threads = [], run_queue = [], current = 0, idle = 0,
     next_id = 0, quantum_ticks = DEFAULT_QUANTUM_TICKS, ticks_since_switch = 0,
     needs_reschedule = False\<rparr>"

text \<open>The processor as far as the scheduler uses it: the registers of a context, eight-byte memory
  cells, the interrupt flag, and the scheduler cell.  \<open>frames i\<close> is the local \<open>enabled\<close> of the
  \<open>without_interrupts\<close> call in which thread \<open>i\<close> is suspended; it lives on that thread's stack.  A
  thread that has not run yet has no such call: it starts in the trampoline with the flag as the
  switch left it, which is clear, so its entry is \<open>False\<close>.\<close>

record machine =
  cpu :: CpuContext
  mem :: "u64 \<Rightarrow> u64"
  iflag :: bool
  frames :: "nat \<Rightarrow> bool"
  sched :: "Scheduler option"

section \<open>Operations\<close>

definition alloc_id :: "Scheduler \<Rightarrow> u64 \<times> Scheduler" where
  "alloc_id s = (next_id s, s\<lparr>next_id := next_id s + 1\<rparr>)"

definition set_state :: "nat \<Rightarrow> ThreadState \<Rightarrow> Scheduler \<Rightarrow> Scheduler" where
  "set_state i st s = s\<lparr>threads := (threads s)[i := (threads s ! i)\<lparr>thread_state := st\<rparr>]\<rparr>"

definition initial_rsp :: "u64 \<Rightarrow> u64" where
  "initial_rsp upper = (upper AND NOT 0xF) - 8"

definition spawn_internal ::
  "u64 \<Rightarrow> u64 \<Rightarrow> u64 \<Rightarrow> (u64 \<Rightarrow> u64) \<Rightarrow> Scheduler \<Rightarrow> u64 \<times> (u64 \<Rightarrow> u64) \<times> Scheduler" where
  "spawn_internal trampoline stack_base entry m s =
     (let upper = stack_base + STACK_SIZE;
          sp = initial_rsp upper;
          m1 = m(sp := trampoline);
          (new_id, s1) = alloc_id s;
          thread = \<lparr>thread_id = new_id, thread_state = Ready,
                    thread_context = context_default\<lparr>rsp := sp\<rparr>, stack_top = upper,
                    thread_entry = entry\<rparr>;
          s2 = s1\<lparr>threads := threads s1 @ [thread]\<rparr>;
          idx = length (threads s2) - 1
      in (new_id, m1, s2\<lparr>run_queue := run_queue s2 @ [idx]\<rparr>))"

text \<open>The assembly routine: store the callee-saved registers, load those of the other context.  The
  final \<open>ret\<close> takes the address the new stack pointer shows and pops it.\<close>

definition saios_context_switch :: "CpuContext \<Rightarrow> CpuContext \<Rightarrow> CpuContext \<times> CpuContext" where
  "saios_context_switch regs new =
     (\<lparr>rsp = rsp regs, rbx = rbx regs, rbp = rbp regs, r12 = r12 regs, r13 = r13 regs,
       r14 = r14 regs, r15 = r15 regs\<rparr>,
      \<lparr>rsp = rsp new, rbx = rbx new, rbp = rbp new, r12 = r12 new, r13 = r13 new,
       r14 = r14 new, r15 = r15 new\<rparr>)"

definition ret_instr :: "(u64 \<Rightarrow> u64) \<Rightarrow> CpuContext \<Rightarrow> u64 \<times> CpuContext" where
  "ret_instr m regs = (m (rsp regs), regs\<lparr>rsp := rsp regs + 8\<rparr>)"

fun pick_loop :: "Thread list \<Rightarrow> nat \<Rightarrow> nat option \<Rightarrow> nat list \<Rightarrow> nat \<times> nat list" where
  "pick_loop ts idl cand [] =
     ((case cand of
         Some i \<Rightarrow> if thread_state (ts ! i) = Ready then i else idl
       | None \<Rightarrow> idl), [])"
| "pick_loop ts idl cand (i # q) =
     (if thread_state (ts ! i) \<noteq> Ready then pick_loop ts idl cand q
      else if i = idl then pick_loop ts idl (Some i) q
      else (i, case cand of Some j \<Rightarrow> q @ [j] | None \<Rightarrow> q))"

definition pick_next :: "Scheduler \<Rightarrow> nat \<times> Scheduler" where
  "pick_next s =
     (let (i, q) = pick_loop (threads s) (idle s) None (run_queue s) in (i, s\<lparr>run_queue := q\<rparr>))"

definition set_context :: "nat \<Rightarrow> CpuContext \<Rightarrow> Scheduler \<Rightarrow> Scheduler" where
  "set_context i c s = s\<lparr>threads := (threads s)[i := (threads s ! i)\<lparr>thread_context := c\<rparr>]\<rparr>"

definition do_schedule :: "CpuContext \<Rightarrow> Scheduler option \<Rightarrow> CpuContext \<times> Scheduler option" where
  "do_schedule regs cell =
     (case cell of
        None \<Rightarrow> (regs, None)
      | Some s \<Rightarrow>
          if \<not> sched_initialized s then (regs, Some s)
          else
            let old = current s;
                (nxt, s1) = pick_next s
            in if old = nxt
               then (regs, Some (s1\<lparr>needs_reschedule := False, ticks_since_switch := 0\<rparr>))
               else
                 let s2 = (if thread_state (threads s1 ! old) = Running \<and> old \<noteq> idle s1
                           then (let t = set_state old Ready s1 in t\<lparr>run_queue := run_queue t @ [old]\<rparr>)
                           else s1);
                     s3 = (set_state nxt Running s2)
                            \<lparr>current := nxt, needs_reschedule := False, ticks_since_switch := 0\<rparr>;
                     (saved, loaded) = saios_context_switch regs (thread_context (threads s3 ! nxt))
                 in (loaded, Some (set_context old saved s3)))"

text \<open>\<open>interrupt::without_interrupts(do_schedule)\<close>: the flag is cleared, and on the way out each
  thread restores the flag it saw when it called.\<close>

definition current_of :: "machine \<Rightarrow> nat option" where
  "current_of m = map_option current (sched m)"

definition yield_now :: "machine \<Rightarrow> machine" where
  "yield_now m =
     (let (c, cell) = do_schedule (cpu m) (sched m)
      in case (sched m, cell) of
           (Some s, Some s') \<Rightarrow>
             if current s = current s' then m\<lparr>cpu := c, sched := cell\<rparr>
             else m\<lparr>cpu := c, sched := cell, frames := (frames m)(current s := iflag m),
                    iflag := frames m (current s')\<rparr>
         | _ \<Rightarrow> m\<lparr>cpu := c, sched := cell\<rparr>)"

definition sched_init :: "u64 \<Rightarrow> u64 \<Rightarrow> u64 \<Rightarrow> u64 \<Rightarrow> machine \<Rightarrow> machine option" where
  "sched_init trampoline stack_base idle_entry noop m =
     (case sched m of
        Some _ \<Rightarrow> Some m
      | None \<Rightarrow>
          let (boot_id, s1) = alloc_id scheduler_new;
              bootstrap = \<lparr>thread_id = boot_id, thread_state = Running,
                           thread_context = context_default, stack_top = 0, thread_entry = noop\<rparr>;
              s2 = s1\<lparr>threads := threads s1 @ [bootstrap], current := 0\<rparr>;
              (idle_id, mem', s3) = spawn_internal trampoline stack_base idle_entry (mem m) s2
          in case find_position (\<lambda>t. thread_id t = idle_id) (threads s3) of
               None \<Rightarrow> None
             | Some i \<Rightarrow> Some (m\<lparr>mem := mem', sched := Some (s3\<lparr>idle := i, sched_initialized := True\<rparr>)\<rparr>))"

definition spawn :: "u64 \<Rightarrow> u64 \<Rightarrow> u64 \<Rightarrow> machine \<Rightarrow> (u64 \<times> machine) option" where
  "spawn trampoline stack_base entry m =
     (case sched m of
        None \<Rightarrow> None
      | Some s \<Rightarrow>
          let (new_id, mem', s') = spawn_internal trampoline stack_base entry (mem m) s
          in Some (new_id, m\<lparr>mem := mem', sched := Some s'\<rparr>))"

definition sched_on_timer_tick :: "Scheduler option \<Rightarrow> Scheduler option" where
  "sched_on_timer_tick cell =
     (case cell of
        None \<Rightarrow> None
      | Some s \<Rightarrow>
          if \<not> sched_initialized s then Some s
          else
            let s1 = s\<lparr>ticks_since_switch := saturating_add (ticks_since_switch s) 1\<rparr>
            in Some (if quantum_ticks s1 \<le> ticks_since_switch s1
                     then s1\<lparr>needs_reschedule := True\<rparr> else s1))"

definition should_reschedule :: "Scheduler option \<Rightarrow> bool" where
  "should_reschedule cell =
     (case cell of None \<Rightarrow> False | Some s \<Rightarrow> sched_initialized s \<and> needs_reschedule s)"

definition maybe_preempt :: "machine \<Rightarrow> machine" where
  "maybe_preempt m = (if should_reschedule (sched m) then yield_now m else m)"

text \<open>The trampoline reads the entry of the current thread, and marks the thread dead when the entry
  has returned; it then calls \<open>yield_now\<close> for ever.\<close>

definition trampoline_entry :: "machine \<Rightarrow> u64 option" where
  "trampoline_entry m = map_option (\<lambda>s. thread_entry (threads s ! current s)) (sched m)"

definition trampoline_exit :: "machine \<Rightarrow> machine option" where
  "trampoline_exit m =
     (case sched m of None \<Rightarrow> None | Some s \<Rightarrow> Some (m\<lparr>sched := Some (set_state (current s) Dead s)\<rparr>))"

definition thread_snapshot :: "Scheduler option \<Rightarrow> ThreadInfo list" where
  "thread_snapshot cell =
     (case cell of
        None \<Rightarrow> []
      | Some s \<Rightarrow>
          if \<not> sched_initialized s then []
          else map (\<lambda>t. \<lparr>info_id = thread_id t, info_state = thread_state t\<rparr>) (threads s))"

fun ids_unique :: "ThreadInfo list \<Rightarrow> bool" where
  "ids_unique [] = True"
| "ids_unique (t # ts) = ((\<forall>u \<in> set ts. info_id t \<noteq> info_id u) \<and> ids_unique ts)"

definition sched_verify :: "Scheduler option \<Rightarrow> bool list" where
  "sched_verify cell =
     (let snapshot = thread_snapshot cell
      in [snapshot \<noteq> [],
          length (filter (\<lambda>t. info_state t = Running) snapshot) = 1,
          ids_unique snapshot])"

section \<open>Steps of the system\<close>

text \<open>What a thread can do.  The idle thread executes \<open>idle_entry\<close>, a loop around \<open>hlt\<close>, so it
  calls no operation; a thread whose entry has returned only yields; the bootstrap thread 0 was not
  started through the trampoline and does not end, and it is the only one that executes \<open>sti\<close>
  (\<^verbatim>\<open>main.rs\<close>).  The timer interrupt arrives only while the flag is set.\<close>

datatype sched_op = Tick | Yield | Preempt | Spawn u64 u64 | Exit | Sti | Compute CpuContext

definition runs :: "machine \<Rightarrow> ThreadState list \<Rightarrow> bool" where
  "runs m sts = (case sched m of
     None \<Rightarrow> False
   | Some s \<Rightarrow> current s \<noteq> idle s \<and> thread_state (threads s ! current s) \<in> set sts)"

inductive sched_step :: "u64 \<Rightarrow> machine \<Rightarrow> sched_op \<Rightarrow> machine \<Rightarrow> bool" for trampoline :: u64 where
  step_tick: "iflag m \<Longrightarrow> sched_step trampoline m Tick (m\<lparr>sched := sched_on_timer_tick (sched m)\<rparr>)"
| step_yield: "runs m [Running, Dead] \<Longrightarrow> sched_step trampoline m Yield (yield_now m)"
| step_preempt: "runs m [Running] \<Longrightarrow> sched_step trampoline m Preempt (maybe_preempt m)"
| step_spawn: "runs m [Running] \<Longrightarrow> spawn trampoline base entry m = Some (i, m') \<Longrightarrow>
    sched_step trampoline m (Spawn base entry) m'"
| step_exit: "runs m [Running] \<Longrightarrow> current_of m \<noteq> Some 0 \<Longrightarrow> trampoline_exit m = Some m' \<Longrightarrow>
    sched_step trampoline m Exit m'"
| step_sti: "runs m [Running] \<Longrightarrow> current_of m = Some 0 \<Longrightarrow> sched_step trampoline m Sti (m\<lparr>iflag := True\<rparr>)"
| step_compute: "runs m [Running] \<Longrightarrow> sched_step trampoline m (Compute c) (m\<lparr>cpu := c\<rparr>)"

inductive sched_reach :: "u64 \<Rightarrow> machine \<Rightarrow> bool" for trampoline :: u64 where
  reach_init: "sched m0 = None \<Longrightarrow> (\<forall>i. \<not> frames m0 i) \<Longrightarrow> \<not> iflag m0 \<Longrightarrow>
    sched_init trampoline base idle_entry noop m0 = Some m \<Longrightarrow> sched_reach trampoline m"
| reach_step: "sched_reach trampoline m \<Longrightarrow> sched_step trampoline m opn m' \<Longrightarrow>
    sched_reach trampoline m'"

section \<open>Invariant\<close>

definition state_of :: "Scheduler \<Rightarrow> nat \<Rightarrow> ThreadState" where
  "state_of s i = thread_state (threads s ! i)"

definition sched_inv :: "Scheduler \<Rightarrow> bool" where
  "sched_inv s \<longleftrightarrow>
     sched_initialized s \<and> 2 \<le> length (threads s) \<and> idle s = 1 \<and> current s < length (threads s)
     \<and> distinct (run_queue s)
     \<and> (\<forall>i. i \<in> set (run_queue s) \<longleftrightarrow> i < length (threads s) \<and> state_of s i = Ready)
     \<and> (\<forall>i < length (threads s).
          state_of s i \<in> (if i = current s then {Running, Dead} else {Ready, Dead}))
     \<and> state_of s 0 \<noteq> Dead \<and> state_of s 1 \<noteq> Dead
     \<and> (\<forall>i < length (threads s). thread_id (threads s ! i) = of_nat i)
     \<and> next_id s = of_nat (length (threads s))"

definition machine_inv :: "machine \<Rightarrow> bool" where
  "machine_inv m \<longleftrightarrow> (\<exists>s. sched m = Some s \<and> sched_inv s
     \<and> (\<forall>i. i \<noteq> 0 \<longrightarrow> \<not> frames m i)
     \<and> (current s \<noteq> 0 \<longrightarrow> \<not> iflag m \<and> \<not> needs_reschedule s))"

text \<open>The queue as the policy sees it: the waiting threads without the idle thread, in order.\<close>

definition waiting :: "Scheduler \<Rightarrow> nat list" where
  "waiting s = filter (\<lambda>i. i \<noteq> idle s) (run_queue s)"

text \<open>The reference policy: the head of the queue runs next, the thread that gives up the processor
  goes to the back if it can still run; with an empty queue the idle thread runs.\<close>

definition rr_schedule :: "nat \<Rightarrow> nat \<Rightarrow> bool \<Rightarrow> nat list \<Rightarrow> nat \<times> nat list" where
  "rr_schedule idl cur runnable q =
     (let back = (if runnable then [cur] else [])
      in case q of [] \<Rightarrow> (idl, back) | n # q' \<Rightarrow> (n, q' @ back))"

lemma pick_loop_spec:
  assumes "pick_loop ts idl cand q = (i, q')" "distinct q"
    "\<forall>j\<in>set q. thread_state (ts ! j) = Ready"
    "\<forall>j\<in>set_option cand. j = idl \<and> thread_state (ts ! j) = Ready \<and> j \<notin> set q"
  shows "i = (case filter (\<lambda>j. j \<noteq> idl) q of [] \<Rightarrow> idl | n # r \<Rightarrow> n)
    \<and> filter (\<lambda>j. j \<noteq> idl) q' = tl (filter (\<lambda>j. j \<noteq> idl) q)
    \<and> distinct q' \<and> set q' = (set q \<union> set_option cand) - {i}"
  using assms
proof (induction q arbitrary: cand)
  case Nil
  then show ?case by (cases cand) auto
next
  case (Cons j q)
  have j: "thread_state (ts ! j) = Ready" "j \<notin> set q" using Cons.prems by simp_all
  show ?case
  proof (cases "j = idl")
    case True
    with Cons.prems(4) have c: "cand = None" by (cases cand) auto
    from True j Cons.prems(1) have pl: "pick_loop ts idl (Some j) q = (i, q')" by simp
    have "distinct q" "\<forall>k\<in>set q. thread_state (ts ! k) = Ready"
      "\<forall>k\<in>set_option (Some j). k = idl \<and> thread_state (ts ! k) = Ready \<and> k \<notin> set q"
      using Cons.prems(2,3) True j by simp_all
    note Cons.IH [OF pl this]
    moreover have "filter (\<lambda>j. j \<noteq> idl) (j # q) = filter (\<lambda>j. j \<noteq> idl) q" using True by simp
    moreover have "set (j # q) \<union> set_option cand = set q \<union> set_option (Some j)" using c by simp
    ultimately show ?thesis by (simp only: simp_thms)
  next
    case False
    then have "i = j" "q' = q @ (case cand of Some k \<Rightarrow> [k] | None \<Rightarrow> [])"
      using Cons.prems(1) j by (auto split: option.splits)
    with False Cons.prems(2,4) j show ?thesis by (cases cand) auto
  qed
qed

lemma set_state_simps [simp]:
  "sched_initialized (set_state i st s) = sched_initialized s"
  "length (threads (set_state i st s)) = length (threads s)"
  "run_queue (set_state i st s) = run_queue s" "current (set_state i st s) = current s"
  "idle (set_state i st s) = idle s" "next_id (set_state i st s) = next_id s"
  "needs_reschedule (set_state i st s) = needs_reschedule s"
  by (simp_all add: set_state_def)

lemma set_context_simps [simp]:
  "sched_initialized (set_context i c s) = sched_initialized s"
  "length (threads (set_context i c s)) = length (threads s)"
  "run_queue (set_context i c s) = run_queue s" "current (set_context i c s) = current s"
  "idle (set_context i c s) = idle s" "next_id (set_context i c s) = next_id s"
  "needs_reschedule (set_context i c s) = needs_reschedule s"
  by (simp_all add: set_context_def)

lemma thread_set_state:
  "j < length (threads s) \<Longrightarrow>
   threads (set_state i st s) ! j
     = (if i = j then (threads s ! j)\<lparr>thread_state := st\<rparr> else threads s ! j)"
  by (simp add: set_state_def nth_list_update)

lemma thread_set_context:
  "j < length (threads s) \<Longrightarrow>
   threads (set_context i c s) ! j
     = (if i = j then (threads s ! j)\<lparr>thread_context := c\<rparr> else threads s ! j)"
  by (simp add: set_context_def nth_list_update)

lemma switch_eq [simp]: "saios_context_switch regs new = (regs, new)"
  by (simp add: saios_context_switch_def)

text \<open>The invariant, unfolded once.\<close>

lemma sched_invD:
  assumes "sched_inv s"
  shows "sched_initialized s" "2 \<le> length (threads s)" "idle s = 1" "state_of s 0 \<noteq> Dead"
    "state_of s 1 \<noteq> Dead" "next_id s = of_nat (length (threads s))" "current s < length (threads s)"
    "distinct (run_queue s)"
    "\<And>i. i < length (threads s) \<Longrightarrow> thread_id (threads s ! i) = of_nat i"
    "\<And>i. i < length (threads s) \<Longrightarrow> i \<noteq> current s \<Longrightarrow> state_of s i = Ready \<or> state_of s i = Dead"
    "state_of s (current s) = Running \<or> state_of s (current s) = Dead"
    "\<And>i. i \<in> set (run_queue s) \<longleftrightarrow> i < length (threads s) \<and> state_of s i = Ready"
  using assms by (auto simp: sched_inv_def)

text \<open>The choice of the next thread.\<close>

lemma pick_next_spec:
  assumes inv: "sched_inv s" and ni: "current s \<noteq> idle s"
  obtains nxt q' where "pick_next s = (nxt, s\<lparr>run_queue := q'\<rparr>)"
    "nxt = (case waiting s of [] \<Rightarrow> idle s | n # r \<Rightarrow> n)"
    "filter (\<lambda>j. j \<noteq> idle s) q' = tl (waiting s)" "distinct q'" "set q' = set (run_queue s) - {nxt}"
    "nxt < length (threads s)" "nxt \<noteq> current s" "state_of s nxt = Ready"
proof -
  note I = sched_invD [OF inv]
  obtain nxt q' where pl: "pick_loop (threads s) (idle s) None (run_queue s) = (nxt, q')"
    by fastforce
  have rdy: "\<forall>j\<in>set (run_queue s). thread_state (threads s ! j) = Ready"
    using I(12) by (simp add: state_of_def)
  have P: "nxt = (case waiting s of [] \<Rightarrow> idle s | n # r \<Rightarrow> n)"
    "filter (\<lambda>j. j \<noteq> idle s) q' = tl (waiting s)" "distinct q'" "set q' = set (run_queue s) - {nxt}"
    using pick_loop_spec [OF pl I(8) rdy] by (auto simp: waiting_def)
  have idle_q: "idle s \<in> set (run_queue s)"
    using I(2,3,5) I(10) [of "idle s"] I(12) [of "idle s"] ni by auto
  have "nxt \<in> set (run_queue s)"
  proof (cases "waiting s")
    case (Cons n r)
    then have "n \<in> set (waiting s)" by simp
    then have "n \<in> set (run_queue s)" unfolding waiting_def by simp
    with Cons P(1) show ?thesis by simp
  qed (use P(1) idle_q in simp)
  then have nx: "nxt < length (threads s)" "nxt \<noteq> current s" "state_of s nxt = Ready"
    using I(11) I(12) [of nxt] by auto
  have "pick_next s = (nxt, s\<lparr>run_queue := q'\<rparr>)" by (simp add: pick_next_def pl)
  from that [OF this P nx] show thesis .
qed

text \<open>The state after a switch, described field by field.\<close>

definition switched :: "CpuContext \<Rightarrow> Scheduler \<Rightarrow> Scheduler \<Rightarrow> bool" where
  "switched regs s s' \<longleftrightarrow>
     (let old = current s; nxt = current s'; runnable = (state_of s old = Running)
      in nxt \<noteq> old \<and> nxt < length (threads s) \<and> state_of s nxt = Ready
       \<and> (nxt, waiting s') = rr_schedule (idle s) old runnable (waiting s)
       \<and> distinct (run_queue s')
       \<and> set (run_queue s') = set (run_queue s) - {nxt} \<union> (if runnable then {old} else {})
       \<and> length (threads s') = length (threads s) \<and> idle s' = idle s \<and> next_id s' = next_id s
       \<and> sched_initialized s' = sched_initialized s \<and> \<not> needs_reschedule s'
       \<and> ticks_since_switch s' = 0
       \<and> (\<forall>i < length (threads s). threads s' ! i =
            (if i = nxt then (threads s ! i)\<lparr>thread_state := Running\<rparr>
             else if i = old then (threads s ! i)\<lparr>thread_state := (if runnable then Ready
                 else thread_state (threads s ! i)), thread_context := regs\<rparr>
             else threads s ! i)))"

lemma do_schedule_switched:
  assumes inv: "sched_inv s" and ni: "current s \<noteq> idle s"
  shows "\<exists>s'. do_schedule regs (Some s) = (thread_context (threads s ! current s'), Some s')
    \<and> switched regs s s'"
proof -
  note I = sched_invD [OF inv]
  define old where "old = current s"
  define runnable where "runnable \<longleftrightarrow> state_of s old = Running"
  obtain nxt q' where pn: "pick_next s = (nxt, s\<lparr>run_queue := q'\<rparr>)"
    and P: "nxt = (case waiting s of [] \<Rightarrow> idle s | n # r \<Rightarrow> n)"
    "filter (\<lambda>j. j \<noteq> idle s) q' = tl (waiting s)" "distinct q'" "set q' = set (run_queue s) - {nxt}"
    and nx: "nxt < length (threads s)" "nxt \<noteq> old" "state_of s nxt = Ready"
    using pick_next_spec [OF inv ni] old_def by metis
  have old: "old < length (threads s)" "old \<notin> set (run_queue s)" "old \<noteq> idle s"
    using I(7,11) I(12) [of old] ni by (auto simp: old_def)
  define s1 where "s1 = s\<lparr>run_queue := q'\<rparr>"
  define s2 where "s2 = (if runnable
      then set_state old Ready s1 \<lparr>run_queue := q' @ [old]\<rparr> else s1)"
  define s3 where "s3 = (set_state nxt Running s2)
      \<lparr>current := nxt, needs_reschedule := False, ticks_since_switch := 0\<rparr>"
  define s' where "s' = set_context old regs s3"
  have s1: "threads s1 = threads s" "run_queue s1 = q'" "idle s1 = idle s" "current s1 = current s"
    "sched_initialized s1 = sched_initialized s" "next_id s1 = next_id s"
    by (simp_all add: s1_def)
  have s2: "length (threads s2) = length (threads s)" "idle s2 = idle s" "next_id s2 = next_id s"
    "sched_initialized s2 = sched_initialized s"
    "run_queue s2 = q' @ (if runnable then [old] else [])"
    "\<And>i. i < length (threads s) \<Longrightarrow> threads s2 ! i
       = (if i = old \<and> runnable then (threads s ! i)\<lparr>thread_state := Ready\<rparr> else threads s ! i)"
    by (auto simp: s2_def s1 thread_set_state)
  have s': "length (threads s') = length (threads s)" "idle s' = idle s" "next_id s' = next_id s"
    "sched_initialized s' = sched_initialized s" "current s' = nxt"
    "run_queue s' = q' @ (if runnable then [old] else [])" "\<not> needs_reschedule s'"
    "ticks_since_switch s' = 0"
    by (simp_all add: s'_def s3_def s2 set_context_def)
  have t': "threads s' ! i = (if i = nxt then (threads s ! i)\<lparr>thread_state := Running\<rparr>
      else if i = old then (threads s ! i)\<lparr>thread_state := (if runnable then Ready
          else thread_state (threads s ! i)), thread_context := regs\<rparr> else threads s ! i)"
    if "i < length (threads s)" for i
    using that nx(2) s2 by (auto simp: s'_def s3_def thread_set_context thread_set_state)
  have D: "do_schedule regs (Some s) = (thread_context (threads s3 ! nxt), Some s')"
    using I(1) nx(2) old(3) pn
    by (simp add: do_schedule_def s'_def s3_def s2_def s1 Let_def runnable_def state_of_def
        flip: old_def s1_def)
  have ld: "thread_context (threads s3 ! nxt) = thread_context (threads s ! nxt)"
    using nx s2 by (simp add: s3_def thread_set_state)
  have rr: "(nxt, waiting s') = rr_schedule (idle s) old runnable (waiting s)"
    using P(1,2) s' old(3) by (auto simp: rr_schedule_def waiting_def split: list.splits)
  have "distinct (run_queue s')"
    "set (run_queue s') = set (run_queue s) - {nxt} \<union> (if runnable then {old} else {})"
    using P(3,4) old(2) s'(6) by auto
  then have "switched regs s s'"
    using nx s' t' rr unfolding switched_def Let_def old_def [symmetric] runnable_def [symmetric]
    by auto
  with D ld s'(5) show ?thesis by auto
qed

lemma switched_inv:
  assumes "sched_inv s" "switched regs s s'"
  shows "sched_inv s'"
proof -
  note I = sched_invD [OF assms(1)]
  define old where "old = current s"
  define nxt where "nxt = current s'"
  define runnable where "runnable \<longleftrightarrow> state_of s old = Running"
  have S: "nxt \<noteq> old" "nxt < length (threads s)" "state_of s nxt = Ready" "distinct (run_queue s')"
    "set (run_queue s') = set (run_queue s) - {nxt} \<union> (if runnable then {old} else {})"
    "length (threads s') = length (threads s)" "idle s' = idle s" "next_id s' = next_id s"
    "sched_initialized s' = sched_initialized s"
    and t': "\<And>i. i < length (threads s) \<Longrightarrow> threads s' ! i =
      (if i = nxt then (threads s ! i)\<lparr>thread_state := Running\<rparr>
       else if i = old then (threads s ! i)\<lparr>thread_state := (if runnable then Ready
           else thread_state (threads s ! i)), thread_context := regs\<rparr>
       else threads s ! i)"
    using assms(2) unfolding switched_def Let_def old_def nxt_def runnable_def by blast+
  have st': "state_of s' i = (if i = nxt then Running
      else if i = old \<and> runnable then Ready else state_of s i)" if "i < length (threads s)" for i
    using t' [OF that] by (simp add: state_of_def)
  have old: "old < length (threads s)" "old \<notin> set (run_queue s)" using I(7,11) I(12) [of old] by (auto simp: old_def)
  have Io: "state_of s old = Running \<or> state_of s old = Dead"
    "\<And>i. i < length (threads s) \<Longrightarrow> i \<noteq> old \<Longrightarrow> state_of s i = Ready \<or> state_of s i = Dead"
    using I(10,11) by (auto simp: old_def)
  have R: "i \<in> set (run_queue s') \<longleftrightarrow> i < length (threads s') \<and> state_of s' i = Ready" for i
  proof (cases "i < length (threads s)")
    case True
    consider "i = nxt" | "i = old" | "i \<noteq> nxt" "i \<noteq> old" by blast
    then show ?thesis
      using True st' [OF True] S(1,5,6) I(12) [of i] old(2) Io(1) runnable_def by cases auto
  next
    case False
    then show ?thesis using S(5,6) I(12) [of i] old(1) by (auto split: if_splits)
  qed
  have O: "state_of s' i \<in> (if i = current s' then {Running, Dead} else {Ready, Dead})"
    if "i < length (threads s)" for i
  proof -
    consider "i = nxt" | "i = old" | "i \<noteq> nxt" "i \<noteq> old" by blast
    then show ?thesis
      using that st' [OF that] Io(1) Io(2) [OF that] S(1) runnable_def
      unfolding nxt_def [symmetric] by cases auto
  qed
  have "thread_id (threads s' ! i) = of_nat i" if "i < length (threads s)" for i
    using t' [OF that] I(9) [OF that] by auto
  moreover have alive: "state_of s' i \<noteq> Dead" if "i < length (threads s)" "state_of s i \<noteq> Dead" for i
    using st' [OF that(1)] that(2) by auto
  have "0 < length (threads s)" "1 < length (threads s)" using I(2) by linarith+
  then have "state_of s' 0 \<noteq> Dead" "state_of s' 1 \<noteq> Dead" using alive I(4,5) by blast+
  ultimately show ?thesis
    using I(1-3,6) R O S(2,4) unfolding sched_inv_def S(6-9) nxt_def [symmetric] by auto
qed

section \<open>Every step keeps the invariant\<close>

lemma spawn_internal_spec:
  assumes "sched_inv s" "spawn_internal tr base entry m s = (new_id, m', s')"
  shows "sched_inv s' \<and> waiting s' = waiting s @ [length (threads s)] \<and> current s' = current s
    \<and> idle s' = idle s \<and> needs_reschedule s' = needs_reschedule s
    \<and> new_id = of_nat (length (threads s))
    \<and> (\<exists>t. threads s' = threads s @ [t] \<and> thread_entry t = entry \<and> thread_state t = Ready
        \<and> rsp (thread_context t) = initial_rsp (base + STACK_SIZE))
    \<and> m' (initial_rsp (base + STACK_SIZE)) = tr"
proof -
  note I = sched_invD [OF assms(1)]
  define t where "t = \<lparr>thread_id = next_id s, thread_state = Ready,
    thread_context = context_default\<lparr>rsp := initial_rsp (base + STACK_SIZE)\<rparr>,
    stack_top = base + STACK_SIZE, thread_entry = entry\<rparr>"
  have s': "s' = s\<lparr>next_id := next_id s + 1, threads := threads s @ [t],
      run_queue := run_queue s @ [length (threads s)]\<rparr>" "new_id = next_id s" "m' = m(initial_rsp (base + STACK_SIZE) := tr)"
    using assms(2) by (auto simp: spawn_internal_def alloc_id_def Let_def t_def)
  have st: "state_of s' i = (if i = length (threads s) then Ready else state_of s i)"
    if "i \<le> length (threads s)" for i
    using that by (auto simp: state_of_def s' nth_append t_def)
  have R: "i \<in> set (run_queue s') \<longleftrightarrow> i < length (threads s') \<and> state_of s' i = Ready" for i
    using I(12) [of i] st [of i] by (auto simp: s')
  have O: "state_of s' i \<in> (if i = current s' then {Running, Dead} else {Ready, Dead})"
    if "i < length (threads s')" for i
    using that st [of i] I(7,10,11) by (cases "i = length (threads s)") (auto simp: s')
  have ids: "thread_id (threads s' ! i) = of_nat i" if "i < length (threads s')" for i
    using that I(6) I(9) [of i] by (cases "i = length (threads s)") (auto simp: s' nth_append t_def)
  have lt: "0 < length (threads s)" "1 < length (threads s)" using I(2) by linarith+
  have "state_of s' 0 \<noteq> Dead" "state_of s' 1 \<noteq> Dead"
    using st [of 0] st [of 1] lt I(4,5) by auto
  moreover have "distinct (run_queue s')" using I(8) I(12) [of "length (threads s)"] by (simp add: s')
  moreover have "idle s' = 1" "2 \<le> length (threads s')" "current s' < length (threads s')"
    "next_id s' = of_nat (length (threads s'))" "sched_initialized s'"
    using I(1-3,6,7) by (simp_all add: s')
  ultimately have "sched_inv s'" using R O ids unfolding sched_inv_def by blast
  then show ?thesis
    using I(3,6) lt by (auto simp: s' waiting_def t_def)
qed

lemma exit_inv:
  assumes "sched_inv s" "state_of s (current s) = Running" "current s \<noteq> idle s" "current s \<noteq> 0"
  shows "sched_inv (set_state (current s) Dead s)"
proof -
  note I = sched_invD [OF assms(1)]
  define s' where "s' = set_state (current s) Dead s"
  have st: "state_of s' i = (if i = current s then Dead else state_of s i)"
    if "i < length (threads s)" for i
    using that by (simp add: s'_def state_of_def thread_set_state)
  have R: "i \<in> set (run_queue s') \<longleftrightarrow> i < length (threads s') \<and> state_of s' i = Ready" for i
    using I(12) [of i] st [of i] assms(2) by (cases "i = current s") (auto simp: s'_def)
  have O: "state_of s' i \<in> (if i = current s' then {Running, Dead} else {Ready, Dead})"
    if "i < length (threads s')" for i
    using that st [of i] I(10) [of i] by (cases "i = current s") (auto simp: s'_def)
  have ids: "thread_id (threads s' ! i) = of_nat i" if "i < length (threads s')" for i
    using that I(9) [of i] by (simp add: s'_def thread_set_state)
  have lt: "0 < length (threads s)" "1 < length (threads s)" using I(2) by linarith+
  have "state_of s' 0 \<noteq> Dead" "state_of s' 1 \<noteq> Dead"
    using st [OF lt(1)] st [OF lt(2)] I(3-5) assms(3,4) by auto
  moreover have "distinct (run_queue s')" "idle s' = 1" "2 \<le> length (threads s')"
    "current s' < length (threads s')" "next_id s' = of_nat (length (threads s'))" "sched_initialized s'"
    using I(1-3,6-8) by (simp_all add: s'_def)
  ultimately show ?thesis
    using R O ids unfolding s'_def [symmetric] sched_inv_def by blast
qed

lemma sched_inv_flags [simp]:
  "sched_inv (s\<lparr>ticks_since_switch := a\<rparr>) = sched_inv s"
  "sched_inv (s\<lparr>needs_reschedule := b\<rparr>) = sched_inv s"
  by (simp_all add: sched_inv_def state_of_def)

lemma yield_now_spec:
  assumes "machine_inv m" "sched m = Some s" "current s \<noteq> idle s"
  shows "\<exists>s'. sched (yield_now m) = Some s' \<and> switched (cpu m) s s'
    \<and> cpu (yield_now m) = thread_context (threads s ! current s')
    \<and> frames (yield_now m) = (frames m)(current s := iflag m)
    \<and> iflag (yield_now m) = frames m (current s') \<and> mem (yield_now m) = mem m
    \<and> machine_inv (yield_now m)"
proof -
  have inv: "sched_inv s" and fr: "\<And>i. i \<noteq> 0 \<Longrightarrow> \<not> frames m i"
    and ifl: "current s \<noteq> 0 \<Longrightarrow> \<not> iflag m"
    using assms(1,2) by (auto simp: machine_inv_def)
  obtain s' where d: "do_schedule (cpu m) (Some s) = (thread_context (threads s ! current s'), Some s')"
    and sw: "switched (cpu m) s s'"
    using do_schedule_switched [OF inv assms(3)] by blast
  have ne: "current s' \<noteq> current s" "\<not> needs_reschedule s'"
    using sw by (auto simp: switched_def Let_def)
  then have y: "yield_now m = m\<lparr>cpu := thread_context (threads s ! current s'), sched := Some s',
      frames := (frames m)(current s := iflag m), iflag := frames m (current s')\<rparr>"
    using assms(2) d by (simp add: yield_now_def)
  have "machine_inv (yield_now m)"
    unfolding machine_inv_def y using switched_inv [OF inv sw] fr ifl ne by auto
  with y sw show ?thesis by simp
qed

text \<open>The effect of each step that is not a scheduling decision on the queue of waiting threads.\<close>

lemma quiet_step_spec:
  assumes "machine_inv m" "sched_step tr m opn m'" "sched m = Some s"
    "opn \<noteq> Yield" "opn = Preempt \<Longrightarrow> \<not> needs_reschedule s"
  shows "machine_inv m' \<and> (\<exists>s' r. sched m' = Some s' \<and> current s' = current s \<and> idle s' = idle s
    \<and> waiting s' = waiting s @ r
    \<and> (\<forall>i < length (threads s). i < length (threads s') \<and>
         thread_context (threads s' ! i) = thread_context (threads s ! i)))"
  using assms(2)
proof (cases rule: sched_step.cases)
  case step_tick
  have "machine_inv m'"
    using assms(1,3) step_tick
    by (auto simp: machine_inv_def sched_on_timer_tick_def Let_def)
  then show ?thesis
    using step_tick assms(3) by (auto simp: sched_on_timer_tick_def Let_def waiting_def)
next
  case step_preempt
  then have "m' = m" using assms(3,5) by (simp add: maybe_preempt_def should_reschedule_def)
  with assms(1,3) show ?thesis by auto
next
  case (step_spawn base entry i)
  obtain new_id mem' s' where sp: "spawn_internal tr base entry (mem m) s = (new_id, mem', s')"
    by (metis prod_cases3)
  then have m': "m' = m\<lparr>mem := mem', sched := Some s'\<rparr>"
    using step_spawn assms(3) by (simp add: spawn_def)
  have "sched_inv s" using assms(1,3) by (auto simp: machine_inv_def)
  note S = spawn_internal_spec [OF this sp]
  have "machine_inv m'" using assms(1,3) S by (auto simp: machine_inv_def m')
  with S m' show ?thesis by (auto simp: nth_append)
next
  case step_exit
  have inv: "sched_inv s" using assms(1,3) by (auto simp: machine_inv_def)
  have "state_of s (current s) = Running" "current s \<noteq> idle s" "current s \<noteq> 0"
    using step_exit assms(3) by (auto simp: runs_def current_of_def state_of_def)
  from exit_inv [OF inv this] have inv': "sched_inv (set_state (current s) Dead s)" .
  have m': "m' = m\<lparr>sched := Some (set_state (current s) Dead s)\<rparr>"
    using step_exit assms(3) by (simp add: trampoline_exit_def)
  have "machine_inv m'" using assms(1,3) inv' by (auto simp: machine_inv_def m')
  then show ?thesis by (auto simp: m' waiting_def thread_set_state)
next
  case step_sti
  then show ?thesis using assms(1,3) by (auto simp: machine_inv_def current_of_def)
next
  case (step_compute c)
  then show ?thesis using assms(1,3) by (auto simp: machine_inv_def)
qed (use assms(4) in simp)

section \<open>Reachable states\<close>

lemma sched_init_inv:
  assumes "sched m0 = None" "\<forall>i. \<not> frames m0 i" "\<not> iflag m0"
    "sched_init tr base idle_entry noop m0 = Some m"
  shows "machine_inv m"
proof -
  have *: "i < Suc (Suc 0) \<longleftrightarrow> i = 0 \<or> i = Suc 0" for i :: nat by auto
  show ?thesis
    using assms
    by (auto simp: sched_init_def alloc_id_def spawn_internal_def scheduler_new_def Let_def
        machine_inv_def sched_inv_def state_of_def *)
qed

definition dispatches :: "machine \<Rightarrow> sched_op \<Rightarrow> bool" where
  "dispatches m opn \<longleftrightarrow> opn = Yield \<or> opn = Preempt \<and> should_reschedule (sched m)"

text \<open>A scheduling decision: a yield, or a preemption point reached with the flag set.\<close>

definition dispatch :: "u64 \<Rightarrow> machine \<Rightarrow> machine \<Rightarrow> bool" where
  "dispatch tr m m' \<longleftrightarrow> (\<exists>opn. sched_step tr m opn m' \<and> dispatches m opn)"

definition quiet :: "u64 \<Rightarrow> machine \<Rightarrow> machine \<Rightarrow> bool" where
  "quiet tr m m' \<longleftrightarrow> (\<exists>opn. sched_step tr m opn m' \<and> \<not> dispatches m opn)"

definition waiting_of :: "machine \<Rightarrow> nat list" where
  "waiting_of m = (case sched m of None \<Rightarrow> [] | Some s \<Rightarrow> waiting s)"

definition context_of :: "machine \<Rightarrow> nat \<Rightarrow> CpuContext" where
  "context_of m i = (case sched m of None \<Rightarrow> context_default | Some s \<Rightarrow> thread_context (threads s ! i))"

definition threads_of :: "machine \<Rightarrow> nat" where
  "threads_of m = (case sched m of None \<Rightarrow> 0 | Some s \<Rightarrow> length (threads s))"

lemma dispatch_spec:
  assumes "machine_inv m" "dispatch tr m m'"
  shows "\<exists>s s'. sched m = Some s \<and> sched m' = Some s' \<and> switched (cpu m) s s' \<and> m' = yield_now m
    \<and> cpu m' = thread_context (threads s ! current s') \<and> machine_inv m'"
proof -
  obtain opn where st: "sched_step tr m opn m'" and d: "dispatches m opn"
    using assms(2) by (auto simp: dispatch_def)
  obtain s where s: "sched m = Some s" using assms(1) by (auto simp: machine_inv_def)
  from st d s have "m' = yield_now m \<and> current s \<noteq> idle s"
    by (cases rule: sched_step.cases) (auto simp: runs_def dispatches_def maybe_preempt_def)
  with yield_now_spec [OF assms(1) s] s show ?thesis by auto
qed

lemma quiet_spec:
  assumes "machine_inv m" "quiet tr m m'"
  shows "machine_inv m' \<and> current_of m' = current_of m \<and> (\<exists>r. waiting_of m' = waiting_of m @ r)
    \<and> (\<forall>i < threads_of m. i < threads_of m' \<and> context_of m' i = context_of m i)"
proof -
  obtain opn where st: "sched_step tr m opn m'" and d: "\<not> dispatches m opn"
    using assms(2) by (auto simp: quiet_def)
  obtain s where s: "sched m = Some s" "sched_initialized s"
    using assms(1) by (auto simp: machine_inv_def sched_inv_def)
  have "opn \<noteq> Yield" "opn = Preempt \<Longrightarrow> \<not> needs_reschedule s"
    using d s by (auto simp: dispatches_def should_reschedule_def)
  from quiet_step_spec [OF assms(1) st s(1) this] s(1) show ?thesis
    by (auto simp: current_of_def waiting_of_def context_of_def threads_of_def)
qed

lemma step_kinds: "sched_step tr m opn m' \<Longrightarrow> dispatch tr m m' \<or> quiet tr m m'"
  by (auto simp: dispatch_def quiet_def)

lemma sched_reach_inv: "sched_reach tr m \<Longrightarrow> machine_inv m"
proof (induction rule: sched_reach.induct)
  case (reach_init m0 base idle_entry noop m)
  then show ?case using sched_init_inv by blast
next
  case (reach_step m opn m')
  then show ?case using step_kinds [OF reach_step.hyps(2)] dispatch_spec quiet_spec by blast
qed

section \<open>Fair queues\<close>

text \<open>A run as a list of states, each marked with whether a scheduling decision led to it.\<close>

fun run_path :: "('s \<Rightarrow> 's \<Rightarrow> bool) \<Rightarrow> ('s \<Rightarrow> 's \<Rightarrow> bool) \<Rightarrow> 's \<Rightarrow> (bool \<times> 's) list \<Rightarrow> bool" where
  "run_path adv other s [] = True"
| "run_path adv other s ((b, t) # tr) =
     ((if b then adv s t else other s t) \<and> run_path adv other t tr)"

text \<open>The contract of a fair queue: a decision runs the head of the queue and keeps the order of the
  rest, every other step only appends.  From it follows that a thread at position \<open>k\<close> runs after at
  most \<open>k + 1\<close> decisions, whatever else happens in between.\<close>

locale fair_queue =
  fixes inv :: "'s \<Rightarrow> bool"
    and queue :: "'s \<Rightarrow> nat list"
    and running :: "'s \<Rightarrow> nat option"
    and adv :: "'s \<Rightarrow> 's \<Rightarrow> bool"
    and other :: "'s \<Rightarrow> 's \<Rightarrow> bool"
  assumes adv_inv: "inv s \<Longrightarrow> adv s t \<Longrightarrow> inv t"
    and adv_head: "inv s \<Longrightarrow> adv s t \<Longrightarrow> queue s = n # q \<Longrightarrow> running t = Some n \<and> (\<exists>r. queue t = q @ r)"
    and other_inv: "inv s \<Longrightarrow> other s t \<Longrightarrow> inv t"
    and other_queue: "inv s \<Longrightarrow> other s t \<Longrightarrow> \<exists>r. queue t = queue s @ r"
begin

lemma bounded_wait:
  assumes "inv s" "run_path adv other s tr" "k < length (queue s)" "k < length (filter fst tr)"
  shows "\<exists>t \<in> snd ` set tr. running t = Some (queue s ! k)"
  using assms
proof (induction tr arbitrary: s k)
  case (Cons x tr)
  obtain b t where x: "x = (b, t)" by fastforce
  show ?case
  proof (cases b)
    case True
    with Cons.prems x have a: "adv s t" "run_path adv other t tr" by auto
    obtain n q where nq: "queue s = n # q" using Cons.prems(3) by (cases "queue s") auto
    from adv_head [OF Cons.prems(1) a(1) nq] obtain r where r: "running t = Some n" "queue t = q @ r"
      by blast
    show ?thesis
    proof (cases k)
      case 0
      with r nq x show ?thesis by simp
    next
      case (Suc j)
      with nq Cons.prems(3,4) True x have j: "j < length q" "j < length (filter fst tr)" by auto
      then have "\<exists>u \<in> snd ` set tr. running u = Some (queue t ! j)"
        using Cons.IH [of t j] adv_inv [OF Cons.prems(1) a(1)] a(2) r(2) by simp
      with nq r(2) Suc j show ?thesis by (auto simp: nth_append)
    qed
  next
    case False
    with Cons.prems x have a: "other s t" "run_path adv other t tr" by auto
    obtain r where r: "queue t = queue s @ r" using other_queue [OF Cons.prems(1) a(1)] by blast
    have "\<exists>u \<in> snd ` set tr. running u = Some (queue t ! k)"
      using Cons.IH [of t k] other_inv [OF Cons.prems(1) a(1)] a(2) r Cons.prems(3,4) False x by simp
    with r Cons.prems(3) show ?thesis by (auto simp: nth_append)
  qed
qed simp

end

interpretation rr: fair_queue machine_inv waiting_of current_of "dispatch tr" "quiet tr" for tr
proof (unfold_locales, goal_cases)
  case (1 s t)
  then show ?case using dispatch_spec by blast
next
  case (2 s t n q)
  then obtain a b where "sched s = Some a" "sched t = Some b" "switched (cpu s) a b"
    using dispatch_spec by blast
  with 2 show ?case
    by (auto simp: waiting_of_def current_of_def switched_def Let_def rr_schedule_def)
next
  case (3 s t)
  then show ?case using quiet_spec by blast
next
  case (4 s t)
  then show ?case using quiet_spec by blast
qed

section \<open>Suspended contexts\<close>

lemma step_context:
  assumes "machine_inv m" "sched_step tr m opn m'" "current_of m \<noteq> Some i" "i < threads_of m"
  shows "i < threads_of m' \<and> context_of m' i = context_of m i
    \<and> (current_of m' = Some i \<longrightarrow> cpu m' = context_of m i)"
  using step_kinds [OF assms(2)]
proof
  assume "dispatch tr m m'"
  then obtain s s' where "sched m = Some s" "sched m' = Some s'" "switched (cpu m) s s'"
    "cpu m' = thread_context (threads s ! current s')"
    using dispatch_spec [OF assms(1)] by blast
  with assms(3,4) show ?thesis
    by (auto simp: current_of_def context_of_def threads_of_def switched_def Let_def)
next
  assume "quiet tr m m'"
  from quiet_spec [OF assms(1) this] assms(3,4) show ?thesis by auto
qed

fun steps_path :: "u64 \<Rightarrow> machine \<Rightarrow> machine list \<Rightarrow> bool" where
  "steps_path tr m [] = True"
| "steps_path tr m (x # xs) = ((\<exists>opn. sched_step tr m opn x) \<and> steps_path tr x xs)"

lemma path_context:
  assumes "machine_inv m" "steps_path tr m (ms @ [m2])" "i < threads_of m"
    "\<forall>x \<in> set (m # ms). current_of x \<noteq> Some i" "current_of m2 = Some i"
  shows "cpu m2 = context_of m i"
  using assms
proof (induction ms arbitrary: m)
  case Nil
  then show ?case using step_context by auto
next
  case (Cons x ms)
  then obtain opn where st: "sched_step tr m opn x" by auto
  have "machine_inv x" using step_kinds [OF st] Cons.prems(1) dispatch_spec quiet_spec by blast
  moreover have "i < threads_of x" "context_of x i = context_of m i"
    using step_context [OF Cons.prems(1) st _ Cons.prems(3)] Cons.prems(4) by auto
  ultimately show ?case using Cons.IH [of x] Cons.prems by simp
qed

section \<open>A small machine for the examples\<close>

text \<open>The boot thread after \<open>init\<close>, and after it has spawned one thread.\<close>

definition demo_start :: machine where
  "demo_start = \<lparr>cpu = context_default, mem = (\<lambda>_. 0), iflag = False, frames = (\<lambda>_. False),
     sched = None\<rparr>"

definition demo_boot :: machine where
  "demo_boot = the (sched_init 0x1000 0x200000 0x2000 0x3000 demo_start)"

definition demo_two :: machine where
  "demo_two = snd (the (spawn 0x1000 0x300000 0x4000 demo_boot))"

definition demo_sched :: Scheduler where
  "demo_sched = the (sched demo_two)"

lemmas demo_sched_eval = demo_boot_def demo_start_def sched_init_def alloc_id_def scheduler_new_def
  spawn_internal_def initial_rsp_def STACK_SIZE_def Let_def

lemma demo_boot_reach: "sched_reach 0x1000 demo_boot"
proof (rule reach_init)
  show "sched_init 0x1000 0x200000 0x2000 0x3000 demo_start = Some demo_boot"
    by (simp add: demo_sched_eval)
qed (simp_all add: demo_start_def)

lemma demo_two_spawn: "\<exists>i. spawn 0x1000 0x300000 0x4000 demo_boot = Some (i, demo_two)"
  by (simp add: demo_two_def spawn_def demo_sched_eval)

lemma demo_two_fields:
  "sched demo_two = Some demo_sched" "current demo_sched = 0" "idle demo_sched = 1"
  "run_queue demo_sched = [1, 2]" "length (threads demo_sched) = 3"
  "thread_state (threads demo_sched ! 0) = Running"
  by (simp_all add: demo_two_def spawn_def demo_sched_eval demo_sched_def)

lemma demo_two_reach: "sched_reach 0x1000 demo_two"
proof -
  have "runs demo_boot [Running]" by (simp add: runs_def demo_sched_eval)
  with demo_two_spawn step_spawn demo_boot_reach reach_step show ?thesis by metis
qed

lemma demo_sched_inv: "sched_inv demo_sched" "machine_inv demo_two" "waiting demo_sched = [2]"
  using sched_reach_inv [OF demo_two_reach] demo_two_fields
  by (auto simp: machine_inv_def waiting_def)

lemma demo_two_yield: "dispatch 0x1000 demo_two (yield_now demo_two)"
  using step_yield [of demo_two] demo_two_fields by (auto simp: dispatch_def dispatches_def runs_def)

text \<open>One yield of the boot thread runs the spawned thread, the next one returns to the boot thread; a
  yield without a second thread ends in the idle thread.\<close>

lemma demo_two_next:
  obtains s' where "sched (yield_now demo_two) = Some s'" "current s' = 2" "waiting s' = [0]"
    "idle s' = 1" "state_of s' 2 = Running" "machine_inv (yield_now demo_two)"
proof -
  obtain s' where s': "sched (yield_now demo_two) = Some s'" "switched (cpu demo_two) demo_sched s'"
    "machine_inv (yield_now demo_two)"
    using yield_now_spec [OF demo_sched_inv(2) demo_two_fields(1)] demo_two_fields by auto
  have rr: "current s' = 2" "waiting s' = [0]"
    using s'(2) demo_sched_inv(3) demo_two_fields
    by (auto simp: switched_def Let_def rr_schedule_def state_of_def)
  have "idle s' = 1" "length (threads s') = 3" "threads s' ! 2 = (threads demo_sched ! 2)\<lparr>thread_state := Running\<rparr>"
    using s'(2) rr demo_two_fields by (auto simp: switched_def Let_def)
  with that s' rr show thesis by (simp add: state_of_def)
qed

lemma demo_two_runs: "runs (yield_now demo_two) [Running, Dead]"
  by (rule demo_two_next) (simp add: runs_def state_of_def)

lemma demo_two_back: "current_of (yield_now (yield_now demo_two)) = Some 0"
proof -
  obtain s' where s': "sched (yield_now demo_two) = Some s'" "current s' = 2" "waiting s' = [0]"
    "idle s' = 1" "machine_inv (yield_now demo_two)"
    using demo_two_next by metis
  from yield_now_spec [OF s'(5,1)] s'(2-4) show ?thesis
    by (auto simp: switched_def Let_def rr_schedule_def current_of_def)
qed

lemma yield_reach: "sched_reach tr m \<Longrightarrow> runs m [Running, Dead] \<Longrightarrow> sched_reach tr (yield_now m)"
  using reach_step step_yield by blast

lemma demo_two_yield_reach: "sched_reach 0x1000 (yield_now demo_two)"
  using demo_two_fields by (intro yield_reach [OF demo_two_reach]) (simp add: runs_def)

lemma demo_boot_yield:
  "sched_reach 0x1000 (yield_now demo_boot)"
  "\<exists>s. sched (yield_now demo_boot) = Some s \<and> current s = idle s"
proof -
  obtain s where s: "sched demo_boot = Some s" "current s \<noteq> idle s" "waiting s = []"
    "runs demo_boot [Running, Dead]"
    by (simp add: demo_sched_eval waiting_def runs_def)
  then show "sched_reach 0x1000 (yield_now demo_boot)"
    using yield_reach [OF demo_boot_reach] by blast
  from yield_now_spec [OF sched_reach_inv [OF demo_boot_reach] s(1,2)] s(3)
  show "\<exists>s. sched (yield_now demo_boot) = Some s \<and> current s = idle s"
    by (auto simp: switched_def Let_def rr_schedule_def)
qed

lemma ids_unique_iff: "ids_unique ts \<longleftrightarrow> distinct (map info_id ts)"
  by (induction ts) auto

section \<open>Properties\<close>

text \<open>C10 (thread table and run queue).  In every reachable state the run queue holds each ready
  thread exactly once and nothing else, every thread other than the current one is ready or dead, the
  current one is running or has just ended, the bootstrap and idle threads are alive, and the id of a
  thread is its position in the table.\<close>

theorem sched_reachable_inv:
  assumes "sched_reach tr m"
  shows "\<exists>s. sched m = Some s \<and> sched_inv s"
  using sched_reach_inv [OF assms] by (auto simp: machine_inv_def)

theorem sched_reachable_inv_witness: "\<exists>s. sched demo_two = Some s \<and> sched_inv s"
  by (rule sched_reachable_inv [OF demo_two_reach])

text \<open>C5 (round robin).  For a thread other than the idle thread, a scheduling decision refines the
  reference policy: the head of the queue (the idle thread left aside) becomes current and the old
  thread goes to the back if it can still run.  The loaded registers are the saved ones of the new
  thread and the old thread's registers are stored.\<close>

theorem do_schedule_refines_round_robin:
  assumes "sched_inv s" "current s \<noteq> idle s"
  shows "\<exists>s'. do_schedule regs (Some s) = (thread_context (threads s ! current s'), Some s')
    \<and> (current s', waiting s')
        = rr_schedule (idle s) (current s) (state_of s (current s) = Running) (waiting s)
    \<and> thread_context (threads s' ! current s) = regs \<and> sched_inv s'"
proof -
  obtain s' where d: "do_schedule regs (Some s) = (thread_context (threads s ! current s'), Some s')"
    and sw: "switched regs s s'"
    using do_schedule_switched [OF assms] by blast
  moreover have "thread_context (threads s' ! current s) = regs"
    using sw sched_invD(7) [OF assms(1)] by (auto simp: switched_def Let_def)
  ultimately show ?thesis
    using switched_inv [OF assms(1) sw] by (auto simp: switched_def Let_def)
qed

theorem do_schedule_refines_round_robin_witness:
  "\<exists>s'. do_schedule context_default (Some demo_sched)
        = (thread_context (threads demo_sched ! current s'), Some s')
    \<and> (current s', waiting s') = (2, [0])
    \<and> thread_context (threads s' ! 0) = context_default \<and> sched_inv s'"
  using do_schedule_refines_round_robin [OF demo_sched_inv(1), of context_default]
    demo_sched_inv(3) demo_two_fields
  by (simp add: rr_schedule_def state_of_def)

text \<open>C13 (bounded waiting).  From a reachable state, a thread at position \<open>k\<close> of the queue becomes
  current within any run that contains more than \<open>k\<close> scheduling decisions, whatever ticks, spawns,
  exits and computations happen in between.\<close>

theorem sched_bounded_wait:
  assumes "sched_reach tr m" "run_path (dispatch tr) (quiet tr) m run"
    "k < length (waiting_of m)" "k < length (filter fst run)"
  shows "\<exists>t \<in> snd ` set run. current_of t = Some (waiting_of m ! k)"
  by (rule rr.bounded_wait [OF sched_reach_inv [OF assms(1)] assms(2-4)])

theorem sched_bounded_wait_witness:
  "\<exists>t \<in> snd ` set [(True, yield_now demo_two)]. current_of t = Some 2"
proof -
  have "waiting_of demo_two = [2]" using demo_two_fields(1) demo_sched_inv(3) by (simp add: waiting_of_def)
  then show ?thesis
    using sched_bounded_wait [OF demo_two_reach, of "[(True, yield_now demo_two)]" 0] demo_two_yield
    by simp
qed

text \<open>C21 (registers survive).  A thread that gives up the processor and is given it back finds in
  the registers exactly what it had when it called, whatever other threads did in between.\<close>

theorem yield_restores_context:
  assumes "sched_reach tr m" "runs m [Running, Dead]" "current_of m = Some i"
    "steps_path tr (yield_now m) (ms @ [m2])"
    "\<forall>x \<in> set (yield_now m # ms). current_of x \<noteq> Some i" "current_of m2 = Some i"
  shows "cpu m2 = cpu m"
proof -
  obtain s where s: "sched m = Some s" "current s = i" "current s \<noteq> idle s"
    using assms(2,3) by (auto simp: runs_def current_of_def split: option.splits)
  note inv = sched_reach_inv [OF assms(1)]
  obtain s' where y: "sched (yield_now m) = Some s'" "switched (cpu m) s s'" "machine_inv (yield_now m)"
    using yield_now_spec [OF inv s(1,3)] by blast
  have "sched_inv s" using inv s(1) by (auto simp: machine_inv_def)
  then have "i < threads_of (yield_now m)" "context_of (yield_now m) i = cpu m"
    using y sched_invD(7) s(2) by (auto simp: switched_def Let_def threads_of_def context_of_def)
  with path_context [OF y(3) assms(4) _ assms(5,6)] show ?thesis by simp
qed

theorem yield_restores_context_witness:
  "cpu (yield_now (yield_now demo_two)) = cpu demo_two"
proof (rule yield_restores_context [OF demo_two_reach, where ms = "[]" and i = 0])
  show "steps_path 0x1000 (yield_now demo_two) ([] @ [yield_now (yield_now demo_two)])"
    using step_yield [OF demo_two_runs] by auto
  show "\<forall>x \<in> set [yield_now demo_two]. current_of x \<noteq> Some 0"
    by (rule demo_two_next) (simp add: current_of_def)
qed (use demo_two_fields demo_two_back in \<open>simp_all add: runs_def current_of_def\<close>)

text \<open>A spawned thread is appended to the queue with the position as its
  id, and the first switch to it returns into the trampoline, on its own stack with the stack pointer
  at the top rounded down to 16 bytes.\<close>

lemma spawn_starts_in_trampoline:
  assumes "sched_reach tr m" "spawn tr base entry m = Some (new_id, m')"
  shows "\<exists>t :: Thread. new_id = of_nat (threads_of m) \<and> waiting_of m' = waiting_of m @ [threads_of m]
    \<and> context_of m' (threads_of m) = thread_context t \<and> thread_entry t = entry
    \<and> ret_instr (mem m') (thread_context t)
        = (tr, (thread_context t)\<lparr>rsp := (base + STACK_SIZE) AND NOT 0xF\<rparr>)"
proof -
  obtain s where s: "sched m = Some s" "sched_inv s"
    using sched_reach_inv [OF assms(1)] by (auto simp: machine_inv_def)
  obtain mem' s' where sp: "spawn_internal tr base entry (mem m) s = (new_id, mem', s')"
    and m': "m' = m\<lparr>mem := mem', sched := Some s'\<rparr>"
    using assms(2) s(1) by (auto simp: spawn_def Let_def split: prod.splits)
  from spawn_internal_spec [OF s(2) sp] obtain t where
    "threads s' = threads s @ [t]" "thread_entry t = entry" "waiting s' = waiting s @ [length (threads s)]"
    "rsp (thread_context t) = initial_rsp (base + STACK_SIZE)" "new_id = of_nat (length (threads s))"
    "mem' (initial_rsp (base + STACK_SIZE)) = tr"
    by blast
  then show ?thesis
    using s(1) m'
    by (intro exI [of _ t])
       (simp add: threads_of_def waiting_of_def context_of_def ret_instr_def initial_rsp_def)
qed

text \<open>C36 (spawned threads run with interrupts off).  In every reachable state whose current thread is
  not the bootstrap thread the interrupt flag is clear and no reschedule is pending, so no timer tick
  arrives and a preemption point does nothing.\<close>

theorem spawned_threads_uninterruptible:
  assumes "sched_reach tr m" "sched m = Some s" "current s \<noteq> 0"
  shows "\<not> iflag m \<and> \<not> (\<exists>m'. sched_step tr m Tick m') \<and> maybe_preempt m = m"
proof -
  have "\<not> iflag m" "\<not> needs_reschedule s"
    using sched_reach_inv [OF assms(1)] assms(2,3) by (auto simp: machine_inv_def)
  then show ?thesis
    using assms(2) by (auto simp: maybe_preempt_def should_reschedule_def elim: sched_step.cases)
qed

theorem spawned_threads_uninterruptible_witness:
  "\<not> iflag (yield_now demo_two) \<and> \<not> (\<exists>m'. sched_step 0x1000 (yield_now demo_two) Tick m')
    \<and> maybe_preempt (yield_now demo_two) = yield_now demo_two"
proof -
  obtain s' where "sched (yield_now demo_two) = Some s'" "current s' = 2" using demo_two_next by metis
  with spawned_threads_uninterruptible [OF demo_two_yield_reach this(1)] show ?thesis by simp
qed

text \<open>C37 (the idle thread is a dead end).  A yield hands the processor to the idle thread exactly when
  no other thread waits, even if the caller could go on; and no step whatsoever is possible from a
  reachable state in which the idle thread is current.\<close>

theorem idle_is_final:
  assumes "sched_reach tr m" "sched m = Some s"
  shows "(runs m [Running] \<longrightarrow> (current_of (yield_now m) = Some (idle s) \<longleftrightarrow> waiting s = []))
    \<and> (current s = idle s \<longrightarrow> \<not> (\<exists>opn m'. sched_step tr m opn m'))"
proof (intro conjI impI)
  note inv = sched_reach_inv [OF assms(1)]
  assume "runs m [Running]"
  then have ni: "current s \<noteq> idle s" using assms(2) by (auto simp: runs_def)
  obtain s' where y: "sched (yield_now m) = Some s'" "switched (cpu m) s s'"
    using yield_now_spec [OF inv assms(2) ni] by blast
  then have "(current s', waiting s')
      = rr_schedule (idle s) (current s) (state_of s (current s) = Running) (waiting s)"
    by (auto simp: switched_def Let_def)
  moreover have "n \<noteq> idle s" if "waiting s = n # r" for n r
  proof -
    have "n \<in> set (waiting s)" using that by simp
    then show ?thesis by (simp add: waiting_def)
  qed
  ultimately show "current_of (yield_now m) = Some (idle s) \<longleftrightarrow> waiting s = []"
    using y(1) by (cases "waiting s") (auto simp: current_of_def rr_schedule_def Let_def)
next
  assume c: "current s = idle s"
  moreover have "sched_inv s" using sched_reach_inv [OF assms(1)] assms(2) by (auto simp: machine_inv_def)
  ultimately have "\<not> iflag m"
    using sched_reach_inv [OF assms(1)] assms(2) sched_invD(3) by (auto simp: machine_inv_def)
  with c show "\<not> (\<exists>opn m'. sched_step tr m opn m')"
    using assms(2) by (auto simp: runs_def elim!: sched_step.cases)
qed

theorem idle_is_final_witness: "\<not> (\<exists>opn m'. sched_step 0x1000 (yield_now demo_boot) opn m')"
proof -
  obtain s where "sched (yield_now demo_boot) = Some s" "current s = idle s"
    using demo_boot_yield(2) by blast
  with idle_is_final [OF demo_boot_yield(1) this(1)] show ?thesis by blast
qed

text \<open>The verification report passes all three checks in every reachable state whose
  current thread is running, as long as the thread ids have not wrapped around.\<close>

lemma sched_verify_passes:
  assumes "sched_reach tr m" "sched m = Some s" "state_of s (current s) = Running"
    "length (threads s) < 2 ^ 64"
  shows "sched_verify (sched m) = [True, True, True]"
proof -
  have inv: "sched_inv s" using sched_reach_inv [OF assms(1)] assms(2) by (auto simp: machine_inv_def)
  note I = sched_invD [OF inv]
  define snap where "snap = map (\<lambda>t. \<lparr>info_id = thread_id t, info_state = thread_state t\<rparr>) (threads s)"
  have snap: "thread_snapshot (sched m) = snap" "length snap = length (threads s)"
    using I(1) assms(2) by (simp_all add: thread_snapshot_def snap_def)
  have "info_state (snap ! i) = Running \<longleftrightarrow> i = current s" if "i < length (threads s)" for i
    using that I(10) [OF that] assms(3) by (cases "i = current s") (auto simp: snap_def state_of_def)
  then have "{i. i < length snap \<and> info_state (snap ! i) = Running} = {current s}"
    using I(7) snap(2) by auto
  then have "length (filter (\<lambda>t. info_state t = Running) snap) = 1"
    by (simp add: length_filter_conv_card)
  moreover have "ids_unique snap"
    unfolding ids_unique_iff using I(9) assms(4)
    by (simp add: snap_def distinct_conv_nth of_nat_word_inj)
  ultimately show ?thesis
    using I(2) snap by (auto simp: sched_verify_def Let_def)
qed

end
