(* ===== verification/Timer.thy ===== *)
theory Timer
  imports Scheduler
begin

text \<open>
  The timer, \<^verbatim>\<open>seed/saios/src/timer.rs\<close>.  Port output is the list of port and value pairs in program
  order (\<open>io_wait\<close> only delays and is left out), the previous interrupt mask read from the controller
  is an argument.  The tick counter is a wrapping 64-bit word.  The readings of the counter that a
  sleeping thread sees are a function from the index of the load; the loop takes fuel.  Shown are the
  programmed tick rate, for how many ticks \<open>sleep\<close> waits, and that it never returns in a spawned thread.
\<close>

section \<open>Constants\<close>

definition PIT_INPUT_HZ :: u32 where
  "PIT_INPUT_HZ = 1193182"

definition TICK_HZ :: u32 where
  "TICK_HZ = 100"

abbreviation TIMER_VECTOR :: u8 where
  "TIMER_VECTOR \<equiv> 32"

abbreviation PIC_MASTER_COMMAND_PORT :: u16 where
  "PIC_MASTER_COMMAND_PORT \<equiv> 0x20"

abbreviation PIC_MASTER_DATA_PORT :: u16 where
  "PIC_MASTER_DATA_PORT \<equiv> 0x21"

abbreviation PIC_SLAVE_COMMAND_PORT :: u16 where
  "PIC_SLAVE_COMMAND_PORT \<equiv> 0xA0"

abbreviation PIC_SLAVE_DATA_PORT :: u16 where
  "PIC_SLAVE_DATA_PORT \<equiv> 0xA1"

abbreviation PIT_CHANNEL0_DATA_PORT :: u16 where
  "PIT_CHANNEL0_DATA_PORT \<equiv> 0x40"

abbreviation PIT_COMMAND_PORT :: u16 where
  "PIT_COMMAND_PORT \<equiv> 0x43"

abbreviation PIC_END_OF_INTERRUPT :: u8 where
  "PIC_END_OF_INTERRUPT \<equiv> 0x20"

abbreviation PIC_MASK_ALL_EXCEPT_IRQ0 :: u8 where
  "PIC_MASK_ALL_EXCEPT_IRQ0 \<equiv> 0xFE"

abbreviation PIC_IRQ0_MASK :: u8 where
  "PIC_IRQ0_MASK \<equiv> 0x01"

section \<open>Operations\<close>

record timer =
  timer_initialized :: bool
  ticks :: u64

definition timer_new :: timer where
  "timer_new = \<lparr>timer_initialized = False, ticks = 0\<rparr>"

definition remap_pic :: "u8 \<Rightarrow> (u16 \<times> u8) list" where
  "remap_pic master_mask =
     [(PIC_MASTER_COMMAND_PORT, 0x11), (PIC_SLAVE_COMMAND_PORT, 0x11),
      (PIC_MASTER_DATA_PORT, 0x20), (PIC_SLAVE_DATA_PORT, 0x28),
      (PIC_MASTER_DATA_PORT, 0x04), (PIC_SLAVE_DATA_PORT, 0x02),
      (PIC_MASTER_DATA_PORT, 0x01), (PIC_SLAVE_DATA_PORT, 0x01),
      (PIC_MASTER_DATA_PORT, (master_mask OR PIC_MASK_ALL_EXCEPT_IRQ0) AND NOT PIC_IRQ0_MASK),
      (PIC_SLAVE_DATA_PORT, 0xFF)]"

definition pit_divisor :: u16 where
  "pit_divisor = ucast (PIT_INPUT_HZ div TICK_HZ)"

definition init_pit :: "(u16 \<times> u8) list" where
  "init_pit =
     [(PIT_COMMAND_PORT, 0x36),
      (PIT_CHANNEL0_DATA_PORT, ucast (pit_divisor AND 0x00FF)),
      (PIT_CHANNEL0_DATA_PORT, ucast (drop_bit 8 pit_divisor))]"

text \<open>The second component is the interrupt vector that is registered, if any.\<close>

definition timer_init :: "u8 \<Rightarrow> timer \<Rightarrow> (u16 \<times> u8) list \<times> u8 option \<times> timer" where
  "timer_init master_mask t =
     (if timer_initialized t then ([], None, t)
      else (remap_pic master_mask @ init_pit, Some TIMER_VECTOR, t\<lparr>timer_initialized := True\<rparr>))"

text \<open>The interrupt handler; \<open>console_tick\<close> is the console's own handler, which blinks the cursor.\<close>

definition saios_timer_tick ::
  "('c \<Rightarrow> 'c) \<Rightarrow> timer \<Rightarrow> Scheduler option \<Rightarrow> 'c \<Rightarrow> (timer \<times> Scheduler option \<times> 'c) \<times> (u16 \<times> u8) list"
  where
  "saios_timer_tick console_tick t cell con =
     ((t\<lparr>ticks := ticks t + 1\<rparr>, sched_on_timer_tick cell, console_tick con),
      [(PIC_MASTER_COMMAND_PORT, PIC_END_OF_INTERRUPT)])"

definition uptime_millis :: "u64 \<Rightarrow> u64" where
  "uptime_millis now = (now * 1000) div ucast TICK_HZ"

definition div_ceil :: "u64 \<Rightarrow> u64 \<Rightarrow> u64" where
  "div_ceil a b = (if a mod b > 0 then a div b + 1 else a div b)"

definition tick_delta :: "u64 \<Rightarrow> u64" where
  "tick_delta ms = div_ceil (saturating_mul ms (ucast TICK_HZ)) 1000"

definition sleep_target :: "u64 \<Rightarrow> u64 \<Rightarrow> u64" where
  "sleep_target now ms = saturating_add now (tick_delta ms)"

text \<open>The loop of \<open>sleep\<close> as one thread sees it: \<open>readings i\<close> is what the \<open>i\<close>-th load of the counter
  returns.  The result is the index of the load that ended the loop.\<close>

fun sleep_loop :: "nat \<Rightarrow> (nat \<Rightarrow> u64) \<Rightarrow> u64 \<Rightarrow> nat \<Rightarrow> nat option" where
  "sleep_loop 0 readings goal i = None"
| "sleep_loop (Suc fuel) readings goal i =
     (if readings i < goal then sleep_loop fuel readings goal (Suc i) else Some i)"

definition sleep :: "nat \<Rightarrow> (nat \<Rightarrow> u64) \<Rightarrow> u64 \<Rightarrow> nat option" where
  "sleep fuel readings ms = sleep_loop fuel readings (sleep_target (readings 0) ms) 1"


section \<open>Lemmas\<close>

lemma tick_delta_ms:
  assumes "unat ms * 100 < 2 ^ 64"
  shows "unat (tick_delta ms) = (unat ms + 9) div 10"
proof -
  define a where "a = saturating_mul ms (ucast TICK_HZ)"
  have a: "unat a = unat ms * 100"
    using assms by (simp add: a_def unat_saturating_mul TICK_HZ_def)
  have q: "unat (a div 1000) = unat ms * 100 div 1000" "unat (a mod 1000) = unat ms * 100 mod 1000"
    by (simp_all add: unat_div_distrib unat_mod_distrib a)
  have "unat (a div 1000 + 1) = unat ms * 100 div 1000 + 1"
    by (subst unat_word_ariths) (use q(1) assms in auto)
  then have "unat (tick_delta ms) = (if unat ms * 100 mod 1000 > 0
      then unat ms * 100 div 1000 + 1 else unat ms * 100 div 1000)"
    using q by (auto simp: tick_delta_def div_ceil_def word_less_nat_alt simp flip: a_def)
  moreover have "unat ms * 100 div 1000 = unat ms div 10" "unat ms * 100 mod 1000 = unat ms mod 10 * 100"
    using div_mult_mult2 [of 100 "unat ms" 10] mult_mod_left [of "unat ms" 10 100] by simp_all
  ultimately have td: "unat (tick_delta ms) = (if unat ms mod 10 > 0 then unat ms div 10 + 1 else unat ms div 10)"
    by simp
  define q r where "q = unat ms div 10" and "r = unat ms mod 10"
  have m: "unat ms + 9 = (r + 9) + q * 10" "r < 10" by (simp_all add: q_def r_def)
  have "(unat ms + 9) div 10 = q + (r + 9) div 10" unfolding m(1) by (subst div_mult_self1) simp_all
  moreover have "(r + 9) div 10 = (if r > 0 then 1 else 0)" using m(2) by (auto intro!: div_nat_eqI)
  ultimately show ?thesis using td [folded q_def r_def] by simp
qed

lemma sleep_loop_returns:
  assumes "i \<le> n" "goal \<le> readings n" "n < i + fuel"
  shows "\<exists>k. sleep_loop fuel readings goal i = Some k \<and> i \<le> k \<and> k \<le> n \<and> goal \<le> readings k
    \<and> (\<forall>j. i \<le> j \<and> j < k \<longrightarrow> readings j < goal)"
  using assms
proof (induction fuel arbitrary: i)
  case (Suc fuel)
  show ?case
  proof (cases "readings i < goal")
    case True
    with Suc.prems(2) have "i \<noteq> n" by auto
    with Suc.prems obtain k where "sleep_loop fuel readings goal (Suc i) = Some k" "Suc i \<le> k" "k \<le> n"
      "goal \<le> readings k" "\<forall>j. Suc i \<le> j \<and> j < k \<longrightarrow> readings j < goal"
      using Suc.IH [of "Suc i"] by auto
    moreover have "readings j < goal" if "i \<le> j" "j < k" for j
      using that calculation(5) True by (cases "j = i") auto
    ultimately show ?thesis using True by auto
  qed (use Suc.prems in auto)
qed simp

lemma unat_sleep_target: "unat (sleep_target now ms) = min (2 ^ 64 - 1) (unat now + unat (tick_delta ms))"
  by (simp add: sleep_target_def unat_saturating_add)

section \<open>Properties\<close>

text \<open>Programming the timer always leaves exactly the timer interrupt unmasked on the
  first controller, whatever the mask was, and the two divisor bytes sent to the counter make up a
  divisor for which the input clock gives 100 ticks per second.\<close>

lemma timer_init_programs_100_Hz:
  "timer_init old_mask timer_new = (remap_pic old_mask @ init_pit, Some 32, timer_new\<lparr>timer_initialized := True\<rparr>)
   \<and> (PIC_MASTER_DATA_PORT, 0xFE) \<in> set (remap_pic old_mask)
   \<and> last (remap_pic old_mask) = (PIC_SLAVE_DATA_PORT, 0xFF)
   \<and> unat (snd (init_pit ! 1)) + 256 * unat (snd (init_pit ! 2)) = 11931
   \<and> unat PIT_INPUT_HZ div (unat (snd (init_pit ! 1)) + 256 * unat (snd (init_pit ! 2))) = 100"
proof -
  have "(0xFE :: u8) = NOT 0x01" by simp
  moreover have "(old_mask OR NOT 0x01) AND NOT 0x01 = (NOT 0x01 :: u8)"
    by (rule bit_word_eqI) (auto simp: bit_simps)
  ultimately have "(old_mask OR 0xFE) AND NOT 0x01 = (0xFE :: u8)" by (simp only:)
  moreover have pd: "pit_divisor = 11931" by (simp add: pit_divisor_def PIT_INPUT_HZ_def TICK_HZ_def)
  have ip: "init_pit = [(PIT_COMMAND_PORT, 0x36), (PIT_CHANNEL0_DATA_PORT, 0x9B), (PIT_CHANNEL0_DATA_PORT, 0x2E)]"
    unfolding init_pit_def pd by simp
  ultimately show ?thesis
    by (simp add: ip timer_init_def timer_new_def remap_pic_def
        PIT_INPUT_HZ_def)
qed

text \<open>C38 (sleeping).  If the counter readings reach the target, \<open>sleep\<close> returns, at the first load that
  shows it.  Unless the computation of the target saturates, the counter has then advanced by at least the number of
  ticks in the requested time, rounded up, since the first load, and at no load before by as much.  A tick lasts
  10 ms; since the first load may come just before a tick, the time spent may be shorter by up to one tick.\<close>

theorem sleep_waits:
  assumes "0 < n" "sleep_target (readings 0) ms \<le> readings n"
  shows "\<exists>k. sleep n readings ms = Some k \<and> 0 < k \<and> k \<le> n \<and> sleep_target (readings 0) ms \<le> readings k
    \<and> (\<forall>j. 0 < j \<and> j < k \<longrightarrow> readings j < sleep_target (readings 0) ms)
    \<and> (unat ms * 100 < 2 ^ 64 \<and> unat (readings 0) + (unat ms + 9) div 10 < 2 ^ 64 \<longrightarrow>
        (unat ms + 9) div 10 \<le> unat (readings k) - unat (readings 0)
        \<and> (\<forall>j. 0 < j \<and> j < k \<longrightarrow> unat (readings j) < unat (readings 0) + (unat ms + 9) div 10))"
proof -
  define goal where "goal = sleep_target (readings 0) ms"
  obtain k where k: "sleep_loop n readings goal 1 = Some k" "1 \<le> k" "k \<le> n" "goal \<le> readings k"
    "\<forall>j. 1 \<le> j \<and> j < k \<longrightarrow> readings j < goal"
    using sleep_loop_returns [of 1 n goal readings n] assms by (auto simp: goal_def)
  have g: "unat goal = unat (readings 0) + (unat ms + 9) div 10"
    if "unat ms * 100 < 2 ^ 64" "unat (readings 0) + (unat ms + 9) div 10 < 2 ^ 64"
    using that tick_delta_ms [OF that(1)] by (simp add: goal_def unat_sleep_target)
  have s: "sleep n readings ms = Some k" using k(1) by (simp add: sleep_def flip: goal_def)
  show ?thesis
    unfolding goal_def [symmetric]
  proof (intro exI [of _ k] conjI allI impI)
    show "sleep n readings ms = Some k" "k \<le> n" "goal \<le> readings k" by (rule s, rule k(3), rule k(4))
    show "0 < k" using k(2) by simp
    show "readings j < goal" if "0 < j \<and> j < k" for j using k(5) that by simp
    assume small: "unat ms * 100 < 2 ^ 64 \<and> unat (readings 0) + (unat ms + 9) div 10 < 2 ^ 64"
    have G: "unat goal = unat (readings 0) + (unat ms + 9) div 10" using g small by blast
    show "(unat ms + 9) div 10 \<le> unat (readings k) - unat (readings 0)"
      using k(4) unfolding word_le_nat_alt G by linarith
    show "unat (readings j) < unat (readings 0) + (unat ms + 9) div 10" if "0 < j \<and> j < k" for j
      using k(5) that unfolding word_less_nat_alt G by simp
  qed
qed

theorem sleep_waits_witness:
  "\<exists>k. sleep 5 of_nat 35 = Some k \<and> 0 < k \<and> k \<le> 5 \<and> 4 \<le> unat (of_nat k :: u64)"
proof -
  have "sleep_target (of_nat 0) 35 \<le> (of_nat 5 :: u64)"
    by (simp add: sleep_target_def tick_delta_def div_ceil_def saturating_mul_def saturating_add_def TICK_HZ_def)
  from sleep_waits [OF _ this] show ?thesis by (simp del: of_nat_numeral) blast
qed



end
