(* ===== verification/Text.thy ===== *)
theory Text
  imports Prelude
begin

text \<open>
  The string operations of Rust's standard library that the kernel uses.  A \<open>String\<close> or \<open>&str\<close> is a
  \<open>string\<close>; the kernel's texts are ASCII, so bytes and characters coincide and white space is ASCII
  white space.  Shown are that printing and parsing of numbers are inverse, and how splitting, joining
  and trimming interact.
\<close>

section \<open>Prefixes and searching\<close>

definition starts_with :: "string \<Rightarrow> string \<Rightarrow> bool" where
  "starts_with s p = (take (length p) s = p)"

definition strip_prefix :: "string \<Rightarrow> string \<Rightarrow> string option" where
  "strip_prefix s p = (if starts_with s p then Some (drop (length p) s) else None)"

definition strip_suffix :: "string \<Rightarrow> string \<Rightarrow> string option" where
  "strip_suffix s p =
     (if length p \<le> length s \<and> drop (length s - length p) s = p
      then Some (take (length s - length p) s) else None)"

definition contains_char :: "string \<Rightarrow> char \<Rightarrow> bool" where
  "contains_char s c = (c \<in> set s)"

section \<open>White space\<close>

definition is_whitespace :: "char \<Rightarrow> bool" where
  "is_whitespace c = (c \<in> set [CHR '' '', CHR 0x09, CHR 0x0A, CHR 0x0B, CHR 0x0C, CHR 0x0D])"

definition trim_start :: "string \<Rightarrow> string" where
  "trim_start s = dropWhile is_whitespace s"

definition trim_end :: "string \<Rightarrow> string" where
  "trim_end s = rev (dropWhile is_whitespace (rev s))"

definition trim :: "string \<Rightarrow> string" where
  "trim s = trim_end (trim_start s)"

section \<open>Splitting\<close>

text \<open>\<open>str::split(c)\<close>: always at least one piece.\<close>

fun split_char :: "char \<Rightarrow> string \<Rightarrow> string list" where
  "split_char c [] = [[]]"
| "split_char c (x # xs) =
     (if x = c then [] # split_char c xs
      else case split_char c xs of [] \<Rightarrow> [[x]] | p # ps \<Rightarrow> (x # p) # ps)"

fun join_char :: "char \<Rightarrow> string list \<Rightarrow> string" where
  "join_char c [] = []"
| "join_char c [p] = p"
| "join_char c (p # ps) = p @ c # join_char c ps"

text \<open>\<open>str::lines\<close>: pieces between line feeds, without a final empty piece and without a carriage
  return at the end of a piece.\<close>

definition lines :: "string \<Rightarrow> string list" where
  "lines s =
     (let ps = split_char (CHR 0x0A) s;
          qs = (if ps \<noteq> [] \<and> last ps = [] then butlast ps else ps)
      in map (\<lambda>p. case strip_suffix p [CHR 0x0D] of Some q \<Rightarrow> q | None \<Rightarrow> p) qs)"

text \<open>\<open>str::split_whitespace\<close>.\<close>

definition split_whitespace :: "string \<Rightarrow> string list" where
  "split_whitespace s =
     filter (\<lambda>p. p \<noteq> []) (split_char (CHR '' '') (map (\<lambda>c. if is_whitespace c then CHR '' '' else c) s))"

section \<open>Case\<close>

definition upper_letters :: string where
  "upper_letters = ''ABCDEFGHIJKLMNOPQRSTUVWXYZ''"

definition lower_letters :: string where
  "lower_letters = ''abcdefghijklmnopqrstuvwxyz''"

definition to_ascii_lowercase :: "char \<Rightarrow> char" where
  "to_ascii_lowercase c = (case map_of (zip upper_letters lower_letters) c of Some d \<Rightarrow> d | None \<Rightarrow> c)"

definition eq_ignore_ascii_case :: "string \<Rightarrow> string \<Rightarrow> bool" where
  "eq_ignore_ascii_case s t = (map to_ascii_lowercase s = map to_ascii_lowercase t)"

section \<open>Numbers\<close>

definition digit_char :: "nat \<Rightarrow> char" where
  "digit_char d = ''0123456789abcdef'' ! d"

fun radix_string :: "nat \<Rightarrow> nat \<Rightarrow> string" where
  "radix_string b n =
     (if b < 2 \<or> n < b then [digit_char n] else radix_string b (n div b) @ [digit_char (n mod b)])"

declare radix_string.simps [simp del]

definition dec_string :: "nat \<Rightarrow> string" where
  "dec_string n = radix_string 10 n"

definition int_string :: "int \<Rightarrow> string" where
  "int_string i = (if i < 0 then CHR ''-'' # dec_string (nat (- i)) else dec_string (nat i))"

definition hex_string :: "nat \<Rightarrow> string" where
  "hex_string n = radix_string 16 n"

definition digit_val :: "nat \<Rightarrow> char \<Rightarrow> nat option" where
  "digit_val b c = find_position (\<lambda>d. d = to_ascii_lowercase c) (take b ''0123456789abcdef'')"

text \<open>\<open>from_str_radix\<close> on an unsigned type with values below \<open>lim\<close>: an optional plus sign, at least
  one digit, and an error as soon as the value does not fit.\<close>

fun parse_digits :: "nat \<Rightarrow> nat \<Rightarrow> nat \<Rightarrow> string \<Rightarrow> nat option" where
  "parse_digits b lim acc [] = Some acc"
| "parse_digits b lim acc (c # cs) =
     (case digit_val b c of
        None \<Rightarrow> None
      | Some d \<Rightarrow> if acc * b + d < lim then parse_digits b lim (acc * b + d) cs else None)"

definition parse_radix :: "nat \<Rightarrow> nat \<Rightarrow> string \<Rightarrow> nat option" where
  "parse_radix b lim s =
     (let ds = (case s of c # cs \<Rightarrow> if c = CHR ''+'' then cs else s | [] \<Rightarrow> [])
      in if ds = [] then None else parse_digits b lim 0 ds)"

section \<open>UTF-8\<close>

text \<open>\<open>String::from_utf8_lossy\<close> on bytes: well-formed sequences are kept, each maximal ill-formed prefix becomes
  the three bytes of the replacement character.  The result is the byte content of the \<open>String\<close>.\<close>

definition cont :: "nat \<Rightarrow> bool" where
  "cont b \<longleftrightarrow> 0x80 \<le> b \<and> b \<le> 0xBF"

definition second_ok :: "nat \<Rightarrow> nat \<Rightarrow> bool" where
  "second_ok a b \<longleftrightarrow>
     (if a = 0xE0 then 0xA0 \<le> b \<and> b \<le> 0xBF
      else if a = 0xED then 0x80 \<le> b \<and> b \<le> 0x9F
      else if a = 0xF0 then 0x90 \<le> b \<and> b \<le> 0xBF
      else if a = 0xF4 then 0x80 \<le> b \<and> b \<le> 0x8F
      else cont b)"

text \<open>Number of bytes consumed at the start of a non-empty input and whether they are well formed.\<close>

definition utf8_step :: "nat list \<Rightarrow> nat \<times> bool" where
  "utf8_step bs =
     (let a = bs ! 0; n = length bs
      in if a < 0x80 then (1, True)
         else if 0xC2 \<le> a \<and> a \<le> 0xDF then
           (if 1 < n \<and> cont (bs ! 1) then (2, True) else (1, False))
         else if 0xE0 \<le> a \<and> a \<le> 0xEF then
           (if \<not> (1 < n \<and> second_ok a (bs ! 1)) then (1, False)
            else if 2 < n \<and> cont (bs ! 2) then (3, True) else (2, False))
         else if 0xF0 \<le> a \<and> a \<le> 0xF4 then
           (if \<not> (1 < n \<and> second_ok a (bs ! 1)) then (1, False)
            else if \<not> (2 < n \<and> cont (bs ! 2)) then (2, False)
            else if 3 < n \<and> cont (bs ! 3) then (4, True) else (3, False))
         else (1, False))"

lemma utf8_step_pos: "0 < fst (utf8_step bs)"
  by (simp add: utf8_step_def Let_def)

function utf8_values :: "nat list \<Rightarrow> nat list" where
  "utf8_values bs =
     (if bs = [] then []
      else (if snd (utf8_step bs) then take (fst (utf8_step bs)) bs else [0xEF, 0xBF, 0xBD])
        @ utf8_values (drop (fst (utf8_step bs)) bs))"
  by pat_completeness auto
termination
  by (relation "measure length") (simp_all add: utf8_step_pos)

declare utf8_values.simps [simp del]

definition utf8_lossy :: "u8 list \<Rightarrow> string" where
  "utf8_lossy bs = map char_of (utf8_values (map unat bs))"

section \<open>Lemmas\<close>

lemma utf8_values_ascii: "\<forall>b\<in>set bs. b < 0x80 \<Longrightarrow> utf8_values bs = bs"
proof (induction bs)
  case (Cons a bs)
  then show ?case by (subst utf8_values.simps) (simp add: utf8_step_def Let_def)
qed (simp add: utf8_values.simps)

text \<open>ASCII text survives being stored as bytes.\<close>

lemma utf8_lossy_ascii:
  assumes "\<forall>c\<in>set s. of_char c < (0x80 :: nat)"
  shows "utf8_lossy (map of_char s) = s"
proof -
  have u: "unat (of_char c :: u8) = of_char c" for c
  proof -
    have "(of_char c :: u8) = of_nat (of_char c :: nat)" by (simp only: of_nat_of_char)
    then have "unat (of_char c :: u8) = of_char c mod 2 ^ LENGTH(8)" by (simp only: unat_of_nat)
    then show ?thesis by simp
  qed
  have "map unat (map of_char s :: u8 list) = map of_char s" using u by simp
  moreover have "utf8_values (map of_char s) = map of_char s" using assms by (intro utf8_values_ascii) auto
  ultimately have "utf8_lossy (map of_char s) = map char_of (map of_char s :: nat list)"
    unfolding utf8_lossy_def by (simp only:)
  then show ?thesis by simp
qed

lemma split_char_nonempty [simp]: "split_char c s \<noteq> []"
  by (induction s) (auto split: list.splits)

lemma join_char_Cons: "join_char c ((x # p) # ps) = x # join_char c (p # ps)"
  by (cases ps) auto

lemma join_char_Nil: "join_char c ([] # p # ps) = c # join_char c (p # ps)"
  by simp

lemma join_split: "join_char c (split_char c s) = s"
proof (induction s)
  case (Cons x s)
  then show ?case by (cases "split_char c s") (auto simp: join_char_Cons join_char_Nil simp del: join_char.simps(2,3))
qed simp

lemma split_no_sep: "p \<in> set (split_char c s) \<Longrightarrow> c \<notin> set p"
  by (induction s arbitrary: p) (auto split: list.splits if_splits)

lemma split_char_append:
  "c \<notin> set p \<Longrightarrow> split_char c (p @ c # s) = p # split_char c s"
  by (induction p) auto

lemma split_char_single: "c \<notin> set p \<Longrightarrow> split_char c p = [p]"
  by (induction p) auto

lemma split_join: "ps \<noteq> [] \<Longrightarrow> \<forall>p\<in>set ps. c \<notin> set p \<Longrightarrow> split_char c (join_char c ps) = ps"
  by (induction c ps rule: join_char.induct) (auto simp: split_char_append split_char_single)

lemma starts_with_iff: "starts_with s p \<longleftrightarrow> (\<exists>r. s = p @ r)"
  unfolding starts_with_def by (metis append_eq_conv_conj append_take_drop_id)

lemma strip_prefix_Some: "strip_prefix s p = Some r \<longleftrightarrow> s = p @ r"
  unfolding strip_prefix_def starts_with_def by (metis append_eq_conv_conj append_take_drop_id option.distinct(1) option.inject)

lemma trim_idem: "s = [] \<or> (\<not> is_whitespace (hd s) \<and> \<not> is_whitespace (last s)) \<Longrightarrow> trim s = s"
proof (cases s rule: rev_cases)
  case (snoc t x)
  assume "s = [] \<or> (\<not> is_whitespace (hd s) \<and> \<not> is_whitespace (last s))"
  with snoc have "\<not> is_whitespace (hd s)" "\<not> is_whitespace x" by auto
  with snoc show ?thesis by (cases t) (auto simp: trim_def trim_start_def trim_end_def)
qed (simp add: trim_def trim_start_def trim_end_def)

lemma eq_ignore_ascii_case_refl [simp]: "eq_ignore_ascii_case s s"
  by (simp add: eq_ignore_ascii_case_def)

lemma eq_ignore_ascii_case_sym: "eq_ignore_ascii_case s t = eq_ignore_ascii_case t s"
  by (auto simp: eq_ignore_ascii_case_def)

lemma to_ascii_lowercase_id: "c \<notin> set upper_letters \<Longrightarrow> to_ascii_lowercase c = c"
proof -
  assume "c \<notin> set upper_letters"
  then have "map_of (zip upper_letters lower_letters) c = None"
    by (auto simp: map_of_eq_None_iff dest: set_zip_leftD)
  then show ?thesis by (simp add: to_ascii_lowercase_def)
qed

lemma eq_ignore_ascii_case_lower:
  "set s \<inter> set upper_letters = {} \<Longrightarrow> set t \<inter> set upper_letters = {} \<Longrightarrow> eq_ignore_ascii_case s t \<longleftrightarrow> s = t"
proof -
  assume "set s \<inter> set upper_letters = {}" "set t \<inter> set upper_letters = {}"
  then have "map to_ascii_lowercase s = s" "map to_ascii_lowercase t = t"
    by (auto intro!: map_idI to_ascii_lowercase_id)
  then show ?thesis by (simp add: eq_ignore_ascii_case_def)
qed

lemma digit_chars:
  "\<forall>c\<in>set ''0123456789abcdef''. to_ascii_lowercase c = c \<and> c \<noteq> CHR ''+''"
  by (simp add: to_ascii_lowercase_def upper_letters_def lower_letters_def)

lemma digit_val_char:
  assumes "b = 10 \<or> b = 16" "d < b"
  shows "digit_val b (digit_char d) = Some d" "digit_char d \<noteq> CHR ''+''"
proof -
  let ?ds = "''0123456789abcdef''"
  have len: "length ?ds = 16" by simp
  have d: "d < length ?ds" unfolding len using assms by auto
  then have "?ds ! d \<in> set ?ds" by (rule nth_mem)
  then have c: "to_ascii_lowercase (digit_char d) = digit_char d" "digit_char d \<noteq> CHR ''+''"
    using digit_chars unfolding digit_char_def by blast+
  have "distinct ?ds" by simp
  then have "distinct (take b ?ds)" by (rule distinct_take)
  moreover have "d < length (take b ?ds)" using d assms(2) by simp
  ultimately have "find_position (\<lambda>x. x = take b ?ds ! d) (take b ?ds) = Some d"
    by (rule find_position_nth)
  then show "digit_val b (digit_char d) = Some d"
    unfolding digit_val_def c unfolding digit_char_def using assms(2) by simp
  show "digit_char d \<noteq> CHR ''+''" by (rule c)
qed

lemma parse_digits_append:
  "parse_digits b lim acc (s @ t)
     = (case parse_digits b lim acc s of None \<Rightarrow> None | Some a \<Rightarrow> parse_digits b lim a t)"
  by (induction s arbitrary: acc) (auto split: option.splits)

lemma parse_digits_radix:
  assumes "b = 10 \<or> b = 16" "n < lim"
  shows "parse_digits b lim 0 (radix_string b n) = Some n"
  using assms
proof (induction b n rule: radix_string.induct)
  case (1 b n)
  show ?case
  proof (cases "n < b")
    case True
    then show ?thesis using 1 digit_val_char [of b n] by (subst radix_string.simps) simp
  next
    case False
    have b: "\<not> b < 2" "1 < b" using "1.prems" by auto
    have "n div b < lim" using "1.prems"(2) by (meson div_le_dividend le_less_trans)
    then have "parse_digits b lim 0 (radix_string b (n div b)) = Some (n div b)"
      using "1.IH" "1.prems" False b by auto
    moreover have "digit_val b (digit_char (n mod b)) = Some (n mod b)"
      using digit_val_char [of b "n mod b"] "1.prems" b by auto
    ultimately show ?thesis
      using False b "1.prems"(2) by (subst radix_string.simps) (simp add: parse_digits_append)
  qed
qed

lemma radix_string_hd: "b = 10 \<or> b = 16 \<Longrightarrow> \<exists>d cs. radix_string b n = digit_char d # cs \<and> d < b"
proof (induction b n rule: radix_string.induct)
  case (1 b n)
  show ?case
  proof (cases "b < 2 \<or> n < b")
    case True
    with "1.prems" show ?thesis by (subst radix_string.simps) auto
  next
    case False
    with 1 obtain d cs where "radix_string b (n div b) = digit_char d # cs" "d < b" by auto
    with False show ?thesis by (subst radix_string.simps) auto
  qed
qed

lemma parse_radix_string:
  assumes "b = 10 \<or> b = 16" "n < lim"
  shows "parse_radix b lim (radix_string b n) = Some n"
proof -
  obtain d cs where "radix_string b n = digit_char d # cs" "d < b"
    using radix_string_hd [OF assms(1)] by blast
  with parse_digits_radix [OF assms] digit_val_char(2) [OF assms(1)] show ?thesis
    by (auto simp: parse_radix_def)
qed

end
