(* ===== verification/Kom.thy ===== *)
theory Kom
  imports Text
begin

text \<open>
  The kernel object manager, \<^verbatim>\<open>seed/saios/src/kernel/object/\<close>: a registry of named, typed objects
  with ids that are handed out once, and a log of the last 256 object events.  The registry cell is
  created on first use and guarded by a spin lock, so each call is one step on the registry.  Shown is
  the invariant of the registry, the laws its clients rely on (the locale \<open>id_registry\<close>, which the
  device and driver registries build on), and that the statistics partition the objects.
\<close>

section \<open>Data\<close>

datatype ObjectType = Kernel | Process | Thread | Driver | Device | Mount

datatype ObjectState = Created | Running | Stopped | Faulted

datatype ObjectEvent = EvCreated | EvStarted | EvStopped | EvDestroyed | EvFaulted

record ObjectRecord =
  object_id :: u64
  object_type :: ObjectType
  object_name :: string
  object_state :: ObjectState

record ObjectEventRecord =
  oe_id :: u64
  oe_event :: ObjectEvent
  oe_name :: string

record KomStats =
  ks_total :: nat
  kernels :: nat
  processes :: nat
  kthreads :: nat
  drivers :: nat
  devices :: nat
  mounts :: nat

record Registry =
  kom_next_id :: u64
  objects :: "ObjectRecord list"
  object_events :: "ObjectEventRecord list"

definition registry_new :: Registry where
  "registry_new = \<lparr>kom_next_id = 1, objects = [], object_events = []\<rparr>"

section \<open>Names of types\<close>

definition object_type_as_str :: "ObjectType \<Rightarrow> string" where
  "object_type_as_str t =
     (case t of
        Kernel \<Rightarrow> ''Kernel''
      | Process \<Rightarrow> ''Process''
      | Thread \<Rightarrow> ''Thread''
      | Driver \<Rightarrow> ''Driver''
      | Device \<Rightarrow> ''Device''
      | Mount \<Rightarrow> ''Mount'')"

definition object_type_parse :: "string \<Rightarrow> ObjectType option" where
  "object_type_parse input =
     (if eq_ignore_ascii_case input ''kernel'' then Some Kernel
      else if eq_ignore_ascii_case input ''process'' then Some Process
      else if eq_ignore_ascii_case input ''thread'' then Some Thread
      else if eq_ignore_ascii_case input ''driver'' then Some Driver
      else if eq_ignore_ascii_case input ''device'' then Some Device
      else if eq_ignore_ascii_case input ''mount'' then Some Mount
      else None)"

definition object_state_debug :: "ObjectState \<Rightarrow> string" where
  "object_state_debug s =
     (case s of
        Created \<Rightarrow> ''Created''
      | Running \<Rightarrow> ''Running''
      | Stopped \<Rightarrow> ''Stopped''
      | Faulted \<Rightarrow> ''Faulted'')"

section \<open>Operations\<close>

definition kom_alloc_id :: "Registry \<Rightarrow> u64 \<times> Registry" where
  "kom_alloc_id r = (kom_next_id r, r\<lparr>kom_next_id := saturating_add (kom_next_id r) 1\<rparr>)"

definition push_event :: "u64 \<Rightarrow> ObjectEvent \<Rightarrow> string \<Rightarrow> Registry \<Rightarrow> Registry" where
  "push_event i ev name r =
     r\<lparr>object_events := push_bounded 256 \<lparr>oe_id = i, oe_event = ev, oe_name = name\<rparr> (object_events r)\<rparr>"

definition kom_register :: "ObjectType \<Rightarrow> string \<Rightarrow> ObjectState \<Rightarrow> Registry \<Rightarrow> u64 res \<times> Registry" where
  "kom_register t name st r =
     (if name = [] then (Inl ''kom: name cannot be empty'', r)
      else if \<exists>ob\<in>set (objects r). object_name ob = name
      then (Inl ''kom: object name already exists'', r)
      else
        let (i, r1) = kom_alloc_id r;
            r2 = r1\<lparr>objects := objects r1
                   @ [\<lparr>object_id = i, object_type = t, object_name = name, object_state = st\<rparr>]\<rparr>;
            r3 = push_event i EvCreated name r2;
            r4 = (if st = Running then push_event i EvStarted name r3 else r3)
        in (Inr i, r4))"

definition kom_unregister :: "u64 \<Rightarrow> Registry \<Rightarrow> bool \<times> Registry" where
  "kom_unregister i r =
     (case find_position (\<lambda>ob. object_id ob = i) (objects r) of
        None \<Rightarrow> (False, r)
      | Some idx \<Rightarrow>
          let removed = objects r ! idx;
              r1 = r\<lparr>objects := remove_nth idx (objects r)\<rparr>
          in (True, push_event (object_id removed) EvDestroyed (object_name removed) r1))"

definition kom_find :: "u64 \<Rightarrow> Registry \<Rightarrow> ObjectRecord option" where
  "kom_find i r = find (\<lambda>ob. object_id ob = i) (objects r)"

definition find_by_name :: "string \<Rightarrow> Registry \<Rightarrow> ObjectRecord list" where
  "find_by_name name r = filter (\<lambda>ob. object_name ob = name) (objects r)"

definition find_by_type :: "ObjectType \<Rightarrow> Registry \<Rightarrow> ObjectRecord list" where
  "find_by_type t r = filter (\<lambda>ob. object_type ob = t) (objects r)"

definition kom_count :: "Registry \<Rightarrow> nat" where
  "kom_count r = length (objects r)"

text \<open>The counters are \<open>usize\<close> values with saturating increments; a vector cannot hold more than
  \<open>isize::MAX\<close> bytes of records, so they never saturate and are natural numbers here.\<close>

definition stats_add :: "ObjectRecord \<Rightarrow> KomStats \<Rightarrow> KomStats" where
  "stats_add ob s0 =
     (let s = s0\<lparr>ks_total := ks_total s0 + 1\<rparr>
      in case object_type ob of
           Kernel \<Rightarrow> s\<lparr>kernels := kernels s + 1\<rparr>
         | Process \<Rightarrow> s\<lparr>processes := processes s + 1\<rparr>
         | Thread \<Rightarrow> s\<lparr>kthreads := kthreads s + 1\<rparr>
         | Driver \<Rightarrow> s\<lparr>drivers := drivers s + 1\<rparr>
         | Device \<Rightarrow> s\<lparr>devices := devices s + 1\<rparr>
         | Mount \<Rightarrow> s\<lparr>mounts := mounts s + 1\<rparr>)"

definition kom_stats :: "Registry \<Rightarrow> KomStats" where
  "kom_stats r = fold stats_add (objects r)
     \<lparr>ks_total = 0, kernels = 0, processes = 0, kthreads = 0, drivers = 0, devices = 0, mounts = 0\<rparr>"

definition kom_events :: "nat \<Rightarrow> Registry \<Rightarrow> ObjectEventRecord list" where
  "kom_events limit r =
     (let n = min limit (length (object_events r))
      in drop (length (object_events r) - n) (object_events r))"

definition kom_init :: "Registry \<Rightarrow> Registry" where
  "kom_init r =
     (if kom_count r \<noteq> 0 then r
      else
        let r1 = snd (kom_register Kernel ''saios'' Running r);
            r2 = snd (kom_register Process ''sish'' Running r1)
        in snd (kom_register Mount ''/'' Running r2))"

definition kom_inspect :: "u64 \<Rightarrow> Registry \<Rightarrow> string list option" where
  "kom_inspect i r =
     map_option (\<lambda>ob. [''Id: '' @ dec_string (unat (object_id ob)),
                       ''Type: '' @ object_type_as_str (object_type ob),
                       ''Name: '' @ object_name ob,
                       ''State: '' @ object_state_debug (object_state ob)]) (kom_find i r)"

section \<open>Invariant\<close>

definition kom_ids :: "Registry \<Rightarrow> u64 set" where
  "kom_ids r = object_id ` set (objects r)"

definition kom_names :: "Registry \<Rightarrow> string set" where
  "kom_names r = object_name ` set (objects r)"

definition kom_inv :: "Registry \<Rightarrow> bool" where
  "kom_inv r \<longleftrightarrow> distinct (map object_id (objects r)) \<and> distinct (map object_name (objects r))
     \<and> [] \<notin> kom_names r \<and> (\<forall>i\<in>kom_ids r. i < kom_next_id r) \<and> length (object_events r) \<le> 256"

text \<open>The id counter saturates; ids are fresh as long as it has not reached the last value.\<close>

definition kom_room :: "Registry \<Rightarrow> bool" where
  "kom_room r \<longleftrightarrow> kom_next_id r \<noteq> - 1"

lemma push_event_simps [simp]:
  "kom_next_id (push_event i ev n r) = kom_next_id r" "objects (push_event i ev n r) = objects r"
  "kom_ids (push_event i ev n r) = kom_ids r" "kom_names (push_event i ev n r) = kom_names r"
  by (simp_all add: push_event_def kom_ids_def kom_names_def)

lemma push_event_inv [simp]: "kom_inv r \<Longrightarrow> kom_inv (push_event i ev n r)"
  by (auto simp: kom_inv_def push_event_def length_push_bounded kom_ids_def kom_names_def)

lemma registry_new_inv: "kom_inv registry_new" "kom_room registry_new"
  by (simp_all add: kom_inv_def registry_new_def kom_ids_def kom_names_def kom_room_def)

lemma next_id_grows: "kom_room r \<Longrightarrow> kom_next_id r < saturating_add (kom_next_id r) 1"
  using unat_neq_max [of "kom_next_id r"]
  by (simp add: kom_room_def word_less_nat_alt unat_saturating_add)

lemma kom_register_Inr:
  assumes "kom_register t name st r = (Inr i, r')" "kom_inv r" "kom_room r"
  shows "i \<notin> kom_ids r \<and> kom_ids r' = insert i (kom_ids r) \<and> name \<noteq> [] \<and> name \<notin> kom_names r
    \<and> kom_names r' = insert name (kom_names r) \<and> kom_inv r'
    \<and> kom_find i r' = Some \<lparr>object_id = i, object_type = t, object_name = name, object_state = st\<rparr>
    \<and> (\<forall>j. j \<noteq> i \<longrightarrow> kom_find j r' = kom_find j r)"
proof -
  define ob where "ob = \<lparr>object_id = i, object_type = t, object_name = name, object_state = st\<rparr>"
  have nm: "name \<noteq> []" "name \<notin> kom_names r" and i: "i = kom_next_id r"
    using assms(1) by (auto simp: kom_register_def kom_alloc_id_def Let_def kom_names_def split: if_splits)
  have os: "objects r' = objects r @ [ob]" "kom_next_id r' = saturating_add i 1"
    using assms(1) by (auto simp: kom_register_def kom_alloc_id_def Let_def ob_def split: if_splits)
  have fresh: "i \<notin> kom_ids r" using assms(2) i by (auto simp: kom_inv_def)
  have "kom_inv (r\<lparr>kom_next_id := saturating_add i 1, objects := objects r @ [ob]\<rparr>)"
    using assms(2) nm fresh next_id_grows [OF assms(3)] i
    by (auto simp: kom_inv_def kom_ids_def kom_names_def ob_def intro: less_trans)
  moreover have "r' = push_event i EvCreated name (r\<lparr>kom_next_id := saturating_add i 1, objects := objects r @ [ob]\<rparr>)
     \<or> r' = push_event i EvStarted name (push_event i EvCreated name
              (r\<lparr>kom_next_id := saturating_add i 1, objects := objects r @ [ob]\<rparr>))"
    using assms(1) by (auto simp: kom_register_def kom_alloc_id_def Let_def ob_def split: if_splits)
  ultimately have "kom_inv r'" by auto
  moreover have "find (\<lambda>x. object_id x = i) (objects r) = None"
    using fresh by (auto simp: find_None_iff kom_ids_def)
  then have "kom_find i r' = Some ob"
    by (simp add: kom_find_def os find_append ob_def)
  moreover have "kom_find j r' = kom_find j r" if "j \<noteq> i" for j
    using that by (simp add: kom_find_def os find_append ob_def split: option.split)
  ultimately show ?thesis
    using nm fresh by (simp add: kom_ids_def kom_names_def os ob_def)
qed

lemma kom_register_Inl: "kom_register t name st r = (Inl e, r') \<Longrightarrow> r' = r"
  by (auto simp: kom_register_def kom_alloc_id_def Let_def split: if_splits)

lemma kom_unregister_last:
  assumes "objects r' = objects r @ [ob]" "object_id ob \<notin> kom_ids r"
  shows "\<exists>r''. kom_unregister (object_id ob) r' = (True, r'') \<and> objects r'' = objects r"
proof -
  have "\<forall>x\<in>set (objects r). object_id x \<noteq> object_id ob"
    using assms(2) unfolding kom_ids_def by (metis imageI)
  then have "find_position (\<lambda>x. object_id x = object_id ob) (objects r) = None"
    by (simp add: find_position_None)
  then have "find_position (\<lambda>x. object_id x = object_id ob) (objects r @ [ob]) = Some (length (objects r))"
    by (simp add: find_position_append)
  then show ?thesis using assms(1) by (simp add: kom_unregister_def Let_def remove_nth_def)
qed

lemma kom_unregister_inv:
  assumes "kom_inv r" "kom_unregister i r = (b, r')"
  shows "kom_inv r' \<and> kom_ids r' = kom_ids r - {i} \<and> (b \<longleftrightarrow> i \<in> kom_ids r)"
proof (cases "find_position (\<lambda>ob. object_id ob = i) (objects r)")
  case None
  then have "i \<notin> kom_ids r" by (auto simp: find_position_None kom_ids_def)
  with None assms show ?thesis by (auto simp: kom_unregister_def)
next
  case (Some n)
  define os where "os = remove_nth n (objects r)"
  note P = find_position_Some [OF Some]
  have d: "distinct (map object_id (objects r))" "distinct (map object_name (objects r))"
    using assms(1) by (auto simp: kom_inv_def)
  have "distinct (map object_id os)" "distinct (map object_name os)"
    "object_id ` set os = kom_ids r - {i}" "object_name ` set os \<subseteq> kom_names r"
    using remove_nth_distinct [OF d(1), of n] remove_nth_distinct [OF d(2), of n] P
    by (auto simp: os_def kom_ids_def kom_names_def)
  then have "kom_inv (r\<lparr>objects := os\<rparr>)" "kom_ids (r\<lparr>objects := os\<rparr>) = kom_ids r - {i}"
    using assms(1) by (auto simp: kom_inv_def kom_ids_def kom_names_def)
  moreover have "r' = push_event (object_id (objects r ! n)) EvDestroyed (object_name (objects r ! n)) (r\<lparr>objects := os\<rparr>)" "b"
    using assms(2) Some by (auto simp: kom_unregister_def Let_def os_def)
  moreover have "i \<in> kom_ids r" using P by (auto simp: kom_ids_def)
  ultimately show ?thesis by simp
qed

lemma object_type_roundtrip: "object_type_parse (object_type_as_str t) = Some t"
  by (cases t) (simp_all add: object_type_parse_def object_type_as_str_def eq_ignore_ascii_case_def
      to_ascii_lowercase_def upper_letters_def lower_letters_def)

lemma kom_stats_partition:
  "ks_total (kom_stats r) = kom_count r
   \<and> kernels (kom_stats r) + processes (kom_stats r) + kthreads (kom_stats r) + drivers (kom_stats r)
     + devices (kom_stats r) + mounts (kom_stats r) = kom_count r"
proof -
  have "ks_total (fold stats_add os s) = ks_total s + length os
    \<and> kernels (fold stats_add os s) + processes (fold stats_add os s) + kthreads (fold stats_add os s)
      + drivers (fold stats_add os s) + devices (fold stats_add os s) + mounts (fold stats_add os s)
      = kernels s + processes s + kthreads s + drivers s + devices s + mounts s + length os" for os s
    by (induction os arbitrary: s) (auto simp: stats_add_def Let_def split: ObjectType.split)
  then show ?thesis by (simp add: kom_stats_def kom_count_def)
qed

section \<open>The contract of the registry\<close>

text \<open>What the device and driver registries use: a successful registration hands out an id that was
  not in use and keeps the invariant; a failed one changes nothing.\<close>

locale id_registry =
  fixes inv :: "'k \<Rightarrow> bool"
    and room :: "'k \<Rightarrow> bool"
    and ids :: "'k \<Rightarrow> u64 set"
    and register :: "ObjectType \<Rightarrow> string \<Rightarrow> ObjectState \<Rightarrow> 'k \<Rightarrow> u64 res \<times> 'k"
  assumes register_Inr: "inv k \<Longrightarrow> room k \<Longrightarrow> register t n st k = (Inr i, k') \<Longrightarrow>
      i \<notin> ids k \<and> ids k' = insert i (ids k) \<and> inv k'"
    and register_Inl: "register t n st k = (Inl e, k') \<Longrightarrow> k' = k"

interpretation kom: id_registry kom_inv kom_room kom_ids kom_register
  using kom_register_Inr kom_register_Inl by unfold_locales blast+

section \<open>Properties\<close>

text \<open>Registering a name that is free hands out an id no other object has; the
  object is then found under that id and no other lookup changes, and unregistering the id gives back
  exactly the objects there were before.  The invariant (distinct ids, distinct non-empty names, a log
  of at most 256 events) is kept.\<close>

lemma kom_register_roundtrip:
  assumes "kom_inv r" "kom_room r" "kom_register t name st r = (Inr i, r')"
  shows "i \<notin> kom_ids r \<and> name \<notin> kom_names r \<and> kom_inv r'
    \<and> kom_find i r' = Some \<lparr>object_id = i, object_type = t, object_name = name, object_state = st\<rparr>
    \<and> (\<forall>j. j \<noteq> i \<longrightarrow> kom_find j r' = kom_find j r)
    \<and> (\<exists>r''. kom_unregister i r' = (True, r'') \<and> objects r'' = objects r \<and> kom_inv r'')"
proof -
  define ob where "ob = \<lparr>object_id = i, object_type = t, object_name = name, object_state = st\<rparr>"
  note R = kom_register_Inr [OF assms(3,1,2)]
  have "objects r' = objects r @ [ob]"
    using assms(3) by (auto simp: kom_register_def kom_alloc_id_def Let_def ob_def split: if_splits)
  with kom_unregister_last [of r' r ob] R obtain r'' where
    u: "kom_unregister i r' = (True, r'')" "objects r'' = objects r"
    by (auto simp: ob_def)
  with kom_unregister_inv [of r' i True r''] R show ?thesis by blast
qed

end
