(* ===== verification/Event_Bus.thy ===== *)
theory Event_Bus
  imports Text
begin

text \<open>
  The kernel event bus, \<^verbatim>\<open>seed/saios/src/kernel/event.rs\<close>: a log of the last 512 events with sequence
  numbers, and one counter per kind of event.  The global cell is created on first use, and the spin
  lock makes each call one atomic step, so the operations take and return the bus.  Shown is that the
  bus is the window over the complete history of what was published, with exact counters.
\<close>

section \<open>Data\<close>

datatype EventKind =
  ProcessStarted | ProcessStopped | DriverLoaded | DriverReloaded | DriverFaulted
  | DeviceAttached | DeviceFaulted | Oom | MountFailed | Irq

definition event_kind_as_str :: "EventKind \<Rightarrow> string" where
  "event_kind_as_str k =
     (case k of
        ProcessStarted \<Rightarrow> ''ProcessStarted''
      | ProcessStopped \<Rightarrow> ''ProcessStopped''
      | DriverLoaded \<Rightarrow> ''DriverLoaded''
      | DriverReloaded \<Rightarrow> ''DriverReloaded''
      | DriverFaulted \<Rightarrow> ''DriverFaulted''
      | DeviceAttached \<Rightarrow> ''DeviceAttached''
      | DeviceFaulted \<Rightarrow> ''DeviceFaulted''
      | Oom \<Rightarrow> ''Oom''
      | MountFailed \<Rightarrow> ''MountFailed''
      | Irq \<Rightarrow> ''Irq'')"

record EventRecord =
  event_seq :: u64
  event_kind :: EventKind
  event_source :: string
  event_detail :: string

record EventCounters =
  total_events :: u64
  process_started :: u64
  process_stopped :: u64
  driver_loaded :: u64
  driver_reloaded :: u64
  driver_faulted :: u64
  device_attached :: u64
  device_faulted :: u64
  oom :: u64
  mount_failed :: u64
  irq :: u64

record EventBus =
  next_seq :: u64
  events :: "EventRecord list"
  counters :: EventCounters

definition bus_new :: EventBus where
  "bus_new = \<lparr>next_seq = 1, events = [],
     counters = \<lparr>total_events = 0, process_started = 0, process_stopped = 0, driver_loaded = 0,
       driver_reloaded = 0, driver_faulted = 0, device_attached = 0, device_faulted = 0, oom = 0,
       mount_failed = 0, irq = 0\<rparr>\<rparr>"

section \<open>Operations\<close>

definition count_event :: "EventKind \<Rightarrow> EventCounters \<Rightarrow> EventCounters" where
  "count_event k c0 =
     (let c = c0\<lparr>total_events := saturating_add (total_events c0) 1\<rparr>
      in case k of
           ProcessStarted \<Rightarrow> c\<lparr>process_started := saturating_add (process_started c) 1\<rparr>
         | ProcessStopped \<Rightarrow> c\<lparr>process_stopped := saturating_add (process_stopped c) 1\<rparr>
         | DriverLoaded \<Rightarrow> c\<lparr>driver_loaded := saturating_add (driver_loaded c) 1\<rparr>
         | DriverReloaded \<Rightarrow> c\<lparr>driver_reloaded := saturating_add (driver_reloaded c) 1\<rparr>
         | DriverFaulted \<Rightarrow> c\<lparr>driver_faulted := saturating_add (driver_faulted c) 1\<rparr>
         | DeviceAttached \<Rightarrow> c\<lparr>device_attached := saturating_add (device_attached c) 1\<rparr>
         | DeviceFaulted \<Rightarrow> c\<lparr>device_faulted := saturating_add (device_faulted c) 1\<rparr>
         | Oom \<Rightarrow> c\<lparr>oom := saturating_add (oom c) 1\<rparr>
         | MountFailed \<Rightarrow> c\<lparr>mount_failed := saturating_add (mount_failed c) 1\<rparr>
         | Irq \<Rightarrow> c\<lparr>irq := saturating_add (irq c) 1\<rparr>)"

definition publish :: "EventKind \<Rightarrow> string \<Rightarrow> string \<Rightarrow> EventBus \<Rightarrow> EventBus" where
  "publish k source detail b =
     (let seq = next_seq b;
          entry = \<lparr>event_seq = seq, event_kind = k, event_source = source, event_detail = detail\<rparr>
      in b\<lparr>next_seq := saturating_add (next_seq b) 1,
           events := push_bounded 512 entry (events b),
           counters := count_event k (counters b)\<rparr>)"

definition recent :: "nat \<Rightarrow> EventBus \<Rightarrow> EventRecord list" where
  "recent limit b = (let n = min limit (length (events b)) in drop (length (events b) - n) (events b))"

definition clear_stale :: "nat \<Rightarrow> EventBus \<Rightarrow> EventBus" where
  "clear_stale keep_latest b =
     (if length (events b) \<le> keep_latest then b
      else b\<lparr>events := (tl ^^ (length (events b) - keep_latest)) (events b)\<rparr>)"

text \<open>The counter of one kind.\<close>

definition counter_of :: "EventKind \<Rightarrow> EventCounters \<Rightarrow> u64" where
  "counter_of k c =
     (case k of
        ProcessStarted \<Rightarrow> process_started c
      | ProcessStopped \<Rightarrow> process_stopped c
      | DriverLoaded \<Rightarrow> driver_loaded c
      | DriverReloaded \<Rightarrow> driver_reloaded c
      | DriverFaulted \<Rightarrow> driver_faulted c
      | DeviceAttached \<Rightarrow> device_attached c
      | DeviceFaulted \<Rightarrow> device_faulted c
      | Oom \<Rightarrow> oom c
      | MountFailed \<Rightarrow> mount_failed c
      | Irq \<Rightarrow> irq c)"

section \<open>The complete history\<close>

type_synonym publication = "EventKind \<times> string \<times> string"

definition publish_all :: "publication list \<Rightarrow> EventBus" where
  "publish_all ps = fold (\<lambda>(k, s, d). publish k s d) ps bus_new"

text \<open>What an unbounded log would hold: the \<open>i\<close>-th publication carries sequence number \<open>i + 1\<close>.\<close>

definition history :: "publication list \<Rightarrow> EventRecord list" where
  "history ps = map (\<lambda>i. case ps ! i of (k, s, d) \<Rightarrow>
     \<lparr>event_seq = of_nat (Suc i), event_kind = k, event_source = s, event_detail = d\<rparr>) [0..<length ps]"

lemma length_history [simp]: "length (history ps) = length ps"
  by (simp add: history_def)

lemma history_snoc:
  "history (ps @ [(k, s, d)]) = history ps
     @ [\<lparr>event_seq = of_nat (Suc (length ps)), event_kind = k, event_source = s, event_detail = d\<rparr>]"
  by (simp add: history_def nth_append)

lemma counter_count_event:
  "counter_of k (count_event j c)
     = (if k = j then saturating_add (counter_of k c) 1 else counter_of k c)"
  by (cases j) (simp_all add: counter_of_def count_event_def Let_def split: EventKind.split)

lemma total_count_event: "total_events (count_event j c) = saturating_add (total_events c) 1"
  by (cases j) (simp_all add: count_event_def Let_def)

lemma unat_saturating_Suc:
  "unat x < 2 ^ 64 - 1 \<Longrightarrow> unat (saturating_add x (1 :: u64)) = Suc (unat x)"
  by (simp add: unat_saturating_add)

lemma publish_all_spec:
  assumes "length ps < 2 ^ 64 - 1"
  shows "unat (next_seq (publish_all ps)) = Suc (length ps)
    \<and> events (publish_all ps) = drop (length ps - 512) (history ps)
    \<and> unat (total_events (counters (publish_all ps))) = length ps
    \<and> (\<forall>k. unat (counter_of k (counters (publish_all ps))) = length (filter (\<lambda>p. fst p = k) ps))"
  using assms
proof (induction ps rule: rev_induct)
  case Nil
  show ?case by (auto simp: publish_all_def bus_new_def history_def counter_of_def split: EventKind.split)
next
  case (snoc p ps)
  obtain k s d where p: "p = (k, s, d)" by (cases p)
  define b where "b = publish_all ps"
  have IH: "unat (next_seq b) = Suc (length ps)" "events b = drop (length ps - 512) (history ps)"
    "unat (total_events (counters b)) = length ps"
    "\<And>k. unat (counter_of k (counters b)) = length (filter (\<lambda>p. fst p = k) ps)"
    using snoc by (auto simp: b_def)
  have step: "publish_all (ps @ [p]) = publish k s d b"
    by (simp add: publish_all_def b_def p)
  have seq: "next_seq b = of_nat (Suc (length ps))"
  proof -
    have "unat (of_nat (Suc (length ps)) :: u64) = Suc (length ps)"
      using snoc.prems by (intro unat_of_nat_small) simp
    then show ?thesis using IH(1) by (simp only: word_unat_eq_iff)
  qed
  have ev: "events (publish_all (ps @ [p])) = drop (length (ps @ [p]) - 512) (history (ps @ [p]))"
    unfolding step using push_bounded_window [of 512 _ "history ps"]
    by (simp add: publish_def Let_def IH(2) seq p history_snoc)
  have lp: "length ps < 2 ^ 64 - 1" using snoc.prems by simp
  then have le: "length (filter (\<lambda>p. fst p = j) ps) < 2 ^ 64 - 1" for j
    using length_filter_le le_less_trans by blast
  have "unat (counter_of j (counters (publish_all (ps @ [p])))) = length (filter (\<lambda>p. fst p = j) (ps @ [p]))" for j
    unfolding step using IH(4) [of j] le [of j]
    by (auto simp: publish_def Let_def counter_count_event p unat_saturating_Suc)
  moreover have "unat (total_events (counters (publish_all (ps @ [p])))) = length (ps @ [p])"
    using IH(3) lp by (simp add: step publish_def Let_def total_count_event unat_saturating_Suc)
  moreover have "unat (next_seq (publish_all (ps @ [p]))) = Suc (length (ps @ [p]))"
    using IH(1) snoc.prems by (simp add: step publish_def Let_def unat_saturating_Suc)
  ultimately show ?case using ev by blast
qed

section \<open>Properties\<close>

text \<open>C26 (the bus is a window over the history).  After any sequence of fewer than 2^64 - 1
  publications, the most recent \<open>n\<close> events the bus reports are the last \<open>min n 512\<close> entries of the
  complete history, numbered from 1 without gaps; the counter of every kind is the number of
  publications of that kind and the total is their sum.\<close>

theorem event_bus_reports_history:
  assumes "length ps < 2 ^ 64 - 1"
  shows "recent n (publish_all ps) = drop (length ps - min n 512) (history ps)
    \<and> unat (total_events (counters (publish_all ps))) = length ps
    \<and> (\<forall>k. unat (counter_of k (counters (publish_all ps))) = length (filter (\<lambda>p. fst p = k) ps))"
proof -
  note S = publish_all_spec [OF assms]
  have "recent n (publish_all ps) = drop (length ps - min n 512) (history ps)"
    using S by (simp add: recent_def Let_def min_def)
  with S show ?thesis by blast
qed

theorem event_bus_reports_history_witness:
  "recent 1 (publish_all [(Oom, ''heap'', ''a''), (Irq, ''timer'', ''b'')])
    = [\<lparr>event_seq = 2, event_kind = Irq, event_source = ''timer'', event_detail = ''b''\<rparr>]
    \<and> unat (total_events (counters (publish_all [(Oom, ''heap'', ''a''), (Irq, ''timer'', ''b'')]))) = 2"
  using event_bus_reports_history [of "[(Oom, ''heap'', ''a''), (Irq, ''timer'', ''b'')]" 1]
  by (simp add: history_def)

end
