(* ===== verification/Devices.thy ===== *)
theory Devices
  imports Kom Event_Bus
begin

text \<open>
  The device and driver registries, \<^verbatim>\<open>seed/saios/src/kernel/device.rs\<close> and
  \<^verbatim>\<open>seed/saios/src/kernel/driver.rs\<close>.  Both create their entries through the kernel object manager,
  which is a parameter \<open>reg\<close> of the operations that call it and is instantiated with \<open>kom_register\<close>.
  The start, stop and reload hooks of the drivers call into the network, USB and storage drivers; they
  are parameters that act on the rest of the machine, a record that extends \<open>world\<close>.  Shown is that
  every device and driver has its own kernel object, what a driver start checks and does on each path,
  and that the drivers registered at start-up have their dependencies ready.
\<close>

section \<open>Devices\<close>

datatype DeviceStatus = Online | Offline | Faulted

record DeviceRecord =
  dev_name :: string
  dev_driver :: string
  dev_class :: string
  dev_status :: DeviceStatus
  dev_object_id :: u64

record DeviceRegistry =
  devreg_initialized :: bool
  dev_records :: "DeviceRecord list"

definition device_registry_new :: DeviceRegistry where
  "device_registry_new = \<lparr>devreg_initialized = False, dev_records = []\<rparr>"

type_synonym 'k registrar = "ObjectType \<Rightarrow> string \<Rightarrow> ObjectState \<Rightarrow> 'k \<Rightarrow> u64 res \<times> 'k"

definition device_object_state :: "DeviceStatus \<Rightarrow> ObjectState" where
  "device_object_state status =
     (case status of
        Online \<Rightarrow> ObjectState.Running
      | Offline \<Rightarrow> ObjectState.Stopped
      | Faulted \<Rightarrow> ObjectState.Faulted)"

definition device_register ::
  "'k registrar \<Rightarrow> string \<Rightarrow> string \<Rightarrow> string \<Rightarrow> DeviceStatus \<Rightarrow> DeviceRegistry \<times> 'k \<times> EventBus
    \<Rightarrow> u64 res \<times> DeviceRegistry \<times> 'k \<times> EventBus" where
  "device_register reg name driver class status = (\<lambda>(r, k, b).
     if name = [] \<or> driver = [] \<or> class = []
     then (Inl ''device: name/driver/class must be non-empty'', r, k, b)
     else if \<exists>d\<in>set (dev_records r). dev_name d = name
     then (Inl ''device: already exists'', r, k, b)
     else
       case reg Device name (device_object_state status) k of
         (Inl e, k') \<Rightarrow> (Inl e, r, k', b)
       | (Inr i, k') \<Rightarrow>
           (Inr i,
            r\<lparr>dev_records := dev_records r @ [\<lparr>dev_name = name, dev_driver = driver, dev_class = class,
                dev_status = status, dev_object_id = i\<rparr>]\<rparr>,
            k',
            publish DeviceAttached ''device-manager'' (name @ '' via '' @ driver) b))"

definition device_ensure ::
  "'k registrar \<Rightarrow> string \<Rightarrow> string \<Rightarrow> string \<Rightarrow> DeviceStatus \<Rightarrow> DeviceRegistry \<times> 'k \<times> EventBus
    \<Rightarrow> u64 res \<times> DeviceRegistry \<times> 'k \<times> EventBus" where
  "device_ensure reg name driver class status = (\<lambda>(r, k, b).
     case find (\<lambda>d. dev_name d = name) (dev_records r) of
       Some existing \<Rightarrow>
         (Inr (dev_object_id existing),
          r\<lparr>dev_records := update_first (\<lambda>d. dev_name d = name)
               (\<lambda>d. d\<lparr>dev_driver := driver, dev_class := class, dev_status := status\<rparr>) (dev_records r)\<rparr>,
          k, b)
     | None \<Rightarrow> device_register reg name driver class status (r, k, b))"

definition device_init :: "DeviceRegistry \<Rightarrow> DeviceRegistry" where
  "device_init r = (if devreg_initialized r then r else r\<lparr>devreg_initialized := True\<rparr>)"

definition device_find :: "string \<Rightarrow> DeviceRegistry \<Rightarrow> DeviceRecord option" where
  "device_find name r = find (\<lambda>d. dev_name d = name) (dev_records r)"

section \<open>Drivers\<close>

datatype DriverStatus = Loaded | Running | Stopped | Faulted

record DriverRecord =
  drv_name :: string
  drv_version :: string
  drv_author :: string
  drv_status :: DriverStatus
  drv_dependencies :: "string list"
  drv_devices :: "string list"
  drv_object_id :: u64
  start_count :: u64
  stop_count :: u64
  reload_count :: u64
  fault_count :: u64
  last_error :: "string option"

record DriverRegistry =
  drvreg_initialized :: bool
  drv_records :: "DriverRecord list"

definition driver_registry_new :: DriverRegistry where
  "driver_registry_new = \<lparr>drvreg_initialized = False, drv_records = []\<rparr>"

definition driver_object_state :: "DriverStatus \<Rightarrow> ObjectState" where
  "driver_object_state status =
     (case status of
        Loaded \<Rightarrow> ObjectState.Running
      | Running \<Rightarrow> ObjectState.Running
      | Stopped \<Rightarrow> ObjectState.Stopped
      | Faulted \<Rightarrow> ObjectState.Faulted)"

definition driver_ensure ::
  "'k registrar \<Rightarrow> string \<Rightarrow> string \<Rightarrow> string \<Rightarrow> string list \<Rightarrow> DriverStatus
    \<Rightarrow> DriverRegistry \<times> 'k \<times> EventBus \<Rightarrow> u64 res \<times> DriverRegistry \<times> 'k \<times> EventBus" where
  "driver_ensure reg name version author deps status = (\<lambda>(r, k, b).
     if name = [] \<or> version = [] \<or> author = []
     then (Inl ''driver: name/version/author must be non-empty'', r, k, b)
     else
       case find (\<lambda>d. drv_name d = name) (drv_records r) of
         Some existing \<Rightarrow>
           (Inr (drv_object_id existing),
            r\<lparr>drv_records := update_first (\<lambda>d. drv_name d = name)
                 (\<lambda>d. d\<lparr>drv_version := version, drv_author := author, drv_status := status,
                        drv_dependencies := deps\<rparr>) (drv_records r)\<rparr>,
            k, b)
       | None \<Rightarrow>
           (case reg Driver name (driver_object_state status) k of
              (Inl e, k') \<Rightarrow> (Inl e, r, k', b)
            | (Inr i, k') \<Rightarrow>
                (Inr i,
                 r\<lparr>drv_records := drv_records r @ [\<lparr>drv_name = name, drv_version = version,
                     drv_author = author, drv_status = status, drv_dependencies = deps,
                     drv_devices = [], drv_object_id = i, start_count = 0, stop_count = 0,
                     reload_count = 0, fault_count = 0, last_error = None\<rparr>]\<rparr>,
                 k',
                 publish DriverLoaded ''driver-manager'' name b)))"

definition status_by_name :: "string \<Rightarrow> DriverRegistry \<Rightarrow> DriverStatus option" where
  "status_by_name name r =
     map_option drv_status (find (\<lambda>d. eq_ignore_ascii_case (drv_name d) name) (drv_records r))"

definition dependencies_ready :: "string list \<Rightarrow> DriverRegistry \<Rightarrow> bool" where
  "dependencies_ready deps r =
     (\<forall>dep\<in>set deps. case status_by_name dep r of None \<Rightarrow> False | Some s \<Rightarrow> s = Running \<or> s = Loaded)"

definition refresh_devices :: "DeviceRecord list \<Rightarrow> DriverRegistry \<Rightarrow> DriverRegistry" where
  "refresh_devices devs r =
     r\<lparr>drv_records :=
        fold (\<lambda>dev. update_first (\<lambda>d. drv_name d = dev_driver dev)
                     (\<lambda>d. d\<lparr>drv_devices := drv_devices d @ [dev_name dev]\<rparr>)) devs
          (map (\<lambda>d. d\<lparr>drv_devices := []\<rparr>) (drv_records r))\<rparr>"

text \<open>The rest of the machine as the driver registry sees it.\<close>

record world =
  w_devices :: DeviceRegistry
  w_bus :: EventBus

type_synonym 'w hook = "string \<Rightarrow> 'w world_scheme \<Rightarrow> unit res \<times> 'w world_scheme"

definition refresh :: "'w world_scheme \<Rightarrow> DriverRegistry \<Rightarrow> DriverRegistry" where
  "refresh w r = refresh_devices (dev_records (w_devices w)) r"

definition publish_in :: "EventKind \<Rightarrow> string \<Rightarrow> string \<Rightarrow> 'w world_scheme \<Rightarrow> 'w world_scheme" where
  "publish_in k source detail w = w\<lparr>w_bus := publish k source detail (w_bus w)\<rparr>"

definition set_driver :: "nat \<Rightarrow> (DriverRecord \<Rightarrow> DriverRecord) \<Rightarrow> DriverRegistry \<Rightarrow> DriverRegistry" where
  "set_driver idx f r = r\<lparr>drv_records := (drv_records r)[idx := f (drv_records r ! idx)]\<rparr>"

definition fault :: "string \<Rightarrow> DriverRecord \<Rightarrow> DriverRecord" where
  "fault e d = d\<lparr>drv_status := Faulted, fault_count := saturating_add (fault_count d) 1, last_error := Some e\<rparr>"

definition driver_reload ::
  "'w hook \<Rightarrow> string \<Rightarrow> DriverRegistry \<times> 'w world_scheme \<Rightarrow> unit res \<times> DriverRegistry \<times> 'w world_scheme" where
  "driver_reload run_reload_hook name = (\<lambda>(r, w).
     case find_position (\<lambda>d. eq_ignore_ascii_case (drv_name d) name) (drv_records r) of
       None \<Rightarrow> (Inl ''driver: not found'', r, w)
     | Some idx \<Rightarrow>
         (case run_reload_hook (drv_name (drv_records r ! idx)) w of
            (Inl e, w1) \<Rightarrow>
              (Inl e, set_driver idx (fault e) r, publish_in DriverFaulted ''driver-manager'' e w1)
          | (Inr _, w1) \<Rightarrow>
              let r1 = set_driver idx (\<lambda>d. d\<lparr>drv_status := Running,
                         reload_count := saturating_add (reload_count d) 1, last_error := None\<rparr>) r;
                  w2 = publish_in DriverReloaded ''driver-manager'' (drv_name (drv_records r ! idx)) w1
              in (Inr (), refresh w2 r1, w2)))"

definition driver_start ::
  "'w hook \<Rightarrow> string \<Rightarrow> DriverRegistry \<times> 'w world_scheme \<Rightarrow> unit res \<times> DriverRegistry \<times> 'w world_scheme" where
  "driver_start run_start_hook name = (\<lambda>(r, w).
     case find_position (\<lambda>d. eq_ignore_ascii_case (drv_name d) name) (drv_records r) of
       None \<Rightarrow> (Inl ''driver: not found'', r, w)
     | Some idx \<Rightarrow>
         if \<not> dependencies_ready (drv_dependencies (drv_records r ! idx)) r
         then (Inl ''driver: dependencies not ready'',
               set_driver idx (fault ''dependencies not ready'') r,
               publish_in DriverFaulted ''driver-manager'' ''dependencies not ready'' w)
         else
           (case run_start_hook (drv_name (drv_records r ! idx)) w of
              (Inl e, w1) \<Rightarrow>
                (Inl e, set_driver idx (fault e) r, publish_in DriverFaulted ''driver-manager'' e w1)
            | (Inr _, w1) \<Rightarrow>
                let r1 = set_driver idx (\<lambda>d. d\<lparr>drv_status := Running,
                           start_count := saturating_add (start_count d) 1, last_error := None\<rparr>) r
                in (Inr (), refresh w1 r1, w1)))"

definition driver_stop ::
  "'w hook \<Rightarrow> string \<Rightarrow> DriverRegistry \<times> 'w world_scheme \<Rightarrow> unit res \<times> DriverRegistry \<times> 'w world_scheme" where
  "driver_stop run_stop_hook name = (\<lambda>(r, w).
     case find_position (\<lambda>d. eq_ignore_ascii_case (drv_name d) name) (drv_records r) of
       None \<Rightarrow> (Inl ''driver: not found'', r, w)
     | Some idx \<Rightarrow>
         (case run_stop_hook (drv_name (drv_records r ! idx)) w of
            (Inl e, w1) \<Rightarrow> (Inl e, set_driver idx (fault e) r, w1)
          | (Inr _, w1) \<Rightarrow>
              let r1 = set_driver idx (\<lambda>d. d\<lparr>drv_status := Stopped,
                         stop_count := saturating_add (stop_count d) 1, last_error := None\<rparr>) r
              in (Inr (), refresh w1 r1, w1)))"

text \<open>The table of drivers that \<open>init\<close> registers, in the order of the calls.\<close>

definition init_drivers :: "(string \<times> string list) list" where
  "init_drivers =
     [(''pci'', []), (''network'', [''pci'']), (''usb'', [''pci'']), (''loopback'', [''network'']),
      (''ethernet'', [''network'', ''pci'']), (''wifi'', [''network'', ''pci'']),
      (''dhcp'', [''network'']), (''dns'', [''network'', ''dhcp'']), (''storage'', [''pci'']),
      (''ext4'', [''storage'']), (''ntfs'', [''storage'']), (''fat16'', [''storage'']),
      (''fat32'', [''storage'']), (''fat64'', [''storage'']), (''fat128'', [''storage''])]"

definition driver_init ::
  "'k registrar \<Rightarrow> DeviceRecord list \<Rightarrow> DriverRegistry \<times> 'k \<times> EventBus
    \<Rightarrow> DriverRegistry \<times> 'k \<times> EventBus" where
  "driver_init reg devs s =
     (if drvreg_initialized (fst s) then s
      else
        case fold (\<lambda>(n, deps) s. snd (driver_ensure reg n ''0.1.0'' ''SAIOS'' deps Loaded s)) init_drivers s of
          (r, k, b) \<Rightarrow> ((refresh_devices devs r)\<lparr>drvreg_initialized := True\<rparr>, k, b))"

definition driver_find :: "string \<Rightarrow> DeviceRecord list \<Rightarrow> DriverRegistry \<Rightarrow> DriverRecord option \<times> DriverRegistry" where
  "driver_find name devs r =
     (let r1 = refresh_devices devs r in (find (\<lambda>d. drv_name d = name) (drv_records r1), r1))"

definition driver_count :: "DriverRegistry \<Rightarrow> nat" where
  "driver_count r = length (drv_records r)"

section \<open>Every entry has its own kernel object\<close>

definition device_ids :: "DeviceRegistry \<Rightarrow> u64 set" where
  "device_ids r = dev_object_id ` set (dev_records r)"

definition device_inv :: "u64 set \<Rightarrow> DeviceRegistry \<Rightarrow> bool" where
  "device_inv ids r \<longleftrightarrow> distinct (map dev_name (dev_records r))
     \<and> distinct (map dev_object_id (dev_records r)) \<and> device_ids r \<subseteq> ids"

definition driver_ids :: "DriverRegistry \<Rightarrow> u64 set" where
  "driver_ids r = drv_object_id ` set (drv_records r)"

definition driver_inv :: "u64 set \<Rightarrow> DriverRegistry \<Rightarrow> bool" where
  "driver_inv ids r \<longleftrightarrow> distinct (map drv_name (drv_records r))
     \<and> distinct (map drv_object_id (drv_records r)) \<and> driver_ids r \<subseteq> ids"

context id_registry
begin

lemma device_ensure_spec:
  assumes "inv k" "room k" "device_inv (ids k) r"
    "device_ensure register name driver class status (r, k, b) = (res, r', k', b')"
  shows "inv k' \<and> ids k \<subseteq> ids k' \<and> device_inv (ids k') r'
    \<and> (case res of
         Inl e \<Rightarrow> r' = r \<and> k' = k \<and> b' = b
       | Inr i \<Rightarrow> device_find name r' = Some \<lparr>dev_name = name, dev_driver = driver, dev_class = class,
                    dev_status = status, dev_object_id = i\<rparr>
           \<and> (\<forall>n. n \<noteq> name \<longrightarrow> device_find n r' = device_find n r))"
proof (cases "find (\<lambda>d. dev_name d = name) (dev_records r)")
  case (Some d)
  define f where "f = (\<lambda>d. d\<lparr>dev_driver := driver, dev_class := class, dev_status := status\<rparr> :: DeviceRecord)"
  have r: "res = Inr (dev_object_id d)" "r' = r\<lparr>dev_records := update_first (\<lambda>d. dev_name d = name) f (dev_records r)\<rparr>"
    "k' = k" "b' = b"
    using assms(4) Some by (auto simp: device_ensure_def f_def)
  have m: "map dev_name (dev_records r') = map dev_name (dev_records r)"
    "map dev_object_id (dev_records r') = map dev_object_id (dev_records r)"
    by (simp_all add: r map_update_first f_def)
  then have "device_ids r' = device_ids r" unfolding device_ids_def by (metis set_map)
  with m assms(3) have "device_inv (ids k) r'" by (simp add: device_inv_def)
  moreover have "device_find name r' = Some (f d)"
    using Some by (simp add: device_find_def r find_update_first f_def)
  moreover have "device_find n r' = device_find n r" if "n \<noteq> name" for n
    unfolding device_find_def r by (simp, rule find_update_first_other) (use that in \<open>auto simp: f_def\<close>)
  moreover have "dev_name d = name" using find_Some_in [OF Some] by simp
  ultimately show ?thesis using assms(1) r by (auto simp: f_def)
next
  case None
  then have nm: "name \<notin> dev_name ` set (dev_records r)" by (auto simp: find_None_iff)
  have reg: "device_register register name driver class status (r, k, b) = (res, r', k', b')"
    using assms(4) None by (simp add: device_ensure_def)
  show ?thesis
  proof (cases res)
    case (Inl e)
    with reg register_Inl have "r' = r" "k' = k" "b' = b"
      by (auto simp: device_register_def split: if_splits sum.splits prod.splits)
    with Inl assms(1,3) show ?thesis by simp
  next
    case (Inr i)
    define d where "d = \<lparr>dev_name = name, dev_driver = driver, dev_class = class, dev_status = status,
      dev_object_id = i\<rparr>"
    have k': "register Device name (device_object_state status) k = (Inr i, k')"
      "r' = r\<lparr>dev_records := dev_records r @ [d]\<rparr>"
      using reg Inr by (auto simp: device_register_def d_def split: if_splits sum.splits prod.splits)
    note I = register_Inr [OF assms(1,2) k'(1)]
    have "i \<notin> device_ids r" using I assms(3) by (auto simp: device_inv_def)
    then have "device_inv (ids k') r'"
      using I assms(3) nm by (auto simp: device_inv_def device_ids_def k' d_def)
    moreover have "device_find name r' = Some d" "device_find n r' = device_find n r" if "n \<noteq> name" for n
      using None that by (auto simp: device_find_def k' find_append d_def split: option.splits)
    ultimately show ?thesis
      using I Inr None by (auto simp: d_def device_find_def k' find_append)
  qed
qed

lemma driver_ensure_spec:
  assumes "inv k" "room k" "driver_inv (ids k) r"
    "driver_ensure register name version author deps status (r, k, b) = (res, r', k', b')"
  shows "inv k' \<and> ids k \<subseteq> ids k' \<and> driver_inv (ids k') r'"
proof (cases "find (\<lambda>d. drv_name d = name) (drv_records r)")
  case (Some d)
  show ?thesis
  proof (cases res)
    case (Inr i)
    define f where "f = (\<lambda>d. d\<lparr>drv_version := version, drv_author := author, drv_status := status,
      drv_dependencies := deps\<rparr> :: DriverRecord)"
    have r: "r' = r\<lparr>drv_records := update_first (\<lambda>d. drv_name d = name) f (drv_records r)\<rparr>" "k' = k"
      using assms(4) Some Inr by (auto simp: driver_ensure_def f_def split: if_splits)
    have m: "map drv_name (drv_records r') = map drv_name (drv_records r)"
      "map drv_object_id (drv_records r') = map drv_object_id (drv_records r)"
      by (simp_all add: r map_update_first f_def)
    then have "driver_ids r' = driver_ids r" unfolding driver_ids_def by (metis set_map)
    with m assms(1,3) r show ?thesis by (simp add: driver_inv_def)
  qed (use assms Some in \<open>auto simp: driver_ensure_def split: if_splits\<close>)
next
  case None
  then have nm: "name \<notin> drv_name ` set (drv_records r)" by (auto simp: find_None_iff)
  show ?thesis
  proof (cases res)
    case (Inl e)
    with assms(4) None register_Inl have "r' = r" "k' = k"
      by (auto simp: driver_ensure_def split: if_splits sum.splits prod.splits)
    with assms(1,3) show ?thesis by simp
  next
    case (Inr i)
    then obtain d where k': "register Driver name (driver_object_state status) k = (Inr i, k')"
      "r' = r\<lparr>drv_records := drv_records r @ [d]\<rparr>" "drv_name d = name" "drv_object_id d = i"
      using assms(4) None by (auto simp: driver_ensure_def split: if_splits sum.splits prod.splits)
    note I = register_Inr [OF assms(1,2) k'(1)]
    have "i \<notin> driver_ids r" using I assms(3) by (auto simp: driver_inv_def)
    with I assms(3) nm k' show ?thesis by (auto simp: driver_inv_def driver_ids_def)
  qed
qed

end

section \<open>Devices of a driver\<close>

lemma refresh_fold:
  fixes ds :: "DriverRecord list"
  assumes "distinct (map drv_name ds)"
  shows "fold (\<lambda>dev. update_first (\<lambda>d. drv_name d = dev_driver dev)
           (\<lambda>d. d\<lparr>drv_devices := drv_devices d @ [dev_name dev]\<rparr>)) devs ds
    = map (\<lambda>d. d\<lparr>drv_devices := drv_devices d
         @ map dev_name (filter (\<lambda>v. dev_driver v = drv_name d) devs)\<rparr>) ds"
  using assms
proof (induction devs arbitrary: ds)
  case (Cons v devs)
  define f where "f = (\<lambda>d. if drv_name d = dev_driver v
    then d\<lparr>drv_devices := drv_devices d @ [dev_name v]\<rparr> else d :: DriverRecord)"
  have u: "update_first (\<lambda>d. drv_name d = dev_driver v)
      (\<lambda>d. d\<lparr>drv_devices := drv_devices d @ [dev_name v]\<rparr>) ds = map f ds"
    unfolding f_def by (rule update_first_distinct [OF Cons.prems])
  have "map drv_name (map f ds) = map drv_name ds" by (simp add: f_def)
  then have "distinct (map drv_name (map f ds))" using Cons.prems by (simp only:)
  from Cons.IH [OF this] u show ?case by (simp add: f_def)
qed simp

lemma refresh_devices_eq:
  assumes "distinct (map drv_name (drv_records r))"
  shows "drv_records (refresh_devices devs r)
    = map (\<lambda>d. d\<lparr>drv_devices := map dev_name (filter (\<lambda>v. dev_driver v = drv_name d) devs)\<rparr>) (drv_records r)"
  using refresh_fold [of "map (\<lambda>d. d\<lparr>drv_devices := []\<rparr>) (drv_records r)" devs] assms
  by (simp add: refresh_devices_def o_def)

section \<open>Start-up\<close>

text \<open>Registering a driver whose name is new to both registries appends a record.\<close>

definition fresh_driver :: "string \<Rightarrow> string list \<Rightarrow> u64 \<Rightarrow> DriverRecord" where
  "fresh_driver n deps i = \<lparr>drv_name = n, drv_version = ''0.1.0'', drv_author = ''SAIOS'',
     drv_status = Loaded, drv_dependencies = deps, drv_devices = [], drv_object_id = i,
     start_count = 0, stop_count = 0, reload_count = 0, fault_count = 0, last_error = None\<rparr>"

lemma driver_ensure_fresh:
  assumes "n \<noteq> []" "n \<notin> drv_name ` set (drv_records r)" "n \<notin> kom_names k"
  shows "\<exists>i k' b'. driver_ensure kom_register n ''0.1.0'' ''SAIOS'' deps Loaded (r, k, b)
      = (Inr i, r\<lparr>drv_records := drv_records r @ [fresh_driver n deps i]\<rparr>, k', b')
    \<and> kom_names k' = insert n (kom_names k)"
proof -
  have "find (\<lambda>d. drv_name d = n) (drv_records r) = None"
    using assms(2) by (auto simp: find_None_iff)
  moreover have "\<not> (\<exists>ob\<in>set (objects k). object_name ob = n)"
    using assms(3) by (auto simp: kom_names_def)
  then obtain i k' where "kom_register Driver n (driver_object_state Loaded) k = (Inr i, k')"
    "kom_names k' = insert n (kom_names k)"
    using assms(1) by (auto simp: kom_register_def kom_alloc_id_def Let_def kom_names_def push_event_def)
  ultimately show ?thesis using assms(1) by (simp add: driver_ensure_def fresh_driver_def)
qed

lemma driver_ensure_all_fresh:
  assumes "distinct (map fst tbl)" "[] \<notin> fst ` set tbl"
    "fst ` set tbl \<inter> drv_name ` set (drv_records r) = {}" "fst ` set tbl \<inter> kom_names k = {}"
  shows "\<exists>is k' b'. length is = length tbl
    \<and> fold (\<lambda>(n, deps) s. snd (driver_ensure kom_register n ''0.1.0'' ''SAIOS'' deps Loaded s)) tbl (r, k, b)
      = (r\<lparr>drv_records := drv_records r
           @ map2 (\<lambda>(n, deps) i. fresh_driver n deps i) tbl is\<rparr>, k', b')"
  using assms
proof (induction tbl arbitrary: r k b)
  case (Cons e tbl)
  obtain n deps where e: "e = (n, deps)" by fastforce
  obtain i k1 b1 where s: "driver_ensure kom_register n ''0.1.0'' ''SAIOS'' deps Loaded (r, k, b)
      = (Inr i, r\<lparr>drv_records := drv_records r @ [fresh_driver n deps i]\<rparr>, k1, b1)"
    "kom_names k1 = insert n (kom_names k)"
    using driver_ensure_fresh [of n r k deps b] Cons.prems e by auto
  define r1 where "r1 = r\<lparr>drv_records := drv_records r @ [fresh_driver n deps i]\<rparr>"
  have "distinct (map fst tbl)" "[] \<notin> fst ` set tbl"
    "fst ` set tbl \<inter> drv_name ` set (drv_records r1) = {}" "fst ` set tbl \<inter> kom_names k1 = {}"
    using Cons.prems e s(2) by (auto simp: r1_def fresh_driver_def)
  from Cons.IH [OF this, of b1] obtain js k' b' where js: "length js = length tbl"
    "fold (\<lambda>(n, deps) s. snd (driver_ensure kom_register n ''0.1.0'' ''SAIOS'' deps Loaded s)) tbl (r1, k1, b1)
      = (r1\<lparr>drv_records := drv_records r1 @ map2 (\<lambda>(n, deps) i. fresh_driver n deps i) tbl js\<rparr>, k', b')"
    by blast
  then show ?case
    using s(1) e by (intro exI [of _ "i # js"] exI [of _ k'] exI [of _ b']) (simp add: r1_def)
qed (auto intro: exI [of _ "[]"])

lemma init_drivers_table:
  "distinct (map fst init_drivers)" "[] \<notin> fst ` set init_drivers"
  "\<forall>(n, deps)\<in>set init_drivers. set deps \<subseteq> fst ` set init_drivers"
  by (simp_all add: init_drivers_def)

lemma init_drivers_lower: "n \<in> fst ` set init_drivers \<Longrightarrow> set n \<inter> set upper_letters = {}"
  by (auto simp: init_drivers_def upper_letters_def)

text \<open>The start-up drivers are registered: each name has an entry, and every entry that a lookup of the
  name can find is the loaded driver with the dependencies of the table.\<close>

definition init_registered :: "DriverRegistry \<Rightarrow> bool" where
  "init_registered r \<longleftrightarrow> (\<forall>(n, deps)\<in>set init_drivers.
     (\<exists>d\<in>set (drv_records r). drv_name d = n)
     \<and> (\<forall>d\<in>set (drv_records r). eq_ignore_ascii_case (drv_name d) n \<longrightarrow>
          drv_name d = n \<and> drv_status d = Loaded \<and> drv_dependencies d = deps))"

definition drv_key :: "DriverRecord \<Rightarrow> string \<times> DriverStatus \<times> string list" where
  "drv_key d = (drv_name d, drv_status d, drv_dependencies d)"

lemma refresh_devices_key: "map drv_key (drv_records (refresh_devices devs r)) = map drv_key (drv_records r)"
proof -
  have step: "map drv_key (update_first P (\<lambda>d. d\<lparr>drv_devices := drv_devices d @ [n]\<rparr>) ds) = map drv_key ds"
    for P n and ds :: "DriverRecord list"
    by (rule map_update_first) (simp add: drv_key_def)
  have "map drv_key (fold (\<lambda>dev. update_first (\<lambda>d. drv_name d = dev_driver dev)
      (\<lambda>d. d\<lparr>drv_devices := drv_devices d @ [dev_name dev]\<rparr>)) devs ds) = map drv_key ds" for ds
    by (induction devs arbitrary: ds) (simp_all add: step)
  then show ?thesis by (simp add: refresh_devices_def drv_key_def)
qed

lemma init_registered_key:
  assumes "drv_key ` set (drv_records r) = drv_key ` set (drv_records s)" "init_registered r"
  shows "init_registered s"
proof -
  have A: "\<exists>d0\<in>set (drv_records r). drv_key d0 = drv_key d" if "d \<in> set (drv_records s)" for d
  proof -
    have "drv_key d \<in> drv_key ` set (drv_records r)" unfolding assms(1) using that by (rule imageI)
    then show ?thesis by (auto simp: eq_commute)
  qed
  have B: "\<exists>d0\<in>set (drv_records s). drv_key d0 = drv_key d" if "d \<in> set (drv_records r)" for d
  proof -
    have "drv_key d \<in> drv_key ` set (drv_records s)" unfolding assms(1) [symmetric] using that by (rule imageI)
    then show ?thesis by (auto simp: eq_commute)
  qed
  show ?thesis
    unfolding init_registered_def
  proof (clarify, intro conjI ballI impI)
    fix n deps assume t: "(n, deps) \<in> set init_drivers"
    then obtain d where "d \<in> set (drv_records r)" "drv_name d = n"
      using assms(2) by (fastforce simp: init_registered_def)
    with B show "\<exists>d\<in>set (drv_records s). drv_name d = n" by (fastforce simp: drv_key_def)
    fix d assume d: "d \<in> set (drv_records s)" "eq_ignore_ascii_case (drv_name d) n"
    then obtain d0 where "d0 \<in> set (drv_records r)" "drv_key d0 = drv_key d" using A by blast
    with assms(2) t d(2) show "drv_name d = n" "drv_status d = Loaded" "drv_dependencies d = deps"
      by (fastforce simp: init_registered_def drv_key_def)+
  qed
qed

lemma driver_init_registered:
  assumes "\<not> drvreg_initialized r"
    "\<forall>d\<in>set (drv_records r). \<forall>n\<in>fst ` set init_drivers. \<not> eq_ignore_ascii_case (drv_name d) n"
    "fst ` set init_drivers \<inter> kom_names k = {}"
    "driver_init kom_register devs (r, k, b) = (r', k', b')"
  shows "init_registered r'"
proof -
  have "fst ` set init_drivers \<inter> drv_name ` set (drv_records r) = {}"
    using assms(2) by fastforce
  from driver_ensure_all_fresh [OF init_drivers_table(1,2) this assms(3), of b]
  obtain "is" k1 b1 where f: "length is = length init_drivers"
    "fold (\<lambda>(n, deps) s. snd (driver_ensure kom_register n ''0.1.0'' ''SAIOS'' deps Loaded s)) init_drivers (r, k, b)
      = (r\<lparr>drv_records := drv_records r @ map2 (\<lambda>(n, deps) i. fresh_driver n deps i) init_drivers is\<rparr>, k1, b1)"
    by blast
  define r1 where "r1 = r\<lparr>drv_records := drv_records r @ map2 (\<lambda>(n, deps) i. fresh_driver n deps i) init_drivers is\<rparr>"
  have r': "r' = (refresh_devices devs r1)\<lparr>drvreg_initialized := True\<rparr>"
    using assms(1,4) f(2) by (simp add: driver_init_def r1_def)
  have "drv_key ` set (drv_records r1) = drv_key ` set (drv_records r')"
    using refresh_devices_key [of devs r1] r' by (metis DriverRegistry.select_convs(2) DriverRegistry.surjective DriverRegistry.update_convs(1) set_map)
  moreover have "init_registered r1"
    unfolding init_registered_def
  proof (clarify, intro conjI ballI impI)
    fix n deps assume t: "(n, deps) \<in> set init_drivers"
    then obtain j where j: "j < length init_drivers" "init_drivers ! j = (n, deps)"
      by (auto simp: in_set_conv_nth)
    then have "fresh_driver n deps (is ! j) \<in> set (drv_records r1)"
      using f(1) by (force simp: r1_def set_zip)
    then show "\<exists>d\<in>set (drv_records r1). drv_name d = n"
      by (auto simp: fresh_driver_def intro: rev_bexI)
    fix d assume d: "d \<in> set (drv_records r1)" "eq_ignore_ascii_case (drv_name d) n"
    have "n \<in> fst ` set init_drivers" using t by force
    then have "d \<notin> set (drv_records r)" using assms(2) d(2) by auto
    then obtain m deps' i where m: "(m, deps') \<in> set init_drivers" "d = fresh_driver m deps' i"
      using d(1) by (auto simp: r1_def dest: set_zip_leftD)
    then have "m = n"
      using d(2) eq_ignore_ascii_case_lower [of m n] init_drivers_lower \<open>n \<in> fst ` set init_drivers\<close>
      by (force simp: fresh_driver_def)
    with m t init_drivers_table(1) have "deps' = deps" by (metis eq_key_imp_eq_value)
    with m \<open>m = n\<close> show "drv_name d = n" "drv_status d = Loaded" "drv_dependencies d = deps"
      by (simp_all add: fresh_driver_def)
  qed
  ultimately show ?thesis using init_registered_key by metis
qed

lemma init_registered_ready:
  assumes "init_registered r" "(n, deps) \<in> set init_drivers"
  shows "dependencies_ready deps r"
  unfolding dependencies_ready_def
proof
  fix dep assume "dep \<in> set deps"
  then obtain deps' where dep: "(dep, deps') \<in> set init_drivers"
    using assms(2) init_drivers_table(3) by fastforce
  then obtain d0 where "d0 \<in> set (drv_records r)" "drv_name d0 = dep"
    using assms(1) by (fastforce simp: init_registered_def)
  then obtain d where d: "find (\<lambda>d. eq_ignore_ascii_case (drv_name d) dep) (drv_records r) = Some d"
    by (metis (mono_tags, lifting) find_None_iff eq_ignore_ascii_case_refl not_None_eq)
  then have "drv_status d = Loaded"
    using find_Some_in [OF d] assms(1) dep by (fastforce simp: init_registered_def)
  with d show "case status_by_name dep r of None \<Rightarrow> False | Some s \<Rightarrow> s = Running \<or> s = Loaded"
    by (simp add: status_by_name_def)
qed

section \<open>Properties\<close>

text \<open>Ensuring a device either reports an error and changes nothing, or makes
  exactly this device findable with the given driver, class and status; device names stay unique and
  every device keeps a kernel object of its own, distinct from those of all other devices.\<close>

lemma device_ensure_keeps_objects:
  assumes "kom_inv k" "kom_room k" "device_inv (kom_ids k) r"
    "device_ensure kom_register name driver class status (r, k, b) = (res, r', k', b')"
  shows "kom_inv k' \<and> device_inv (kom_ids k') r'
    \<and> (case res of
         Inl e \<Rightarrow> r' = r \<and> k' = k \<and> b' = b
       | Inr i \<Rightarrow> device_find name r' = Some \<lparr>dev_name = name, dev_driver = driver, dev_class = class,
                    dev_status = status, dev_object_id = i\<rparr>
           \<and> (\<forall>n. n \<noteq> name \<longrightarrow> device_find n r' = device_find n r))"
  using kom.device_ensure_spec [OF assms] by blast

text \<open>When start-up registers its fifteen drivers into registries that do
  not know their names yet, each of them can be started at once: its dependencies are found, loaded,
  and if the start hook succeeds the driver is running.\<close>

lemma driver_init_startable:
  assumes "\<not> drvreg_initialized r"
    "\<forall>d\<in>set (drv_records r). \<forall>n\<in>fst ` set init_drivers. \<not> eq_ignore_ascii_case (drv_name d) n"
    "fst ` set init_drivers \<inter> kom_names k = {}"
    "driver_init kom_register devs (r, k, b) = (r', k', b')"
    "(n, deps) \<in> set init_drivers" "hook n w = (Inr (), w1)"
  shows "\<exists>r'' d. driver_start hook n (r', w) = (Inr (), r'', w1)
    \<and> d \<in> set (drv_records r'') \<and> drv_name d = n \<and> drv_status d = Running \<and> drv_dependencies d = deps"
proof -
  note R = driver_init_registered [OF assms(1-4)]
  obtain d0 where "d0 \<in> set (drv_records r')" "drv_name d0 = n"
    using R assms(5) by (fastforce simp: init_registered_def)
  then obtain idx where idx: "find_position (\<lambda>d. eq_ignore_ascii_case (drv_name d) n) (drv_records r') = Some idx"
    by (metis (mono_tags, lifting) eq_ignore_ascii_case_refl find_position_None not_None_eq)
  define d where "d = drv_records r' ! idx"
  have d: "idx < length (drv_records r')" "drv_name d = n" "drv_dependencies d = deps"
    using find_position_Some [OF idx] R assms(5) by (auto simp: init_registered_def d_def)
  define r1 where "r1 = set_driver idx (\<lambda>d. d\<lparr>drv_status := Running,
    start_count := saturating_add (start_count d) 1, last_error := None\<rparr>) r'"
  have s: "driver_start hook n (r', w) = (Inr (), refresh w1 r1, w1)"
    using idx d assms(6) init_registered_ready [OF R assms(5)]
    by (simp add: driver_start_def r1_def d_def Let_def)
  have "map drv_key (drv_records (refresh w1 r1)) = map drv_key (drv_records r1)"
    by (simp add: refresh_def refresh_devices_key)
  moreover have "length (drv_records r1) = length (drv_records r')"
    "drv_key (drv_records r1 ! idx) = (n, Running, deps)"
    using d by (simp_all add: r1_def set_driver_def drv_key_def d_def)
  ultimately have "idx < length (drv_records (refresh w1 r1))"
    "drv_key (drv_records (refresh w1 r1) ! idx) = (n, Running, deps)"
    using d(1) by (metis length_map, metis length_map nth_map)
  then show ?thesis
    using s by (intro exI [of _ "refresh w1 r1"] exI [of _ "drv_records (refresh w1 r1) ! idx"])
      (auto simp: drv_key_def)
qed

end
