(* ===== verification/Ksf.thy ===== *)
theory Ksf
  imports Text
begin

text \<open>
  The kernel service framework, \<^verbatim>\<open>seed/saios/src/ksf.rs\<close>.  A service is a record of its identity and
  its callbacks on the rest of the kernel, a state of type \<open>'w\<close>; the initialisation functions of the
  other components that the built-in services call are the fields of a record \<open>H\<close>, about which
  nothing is assumed.  Console messages are not modelled.  The loop of \<open>start_all\<close> is a partial function:
  that it returns is a theorem, which also says in which state it leaves the services.
\<close>

section \<open>Data\<close>

type_synonym ServiceId = nat

abbreviation CONSOLE :: ServiceId where "CONSOLE \<equiv> 1"

abbreviation MEMORY :: ServiceId where "MEMORY \<equiv> 2"

abbreviation OBJECT :: ServiceId where "OBJECT \<equiv> 3"

abbreviation PROVIDER :: ServiceId where "PROVIDER \<equiv> 4"

abbreviation SIF :: ServiceId where "SIF \<equiv> 5"

abbreviation TIMER :: ServiceId where "TIMER \<equiv> 6"

abbreviation SCHEDULER :: ServiceId where "SCHEDULER \<equiv> 7"

abbreviation EVENT :: ServiceId where "EVENT \<equiv> 8"

abbreviation HEALTH :: ServiceId where "HEALTH \<equiv> 9"

abbreviation INPUT :: ServiceId where "INPUT \<equiv> 10"

abbreviation SHELL :: ServiceId where "SHELL \<equiv> 11"

abbreviation VFS :: ServiceId where "VFS \<equiv> 12"

abbreviation DRIVER_MANAGER :: ServiceId where "DRIVER_MANAGER \<equiv> 13"

abbreviation DEVICE_MANAGER :: ServiceId where "DEVICE_MANAGER \<equiv> 14"

abbreviation PROCESS_MANAGER :: ServiceId where "PROCESS_MANAGER \<equiv> 15"

abbreviation IPC :: ServiceId where "IPC \<equiv> 16"

abbreviation NETWORK :: ServiceId where "NETWORK \<equiv> 17"

abbreviation SAIRU :: ServiceId where "SAIRU \<equiv> 18"

datatype ServiceState = Registered | Initializing | Ready | Running | Paused | Stopping | Stopped | Failed

datatype HealthState = Healthy | Warning | Critical | Offline

record 'w Service =
  svc_id :: ServiceId
  svc_name :: string
  svc_version :: string
  svc_dependencies :: "ServiceId list"
  svc_initialize :: "'w \<Rightarrow> unit res \<times> 'w"
  svc_start :: "'w \<Rightarrow> unit res \<times> 'w"
  svc_stop :: "'w \<Rightarrow> 'w"
  svc_health :: HealthState

record ServiceSnapshot =
  snap_id :: ServiceId
  snap_name :: string
  snap_version :: string
  snap_state :: ServiceState
  snap_health :: HealthState
  snap_dependencies :: "ServiceId list"

record 'w ServiceManager =
  services :: "'w Service list"
  states :: "ServiceState list"

text \<open>What the framework and the built-in services call elsewhere.\<close>

record 'w hooks =
  om_init :: "'w \<Rightarrow> 'w"
  sif_init :: "'w \<Rightarrow> 'w"
  tm_init :: "'w \<Rightarrow> 'w"
  sc_init :: "'w \<Rightarrow> 'w"
  ev_init :: "'w \<Rightarrow> 'w"
  sh_init :: "'w \<Rightarrow> 'w"
  sh_start :: "'w \<Rightarrow> unit res \<times> 'w"
  dr_init :: "'w \<Rightarrow> 'w"
  de_init :: "'w \<Rightarrow> 'w"
  pr_init :: "'w \<Rightarrow> 'w"
  mark_service :: "string \<Rightarrow> 'w \<Rightarrow> 'w"

section \<open>The manager\<close>

definition manager_new :: "'w ServiceManager" where
  "manager_new = \<lparr>services = [], states = []\<rparr>"

definition index_of :: "'w ServiceManager \<Rightarrow> ServiceId \<Rightarrow> nat option" where
  "index_of m sid = find_position (\<lambda>s. svc_id s = sid) (services m)"

definition ksf_register :: "'w Service \<Rightarrow> 'w ServiceManager \<Rightarrow> 'w ServiceManager" where
  "ksf_register s m =
     (if index_of m (svc_id s) \<noteq> None then m
      else m\<lparr>services := services m @ [s], states := states m @ [Registered]\<rparr>)"

definition dep_ready :: "'w ServiceManager \<Rightarrow> ServiceId \<Rightarrow> bool" where
  "dep_ready m dep =
     (case index_of m dep of
        None \<Rightarrow> False
      | Some i \<Rightarrow> i < length (states m) \<and> (states m ! i = Running \<or> states m ! i = Ready))"

definition deps_ready_to_start :: "'w ServiceManager \<Rightarrow> nat \<Rightarrow> bool" where
  "deps_ready_to_start m idx = list_all (dep_ready m) (svc_dependencies (services m ! idx))"

definition set_service_state :: "nat \<Rightarrow> ServiceState \<Rightarrow> 'w ServiceManager \<Rightarrow> 'w ServiceManager" where
  "set_service_state idx s m = m\<lparr>states := (states m)[idx := s]\<rparr>"

definition init_run :: "nat \<Rightarrow> 'w ServiceManager \<Rightarrow> 'w \<Rightarrow> unit res \<times> 'w ServiceManager \<times> 'w" where
  "init_run idx m w =
     (let m1 = set_service_state idx Initializing m
      in case svc_initialize (services m1 ! idx) w of
           (Inr _, w1) \<Rightarrow> (Inr (), set_service_state idx Ready m1, w1)
         | (Inl e, w1) \<Rightarrow> (Inl e, set_service_state idx Failed m1, w1))"

definition init_at :: "nat \<Rightarrow> 'w ServiceManager \<Rightarrow> 'w \<Rightarrow> unit res \<times> 'w ServiceManager \<times> 'w" where
  "init_at idx m w =
     (case states m ! idx of
        Registered \<Rightarrow> init_run idx m w
      | Stopped \<Rightarrow> init_run idx m w
      | Ready \<Rightarrow> (Inr (), m, w)
      | Running \<Rightarrow> (Inr (), m, w)
      | Failed \<Rightarrow> (Inl ''service failed'', m, w)
      | _ \<Rightarrow> (Inl ''service busy'', m, w))"

definition start_at :: "'w hooks \<Rightarrow> nat \<Rightarrow> 'w ServiceManager \<Rightarrow> 'w \<Rightarrow> unit res \<times> 'w ServiceManager \<times> 'w" where
  "start_at H idx m w =
     (if \<not> deps_ready_to_start m idx then (Inl ''dependencies not ready'', m, w)
      else if states m ! idx = Running then (Inr (), m, w)
      else
        case init_at idx m w of
          (Inl e, m1, w1) \<Rightarrow> (Inl e, m1, w1)
        | (Inr _, m1, w1) \<Rightarrow>
            (case svc_start (services m1 ! idx) w1 of
               (Inr _, w2) \<Rightarrow> (Inr (), set_service_state idx Running m1, mark_service H (svc_name (services m1 ! idx)) w2)
             | (Inl e, w2) \<Rightarrow> (Inl e, set_service_state idx Failed m1, w2)))"

text \<open>One turn of the inner loop of \<open>start_all\<close>, the inner loop, and the outer one.\<close>

definition start_turn :: "'w hooks \<Rightarrow> nat \<Rightarrow> bool \<times> 'w ServiceManager \<times> 'w \<Rightarrow> bool \<times> 'w ServiceManager \<times> 'w" where
  "start_turn H idx = (\<lambda>(progressed, m, w).
     if states m ! idx = Running then (progressed, m, w)
     else if deps_ready_to_start m idx then
       (case start_at H idx m w of
          (Inr _, m', w') \<Rightarrow> (True, m', w')
        | (Inl _, m', w') \<Rightarrow> (progressed, m', w'))
     else (progressed, m, w))"

definition start_pass :: "'w hooks \<Rightarrow> 'w ServiceManager \<Rightarrow> 'w \<Rightarrow> bool \<times> 'w ServiceManager \<times> 'w" where
  "start_pass H m w = fold (start_turn H) [0..<length (services m)] (False, m, w)"

partial_function (option) start_loop :: "'w hooks \<Rightarrow> 'w ServiceManager \<Rightarrow> 'w \<Rightarrow> ('w ServiceManager \<times> 'w) option" where
  "start_loop H m w =
     (case start_pass H m w of
        (progressed, m', w') \<Rightarrow>
          if list_all (\<lambda>s. s = Running \<or> s = Failed) (states m') then Some (m', w')
          else if progressed then start_loop H m' w'
          else Some (m', w'))"

definition start_all :: "'w hooks \<Rightarrow> 'w ServiceManager \<Rightarrow> 'w \<Rightarrow> (unit res \<times> 'w ServiceManager \<times> 'w) option" where
  "start_all H m w =
     map_option (\<lambda>(m', w').
       (if list_ex (\<lambda>s. s \<noteq> Running) (states m') then Inl ''one or more services failed to start'' else Inr (), m', w'))
     (start_loop H m w)"

definition position_by_name :: "string \<Rightarrow> 'w ServiceManager \<Rightarrow> nat option" where
  "position_by_name name m = find_position (\<lambda>s. eq_ignore_ascii_case (svc_name s) name) (services m)"

definition start_by_name :: "'w hooks \<Rightarrow> string \<Rightarrow> 'w ServiceManager \<Rightarrow> 'w \<Rightarrow> unit res \<times> 'w ServiceManager \<times> 'w" where
  "start_by_name H name m w =
     (case position_by_name name m of
        None \<Rightarrow> (Inl ''service not found'', m, w)
      | Some idx \<Rightarrow> start_at H idx m w)"

definition stop_by_name :: "string \<Rightarrow> 'w ServiceManager \<Rightarrow> 'w \<Rightarrow> unit res \<times> 'w ServiceManager \<times> 'w" where
  "stop_by_name name m w =
     (case position_by_name name m of
        None \<Rightarrow> (Inl ''service not found'', m, w)
      | Some idx \<Rightarrow>
          let m1 = set_service_state idx Stopping m;
              w1 = svc_stop (services m1 ! idx) w
          in (Inr (), set_service_state idx Stopped m1, w1))"

definition restart_by_name :: "'w hooks \<Rightarrow> string \<Rightarrow> 'w ServiceManager \<Rightarrow> 'w \<Rightarrow> unit res \<times> 'w ServiceManager \<times> 'w" where
  "restart_by_name H name m w =
     (case stop_by_name name m w of
        (Inl e, m1, w1) \<Rightarrow> (Inl e, m1, w1)
      | (Inr _, m1, w1) \<Rightarrow> start_by_name H name m1 w1)"

definition snapshots :: "'w ServiceManager \<Rightarrow> ServiceSnapshot list" where
  "snapshots m = map (\<lambda>(svc, state). \<lparr>snap_id = svc_id svc, snap_name = svc_name svc, snap_version = svc_version svc,
     snap_state = state, snap_health = svc_health svc, snap_dependencies = svc_dependencies svc\<rparr>)
     (zip (services m) (states m))"

definition ksf_health :: "'w ServiceManager \<Rightarrow> (string \<times> HealthState) list" where
  "ksf_health m = map (\<lambda>s. (snap_name s, snap_health s)) (snapshots m)"

definition ksf_info :: "string \<Rightarrow> 'w ServiceManager \<Rightarrow> ServiceSnapshot option" where
  "ksf_info name m = find (\<lambda>s. eq_ignore_ascii_case (snap_name s) name) (snapshots m)"

text \<open>The outcomes of the four checks of \<open>verify\<close>.\<close>

fun unique_by :: "('a \<Rightarrow> 'b) \<Rightarrow> 'a list \<Rightarrow> bool" where
  "unique_by f [] = True"
| "unique_by f (x # xs) = (list_all (\<lambda>y. f x \<noteq> f y) xs \<and> unique_by f xs)"

definition ksf_verify :: "'w ServiceManager \<Rightarrow> bool list" where
  "ksf_verify m =
     (let snaps = snapshots m
      in [snaps \<noteq> [], unique_by snap_id snaps, unique_by snap_name snaps,
          list_all (\<lambda>s. list_all (\<lambda>dep. find (\<lambda>t. snap_id t = dep) snaps \<noteq> None) (snap_dependencies s)) snaps])"

section \<open>The built-in services\<close>

definition console_service :: "'w hooks \<Rightarrow> 'w Service" where
  "console_service H = \<lparr>svc_id = CONSOLE, svc_name = ''console'', svc_version = ''0.1.0'', svc_dependencies = [],
     svc_initialize = \<lambda>w. (Inr (), w), svc_start = \<lambda>w. (Inr (), w), svc_stop = \<lambda>w. w, svc_health = Healthy\<rparr>"

definition memory_service :: "'w hooks \<Rightarrow> 'w Service" where
  "memory_service H = \<lparr>svc_id = MEMORY, svc_name = ''memory'', svc_version = ''0.1.0'', svc_dependencies = [CONSOLE],
     svc_initialize = \<lambda>w. (Inr (), w), svc_start = \<lambda>w. (Inr (), w), svc_stop = \<lambda>w. w, svc_health = Healthy\<rparr>"

definition object_service :: "'w hooks \<Rightarrow> 'w Service" where
  "object_service H = \<lparr>svc_id = OBJECT, svc_name = ''object'', svc_version = ''0.1.0'', svc_dependencies = [MEMORY],
     svc_initialize = \<lambda>w. (Inr (), om_init H w), svc_start = \<lambda>w. (Inr (), w), svc_stop = \<lambda>w. w, svc_health = Healthy\<rparr>"

definition provider_service :: "'w hooks \<Rightarrow> 'w Service" where
  "provider_service H = \<lparr>svc_id = PROVIDER, svc_name = ''provider'', svc_version = ''0.1.0'', svc_dependencies = [OBJECT],
     svc_initialize = \<lambda>w. (Inr (), w), svc_start = \<lambda>w. (Inr (), w), svc_stop = \<lambda>w. w, svc_health = Healthy\<rparr>"

definition sif_service :: "'w hooks \<Rightarrow> 'w Service" where
  "sif_service H = \<lparr>svc_id = SIF, svc_name = ''sif'', svc_version = ''0.1.0'', svc_dependencies = [PROVIDER],
     svc_initialize = \<lambda>w. (Inr (), sif_init H w), svc_start = \<lambda>w. (Inr (), w), svc_stop = \<lambda>w. w, svc_health = Healthy\<rparr>"

definition timer_service :: "'w hooks \<Rightarrow> 'w Service" where
  "timer_service H = \<lparr>svc_id = TIMER, svc_name = ''timer'', svc_version = ''0.1.0'', svc_dependencies = [MEMORY],
     svc_initialize = \<lambda>w. (Inr (), tm_init H w), svc_start = \<lambda>w. (Inr (), w), svc_stop = \<lambda>w. w, svc_health = Healthy\<rparr>"

definition scheduler_service :: "'w hooks \<Rightarrow> 'w Service" where
  "scheduler_service H = \<lparr>svc_id = SCHEDULER, svc_name = ''scheduler'', svc_version = ''0.1.0'', svc_dependencies = [TIMER],
     svc_initialize = \<lambda>w. (Inr (), sc_init H w), svc_start = \<lambda>w. (Inr (), w), svc_stop = \<lambda>w. w, svc_health = Healthy\<rparr>"

definition event_service :: "'w hooks \<Rightarrow> 'w Service" where
  "event_service H = \<lparr>svc_id = EVENT, svc_name = ''event'', svc_version = ''0.1.0'', svc_dependencies = [SIF],
     svc_initialize = \<lambda>w. (Inr (), ev_init H w), svc_start = \<lambda>w. (Inr (), w), svc_stop = \<lambda>w. w, svc_health = Healthy\<rparr>"

definition health_service :: "'w hooks \<Rightarrow> 'w Service" where
  "health_service H = \<lparr>svc_id = HEALTH, svc_name = ''health'', svc_version = ''0.1.0'', svc_dependencies = [EVENT],
     svc_initialize = \<lambda>w. (Inr (), w), svc_start = \<lambda>w. (Inr (), w), svc_stop = \<lambda>w. w, svc_health = Healthy\<rparr>"

definition input_service :: "'w hooks \<Rightarrow> 'w Service" where
  "input_service H = \<lparr>svc_id = INPUT, svc_name = ''input'', svc_version = ''0.1.0'', svc_dependencies = [CONSOLE],
     svc_initialize = \<lambda>w. (Inr (), w), svc_start = \<lambda>w. (Inr (), w), svc_stop = \<lambda>w. w, svc_health = Healthy\<rparr>"

definition shell_service :: "'w hooks \<Rightarrow> 'w Service" where
  "shell_service H = \<lparr>svc_id = SHELL, svc_name = ''shell'', svc_version = ''0.1.0'', svc_dependencies = [CONSOLE, INPUT, SIF, SCHEDULER],
     svc_initialize = \<lambda>w. (Inr (), sh_init H w), svc_start = sh_start H, svc_stop = \<lambda>w. w, svc_health = Healthy\<rparr>"

definition vfs_service :: "'w hooks \<Rightarrow> 'w Service" where
  "vfs_service H = \<lparr>svc_id = VFS, svc_name = ''vfs'', svc_version = ''0.1.0'', svc_dependencies = [SIF],
     svc_initialize = \<lambda>w. (Inr (), w), svc_start = \<lambda>w. (Inr (), w), svc_stop = \<lambda>w. w, svc_health = Healthy\<rparr>"

definition driver_manager_service :: "'w hooks \<Rightarrow> 'w Service" where
  "driver_manager_service H = \<lparr>svc_id = DRIVER_MANAGER, svc_name = ''driver-manager'', svc_version = ''0.1.0'', svc_dependencies = [OBJECT],
     svc_initialize = \<lambda>w. (Inr (), dr_init H w), svc_start = \<lambda>w. (Inr (), w), svc_stop = \<lambda>w. w, svc_health = Healthy\<rparr>"

definition device_manager_service :: "'w hooks \<Rightarrow> 'w Service" where
  "device_manager_service H = \<lparr>svc_id = DEVICE_MANAGER, svc_name = ''device-manager'', svc_version = ''0.1.0'', svc_dependencies = [DRIVER_MANAGER],
     svc_initialize = \<lambda>w. (Inr (), de_init H w), svc_start = \<lambda>w. (Inr (), w), svc_stop = \<lambda>w. w, svc_health = Healthy\<rparr>"

definition process_manager_service :: "'w hooks \<Rightarrow> 'w Service" where
  "process_manager_service H = \<lparr>svc_id = PROCESS_MANAGER, svc_name = ''process-manager'', svc_version = ''0.1.0'', svc_dependencies = [SCHEDULER],
     svc_initialize = \<lambda>w. (Inr (), pr_init H w), svc_start = \<lambda>w. (Inr (), w), svc_stop = \<lambda>w. w, svc_health = Healthy\<rparr>"

definition ipc_service :: "'w hooks \<Rightarrow> 'w Service" where
  "ipc_service H = \<lparr>svc_id = IPC, svc_name = ''ipc'', svc_version = ''0.1.0'', svc_dependencies = [PROCESS_MANAGER],
     svc_initialize = \<lambda>w. (Inr (), w), svc_start = \<lambda>w. (Inr (), w), svc_stop = \<lambda>w. w, svc_health = Healthy\<rparr>"

definition network_service :: "'w hooks \<Rightarrow> 'w Service" where
  "network_service H = \<lparr>svc_id = NETWORK, svc_name = ''network'', svc_version = ''0.1.0'', svc_dependencies = [IPC],
     svc_initialize = \<lambda>w. (Inr (), w), svc_start = \<lambda>w. (Inr (), w), svc_stop = \<lambda>w. w, svc_health = Warning\<rparr>"

definition sairu_service :: "'w hooks \<Rightarrow> 'w Service" where
  "sairu_service H = \<lparr>svc_id = SAIRU, svc_name = ''sairu'', svc_version = ''0.1.0'', svc_dependencies = [HEALTH, EVENT],
     svc_initialize = \<lambda>w. (Inr (), w), svc_start = \<lambda>w. (Inr (), w), svc_stop = \<lambda>w. w, svc_health = Healthy\<rparr>"

definition builtin_services :: "'w hooks \<Rightarrow> 'w Service list" where
  "builtin_services H =
     [console_service H, memory_service H, object_service H,
      provider_service H, sif_service H, timer_service H,
      scheduler_service H, event_service H, health_service H,
      input_service H, vfs_service H, driver_manager_service H,
      device_manager_service H, process_manager_service H, ipc_service H,
      network_service H, sairu_service H, shell_service H]"

definition bootstrap :: "'w hooks \<Rightarrow> 'w ServiceManager \<Rightarrow> 'w \<Rightarrow> (unit res \<times> 'w ServiceManager \<times> 'w) option" where
  "bootstrap H m w = start_all H (fold ksf_register (builtin_services H) m) w"

section \<open>Starting services\<close>

definition running :: "'w ServiceManager \<Rightarrow> nat set" where
  "running m = {i. i < length (states m) \<and> states m ! i = Running}"

definition failed :: "'w ServiceManager \<Rightarrow> nat set" where
  "failed m = {i. i < length (states m) \<and> states m ! i = Failed}"

text \<open>Between two calls, while services are only started, each is registered, running or failed.\<close>

definition settled :: "'w ServiceManager \<Rightarrow> bool" where
  "settled m \<longleftrightarrow> length (states m) = length (services m) \<and> set (states m) \<subseteq> {Registered, Running, Failed}"

text \<open>Every running service has all its dependencies running.\<close>

definition dep_closed :: "'w ServiceManager \<Rightarrow> bool" where
  "dep_closed m \<longleftrightarrow> (\<forall>i\<in>running m. \<forall>d\<in>set (svc_dependencies (services m ! i)). \<exists>j\<in>running m. index_of m d = Some j)"

definition callbacks_ok :: "'w ServiceManager \<Rightarrow> bool" where
  "callbacks_ok m \<longleftrightarrow> (\<forall>s\<in>set (services m). \<forall>w. \<not> isl (fst (svc_initialize s w)) \<and> \<not> isl (fst (svc_start s w)))"

lemma settled_nth: "settled m \<Longrightarrow> i < length (states m) \<Longrightarrow> states m ! i \<in> {Registered, Running, Failed}"
  unfolding settled_def by (meson nth_mem subsetD)

lemma deps_ready_iff:
  assumes "settled m"
  shows "deps_ready_to_start m i \<longleftrightarrow> (\<forall>d\<in>set (svc_dependencies (services m ! i)). \<exists>j\<in>running m. index_of m d = Some j)"
proof -
  have "dep_ready m d \<longleftrightarrow> (\<exists>j\<in>running m. index_of m d = Some j)" for d
  proof (cases "index_of m d")
    case (Some j)
    then show ?thesis using settled_nth [OF assms, of j] by (auto simp: dep_ready_def running_def)
  qed (simp add: dep_ready_def)
  then show ?thesis by (simp add: deps_ready_to_start_def list_all_iff)
qed

lemma service_state_simps [simp]: "services (set_service_state i x m) = services m" "states (set_service_state i x m) = (states m)[i := x]"
  "index_of (set_service_state i x m) = index_of m"
  by (simp_all add: set_service_state_def index_of_def fun_eq_iff)

lemma settled_set_state:
  "settled m \<Longrightarrow> x \<in> {Registered, Running, Failed} \<Longrightarrow> settled (set_service_state i x m)"
  using set_update_subset_insert [of "states m" i x] by (auto simp: settled_def)

lemma start_at_settled:
  assumes S: "settled m" and D: "deps_ready_to_start m i" and N: "i < length (states m)" "i \<notin> running m"
  shows "\<exists>w' e. start_at H i m w = (Inr (), set_service_state i Running m, w')
    \<or> start_at H i m w = (Inl e, set_service_state i Failed m, w') \<and> (callbacks_ok m \<longrightarrow> i \<in> failed m)"
proof -
  have mem: "services m ! i \<in> set (services m)" using S N(1) by (simp add: settled_def)
  consider "states m ! i = Registered" | "states m ! i = Failed"
    using settled_nth [OF S N(1)] N by (auto simp: running_def)
  then show ?thesis
  proof cases
    case 1
    obtain r1 w1 where r1: "svc_initialize (services m ! i) w = (r1, w1)" by fastforce
    obtain r2 w2 where r2: "svc_start (services m ! i) w1 = (r2, w2)" by fastforce
    have idem: "set_service_state i x (set_service_state i y m) = set_service_state i x m" for x y
      using N(1) by (simp add: set_service_state_def)
    have ok: "callbacks_ok m \<longrightarrow> \<not> isl r1 \<and> \<not> isl r2" using mem r1 r2 unfolding callbacks_ok_def by (metis fst_conv)
    show ?thesis using 1 D r1 r2 ok
      by (cases r1; cases r2) (simp_all add: start_at_def init_at_def init_run_def Let_def idem)
  next
    case 2
    then have "set_service_state i Failed m = m" using N(1) list_update_id [of "states m" i] by (simp add: set_service_state_def)
    then show ?thesis using 2 D N(1) by (simp add: start_at_def init_at_def failed_def)
  qed
qed

lemma running_set_state: "i < length (states m) \<Longrightarrow> running (set_service_state i x m) = (if x = Running then insert i (running m) else running m - {i})"
  by (auto simp: running_def nth_list_update split: if_splits)

lemma failed_set_state: "i < length (states m) \<Longrightarrow> failed (set_service_state i x m) = (if x = Failed then insert i (failed m) else failed m - {i})"
  by (auto simp: failed_def nth_list_update split: if_splits)

lemma dep_closed_start:
  assumes "settled m" "dep_closed m" "deps_ready_to_start m i" "i < length (states m)"
  shows "dep_closed (set_service_state i Running m)"
  using assms unfolding dep_closed_def deps_ready_iff [OF assms(1)] running_set_state [OF assms(4)] by auto

lemma dep_closed_fail: "dep_closed m \<Longrightarrow> i < length (states m) \<Longrightarrow> i \<notin> running m \<Longrightarrow> dep_closed (set_service_state i Failed m)"
  by (simp add: dep_closed_def running_set_state)

text \<open>What one turn and one pass do, without their effect on the rest of the kernel.\<close>

definition advance :: "nat set \<Rightarrow> bool \<Rightarrow> bool \<Rightarrow> 'w ServiceManager \<Rightarrow> 'w ServiceManager \<Rightarrow> bool" where
  "advance X p p' m m' \<longleftrightarrow> services m' = services m \<and> settled m' \<and> dep_closed m' \<and> (p \<longrightarrow> p') \<and> running m \<subseteq> running m'
     \<and> (callbacks_ok m \<and> failed m = {} \<longrightarrow> failed m' = {})
     \<and> (p' \<and> \<not> p \<longrightarrow> running m \<subset> running m')
     \<and> (\<not> p' \<longrightarrow> running m' = running m \<and> failed m \<subseteq> failed m'
          \<and> (\<forall>i\<in>X. i \<in> running m' \<or> i \<in> failed m' \<or> \<not> deps_ready_to_start m' i))"

lemma start_turn_advance:
  assumes S: "settled m" "dep_closed m" "i < length (services m)" and R: "start_turn H i (p, m, w) = (p', m', w')"
  shows "advance {i} p p' m m'"
proof -
  have N: "i < length (states m)" using S by (simp add: settled_def)
  show ?thesis
  proof (cases "i \<in> running m \<or> \<not> deps_ready_to_start m i")
    case True
    then have "p' = p" "m' = m" using R N by (auto simp: start_turn_def running_def split: if_splits)
    with True S show ?thesis by (auto simp: advance_def)
  next
    case False
    then have F: "i \<notin> running m" "deps_ready_to_start m i" by auto
    then have nr: "states m ! i \<noteq> Running" using N by (simp add: running_def)
    from start_at_settled [OF S(1) F(2) N F(1), of H w] obtain w1 e where
      "start_at H i m w = (Inr (), set_service_state i Running m, w1)
        \<or> start_at H i m w = (Inl e, set_service_state i Failed m, w1) \<and> (callbacks_ok m \<longrightarrow> i \<in> failed m)" by blast
    then show ?thesis
    proof
      assume "start_at H i m w = (Inr (), set_service_state i Running m, w1)"
      then have "p'" "m' = set_service_state i Running m" using R nr F(2) by (simp_all add: start_turn_def)
      then show ?thesis
        using settled_set_state [OF S(1), of Running i] dep_closed_start [OF S(1,2) F(2) N] F(1)
        by (auto simp: advance_def running_set_state [OF N] failed_set_state [OF N])
    next
      assume E: "start_at H i m w = (Inl e, set_service_state i Failed m, w1) \<and> (callbacks_ok m \<longrightarrow> i \<in> failed m)"
      then have "p' = p" "m' = set_service_state i Failed m" using R nr F(2) by (simp_all add: start_turn_def)
      then show ?thesis
        using settled_set_state [OF S(1), of Failed i] dep_closed_fail [OF S(2) N F(1)] F(1) E
        by (auto simp: advance_def running_set_state [OF N] failed_set_state [OF N])
    qed
  qed
qed

lemma advance_trans:
  assumes A: "advance X p p' m m'" and B: "advance Y p' p'' m' m''"
  shows "advance (X \<union> Y) p p'' m m''"
proof -
  have S: "settled m'" "settled m''" "services m'' = services m'" using A B by (simp_all add: advance_def)
  have "index_of m'' = index_of m'" using S by (simp add: index_of_def fun_eq_iff)
  then have d: "deps_ready_to_start m'' i = deps_ready_to_start m' i" if "running m'' = running m'" for i
    using S that by (simp add: deps_ready_iff)
  have cb: "callbacks_ok m' = callbacks_ok m" using A by (simp add: advance_def callbacks_ok_def)
  have stuck: "running m'' = running m \<and> failed m \<subseteq> failed m''
      \<and> (\<forall>i\<in>X \<union> Y. i \<in> running m'' \<or> i \<in> failed m'' \<or> \<not> deps_ready_to_start m'' i)" if "\<not> p''"
  proof -
    have "\<not> p'" using B that by (simp add: advance_def)
    then have a: "running m' = running m" "failed m \<subseteq> failed m'"
      "\<forall>i\<in>X. i \<in> running m' \<or> i \<in> failed m' \<or> \<not> deps_ready_to_start m' i" using A unfolding advance_def by blast+
    have b: "running m'' = running m'" "failed m' \<subseteq> failed m''"
      "\<forall>i\<in>Y. i \<in> running m'' \<or> i \<in> failed m'' \<or> \<not> deps_ready_to_start m'' i" using B that unfolding advance_def by blast+
    show ?thesis using a b d [OF b(1)] by auto
  qed
  moreover have "running m \<subset> running m''" if "p''" "\<not> p"
    using A B that unfolding advance_def by (cases p') (blast intro: psubset_subset_trans subset_psubset_trans)+
  ultimately show ?thesis using A B cb unfolding advance_def by auto
qed

lemma start_fold_advance:
  assumes "settled m" "dep_closed m" "set xs \<subseteq> {..<length (services m)}"
    "fold (start_turn H) xs (p, m, w) = (p', m', w')"
  shows "advance (set xs) p p' m m'"
  using assms
proof (induction xs arbitrary: p m w)
  case Nil
  then show ?case by (simp add: advance_def)
next
  case (Cons i xs)
  obtain p1 m1 w1 where t: "start_turn H i (p, m, w) = (p1, m1, w1)" by (metis prod_cases3)
  have a: "advance {i} p p1 m m1" using start_turn_advance [OF Cons.prems(1,2) _ t] Cons.prems(3) by simp
  then have "settled m1" "dep_closed m1" "services m1 = services m" by (simp_all add: advance_def)
  then have "advance (set xs) p1 p' m1 m'" using Cons.IH [of m1 p1 w1] Cons.prems(3,4) t by simp
  with advance_trans [OF a this] show ?case by simp
qed

lemma start_loop_returns:
  fixes m :: "'w ServiceManager"
  assumes "settled m" "dep_closed m"
  shows "\<exists>m' w'. start_loop H m w = Some (m', w') \<and> services m' = services m \<and> settled m' \<and> dep_closed m'
    \<and> running m \<subseteq> running m' \<and> (callbacks_ok m \<and> failed m = {} \<longrightarrow> failed m' = {})
    \<and> (\<forall>i<length (services m). i \<in> running m' \<or> i \<in> failed m' \<or> \<not> deps_ready_to_start m' i)"
  using assms
proof (induction "length (services m) - card (running m)" arbitrary: m w rule: less_induct)
  case less
  obtain p1 m1 w1 where t: "start_pass H m w = (p1, m1, w1)" by (metis prod_cases3)
  have "advance (set [0..<length (services m)]) False p1 m m1"
    using less.prems t by (intro start_fold_advance) (auto simp: start_pass_def)
  then have A: "services m1 = services m" "settled m1" "dep_closed m1" "running m \<subseteq> running m1"
    "p1 \<Longrightarrow> running m \<subset> running m1" "callbacks_ok m \<and> failed m = {} \<longrightarrow> failed m1 = {}"
    "\<not> p1 \<Longrightarrow> \<forall>i<length (services m). i \<in> running m1 \<or> i \<in> failed m1 \<or> \<not> deps_ready_to_start m1 i"
    by (auto simp: advance_def)
  have cb: "callbacks_ok m1 = callbacks_ok m" using A(1) by (simp add: callbacks_ok_def)
  have len: "length (states m1) = length (services m)" using A by (simp add: settled_def)
  consider (all) "list_all (\<lambda>s. s = Running \<or> s = Failed) (states m1)"
    | (more) "\<not> list_all (\<lambda>s. s = Running \<or> s = Failed) (states m1)" p1
    | (stuck) "\<not> list_all (\<lambda>s. s = Running \<or> s = Failed) (states m1)" "\<not> p1" by blast
  then show ?case
  proof cases
    case all
    then have "i \<in> running m1 \<or> i \<in> failed m1" if "i < length (services m)" for i
      using that len by (auto simp: list_all_length running_def failed_def)
    moreover have "start_loop H m w = Some (m1, w1)" using all t by (subst start_loop.simps) simp
    ultimately show ?thesis using A by blast
  next
    case more
    have fin: "finite (running m1)" and le: "card (running m1) \<le> length (services m)"
      using card_mono [of "{..<length (services m)}" "running m1"] len by (auto simp: running_def)
    have "card (running m) < card (running m1)" using A(5) more(2) fin by (intro psubset_card_mono)
    with le A(1) have "length (services m1) - card (running m1) < length (services m) - card (running m)" by simp
    from less.hyps [OF this A(2,3), of w1] obtain m2 w2 where
      "start_loop H m1 w1 = Some (m2, w2)" "services m2 = services m1" "settled m2" "dep_closed m2" "running m1 \<subseteq> running m2"
      "callbacks_ok m1 \<and> failed m1 = {} \<longrightarrow> failed m2 = {}"
      "\<forall>i<length (services m1). i \<in> running m2 \<or> i \<in> failed m2 \<or> \<not> deps_ready_to_start m2 i" by blast
    moreover have "start_loop H m w = start_loop H m1 w1" using more t by (subst start_loop.simps) simp
    ultimately show ?thesis using A(1,4,6) cb by (metis order_trans)
  next
    case stuck
    have "start_loop H m w = Some (m1, w1)" using stuck t by (subst start_loop.simps) simp
    with A(1-4,6) A(7) [OF stuck(2)] show ?thesis by blast
  qed
qed

subsection \<open>Registration\<close>

lemma ksf_register_fresh:
  assumes "set (states m) \<subseteq> {Registered}" "length (states m) = length (services m)" "distinct (map svc_id (services m))"
  shows "set (states (ksf_register s m)) \<subseteq> {Registered} \<and> length (states (ksf_register s m)) = length (services (ksf_register s m))
    \<and> distinct (map svc_id (services (ksf_register s m)))"
  using assms by (auto simp: ksf_register_def index_of_def find_position_None)

lemma fold_register_fresh:
  assumes "set (states m) \<subseteq> {Registered}" "length (states m) = length (services m)" "distinct (map svc_id (services m))"
  shows "set (states (fold ksf_register ss m)) \<subseteq> {Registered} \<and> length (states (fold ksf_register ss m)) = length (services (fold ksf_register ss m))
    \<and> distinct (map svc_id (services (fold ksf_register ss m)))"
  using assms by (induction ss arbitrary: m) (simp_all add: ksf_register_fresh)

lemma fold_register_append:
  assumes "distinct (map svc_id (services m @ ss))"
  shows "services (fold ksf_register ss m) = services m @ ss"
  using assms
proof (induction ss arbitrary: m)
  case (Cons s ss)
  then have "svc_id s \<notin> svc_id ` set (services m)" by simp
  then have "index_of m (svc_id s) = None" unfolding index_of_def find_position_None by (metis imageI)
  then have "services (ksf_register s m) = services m @ [s]" by (simp add: ksf_register_def)
  with Cons show ?case by simp
qed simp

lemma fresh_settled: "set (states m) \<subseteq> {Registered} \<Longrightarrow> length (states m) = length (services m) \<Longrightarrow> settled m \<and> dep_closed m"
proof -
  assume m: "set (states m) \<subseteq> {Registered}" "length (states m) = length (services m)"
  then have "states m ! i = Registered" if "i < length (states m)" for i using that nth_mem by blast
  then have "running m = {}" by (auto simp: running_def)
  with m show ?thesis by (auto simp: settled_def dep_closed_def)
qed

subsection \<open>The built-in services\<close>

lemmas service_defs = console_service_def memory_service_def object_service_def provider_service_def sif_service_def
  timer_service_def scheduler_service_def event_service_def health_service_def input_service_def
  shell_service_def vfs_service_def driver_manager_service_def device_manager_service_def
  process_manager_service_def ipc_service_def network_service_def sairu_service_def

lemma builtin_ids: "map svc_id (builtin_services H) = [1, 2, 3, 4, 5, 6, 7, 8, 9, 10, 12, 13, 14, 15, 16, 17, 18, 11]"
  unfolding builtin_services_def service_defs list.map Service.simps by (rule refl)

lemma builtin_deps:
  "map svc_dependencies (builtin_services H) = [[], [1], [2], [3], [4], [2], [6], [5], [8], [1], [5], [3], [13], [7], [15], [16],
     [9, 8], [1, 10, 5, 7]]"
  unfolding builtin_services_def service_defs list.map Service.simps by (rule refl)

lemma builtin_callbacks:
  assumes "\<forall>w. \<not> isl (fst (sh_start H w))"
  shows "\<forall>s\<in>set (builtin_services H). \<forall>w. \<not> isl (fst (svc_initialize s w)) \<and> \<not> isl (fst (svc_start s w))"
  using assms by (simp add: builtin_services_def service_defs)

lemma find_position_map: "find_position (\<lambda>x. f x = y) xs = find_position (\<lambda>z. z = y) (map f xs)"
  by (induction xs) auto

lemma case_option_Some: "(case x of Some j \<Rightarrow> P j | None \<Rightarrow> False) \<Longrightarrow> \<exists>j. x = Some j \<and> P j"
  by (cases x) auto

lemma builtin_deps_earlier:
  assumes "services m = builtin_services H" "i < length (services m)" "d \<in> set (svc_dependencies (services m ! i))"
  shows "\<exists>j<i. index_of m d = Some j"
proof -
  let ?ids = "[1, 2, 3, 4, 5, 6, 7, 8, 9, 10, 12, 13, 14, 15, 16, 17, 18, 11] :: nat list"
  let ?deps = "[[], [1], [2], [3], [4], [2], [6], [5], [8], [1], [5], [3], [13], [7], [15], [16], [9, 8], [1, 10, 5, 7]] :: nat list list"
  have "svc_dependencies (services m ! i) = ?deps ! i" "i < length ?deps"
    using builtin_deps [of H] assms(1,2) by (metis nth_map, metis length_map)
  moreover have "list_all (\<lambda>i. list_all (\<lambda>d. case find_position (\<lambda>z. z = d) ?ids of Some j \<Rightarrow> j < i | None \<Rightarrow> False) (?deps ! i)) [0..<length ?deps]"
    by code_simp
  ultimately have "case find_position (\<lambda>z. z = d) ?ids of Some j \<Rightarrow> j < i | None \<Rightarrow> False"
    using assms(3) unfolding list_all_iff set_upt by (metis atLeastLessThan_iff zero_le)
  then obtain j where "find_position (\<lambda>z. z = d) ?ids = Some j" "j < i" using case_option_Some by fast
  moreover have "index_of m d = find_position (\<lambda>z. z = d) ?ids"
    unfolding index_of_def find_position_map [of svc_id] assms(1) builtin_ids by (rule refl)
  ultimately show ?thesis by auto
qed

lemma snapshots_maps:
  assumes "length (states m) = length (services m)"
  shows "map snap_id (snapshots m) = map svc_id (services m)" "map snap_name (snapshots m) = map svc_name (services m)"
    "map snap_dependencies (snapshots m) = map svc_dependencies (services m)"
  using assms by (simp_all add: snapshots_def list_eq_iff_nth_eq)

lemma unique_by_iff: "unique_by f xs \<longleftrightarrow> distinct (map f xs)"
  by (induction xs) (auto simp: list_all_iff)

text \<open>Three services, the second of which fails to start and is needed by the third.\<close>

definition demo_service :: "nat \<Rightarrow> nat list \<Rightarrow> bool \<Rightarrow> unit Service" where
  "demo_service i deps ok = \<lparr>svc_id = i, svc_name = [], svc_version = [], svc_dependencies = deps,
     svc_initialize = \<lambda>w. (Inr (), w), svc_start = \<lambda>w. (if ok then Inr () else Inl ''down'', w), svc_stop = \<lambda>w. w,
     svc_health = Healthy\<rparr>"

definition demo_manager :: "unit ServiceManager" where
  "demo_manager = \<lparr>services = [demo_service 1 [] True, demo_service 2 [] False, demo_service 3 [2] True],
     states = [Registered, Registered, Registered]\<rparr>"

definition demo_hooks :: "unit hooks" where
  "demo_hooks = \<lparr>om_init = \<lambda>w. w, sif_init = \<lambda>w. w, tm_init = \<lambda>w. w, sc_init = \<lambda>w. w, ev_init = \<lambda>w. w, sh_init = \<lambda>w. w,
     sh_start = \<lambda>w. (Inr (), w), dr_init = \<lambda>w. w, de_init = \<lambda>w. w, pr_init = \<lambda>w. w, mark_service = \<lambda>_ w. w\<rparr>"

section \<open>Properties\<close>

text \<open>C11: starting all services.  From freshly registered services the start loop returns, whatever the callbacks do.
  Afterwards every running service has all its dependencies running; every service that is not running
  either failed or has a dependency that is not running, so nothing startable is left out; and the
  result is success exactly when all services run.\<close>

theorem start_all_complete:
  assumes "set (states m) \<subseteq> {Registered}" and "length (states m) = length (services m)"
  shows "\<exists>r m' w'. start_all H m w = Some (r, m', w') \<and> services m' = services m
    \<and> (\<forall>i\<in>running m'. \<forall>d\<in>set (svc_dependencies (services m' ! i)). \<exists>j\<in>running m'. index_of m' d = Some j)
    \<and> (\<forall>i<length (services m'). i \<notin> running m' \<longrightarrow> i \<in> failed m'
         \<or> (\<exists>d\<in>set (svc_dependencies (services m' ! i)). \<forall>j\<in>running m'. index_of m' d \<noteq> Some j))
    \<and> (r = Inr () \<longleftrightarrow> running m' = {..<length (services m')})"
proof -
  from start_loop_returns [of m H w] fresh_settled [OF assms] obtain m' w' where
    L: "start_loop H m w = Some (m', w')" "services m' = services m" "settled m'" "dep_closed m'"
    "\<forall>i<length (services m). i \<in> running m' \<or> i \<in> failed m' \<or> \<not> deps_ready_to_start m' i" by blast
  define r where "r = (if list_ex (\<lambda>s. s \<noteq> Running) (states m') then Inl ''one or more services failed to start'' else Inr ())"
  have "length (states m') = length (services m')" using L(3) by (simp add: settled_def)
  then have "r = Inr () \<longleftrightarrow> running m' = {..<length (services m')}"
    by (auto simp: r_def running_def list_ex_length)
  moreover have "start_all H m w = Some (r, m', w')" using L(1) by (simp add: start_all_def r_def)
  ultimately show ?thesis using L(2,4,5) unfolding deps_ready_iff [OF L(3)] dep_closed_def by metis
qed

theorem start_all_complete_witness:
  "\<exists>r m' w'. start_all demo_hooks demo_manager () = Some (r, m', w') \<and> services m' = services demo_manager
    \<and> (r = Inr () \<longleftrightarrow> running m' = {..<3})"
  using start_all_complete [of demo_manager demo_hooks "()"] by (fastforce simp: demo_manager_def)

text \<open>C24: the boot sequence of the built-in services.  Started on an empty manager with a shell service that starts, it returns
  success with all eighteen services running, and the verification report of the framework passes in all four points.\<close>

theorem bootstrap_starts_all:
  assumes "\<forall>w. \<not> isl (fst (sh_start H w))"
  shows "\<exists>m' w'. bootstrap H manager_new w = Some (Inr (), m', w') \<and> services m' = builtin_services H
    \<and> states m' = replicate 18 Running \<and> ksf_verify m' = [True, True, True, True]"
proof -
  define m where "m = fold ksf_register (builtin_services H) manager_new"
  have ids: "distinct (map svc_id (builtin_services H))" unfolding builtin_ids by simp
  have m: "services m = builtin_services H" using fold_register_append [of manager_new "builtin_services H"] ids
    by (simp add: m_def manager_new_def)
  have fresh: "set (states m) \<subseteq> {Registered}" "length (states m) = length (services m)"
    using fold_register_fresh [of manager_new "builtin_services H"] by (simp_all add: m_def manager_new_def)
  have "Failed \<notin> set (states m)" using fresh(1) by auto
  then have f0: "failed m = {}" by (auto simp: failed_def in_set_conv_nth)
  have "callbacks_ok m" using builtin_callbacks [OF assms] by (simp add: callbacks_ok_def m)
  with start_loop_returns [of m H w] fresh_settled [OF fresh] f0 obtain m' w' where
    L: "start_loop H m w = Some (m', w')" "services m' = services m" "settled m'" "failed m' = {}"
    "\<forall>i<length (services m). i \<in> running m' \<or> i \<in> failed m' \<or> \<not> deps_ready_to_start m' i" by blast
  have run: "i < length (services m) \<Longrightarrow> i \<in> running m'" for i
  proof (induction i rule: less_induct)
    case (less i)
    then have "deps_ready_to_start m' i"
      unfolding deps_ready_iff [OF L(3)] using builtin_deps_earlier [of m' H i] L(2) m less_trans by metis
    with L(4,5) less.prems show ?case by blast
  qed
  have len: "length (services m) = 18" using arg_cong [OF builtin_ids [of H], of length] m by simp
  have lens: "length (states m') = 18" using L(2,3) len by (simp add: settled_def)
  have st: "states m' = replicate 18 Running"
    using run len lens by (intro nth_equalityI) (auto simp: running_def)
  have snaps: "map snap_id (snapshots m') = map svc_id (builtin_services H)" "map snap_name (snapshots m') = map svc_name (builtin_services H)"
    "map snap_dependencies (snapshots m') = map svc_dependencies (builtin_services H)"
    using snapshots_maps [of m'] L(2) m len lens by simp_all
  have names: "distinct (map svc_name (builtin_services H))"
    unfolding builtin_services_def service_defs list.map Service.simps by simp
  have "\<forall>ds\<in>set (map snap_dependencies (snapshots m')). \<forall>d\<in>set ds. d \<in> set (map snap_id (snapshots m'))"
    unfolding snaps builtin_ids builtin_deps by simp
  then have "list_all (\<lambda>s. list_all (\<lambda>dep. find (\<lambda>t. snap_id t = dep) (snapshots m') \<noteq> None) (snap_dependencies s)) (snapshots m')"
    by (force simp: list_all_iff find_None_iff)
  moreover have "snapshots m' \<noteq> []" using snaps(1) builtin_ids [of H] by auto
  ultimately have "ksf_verify m' = [True, True, True, True]"
    using snaps ids names by (simp add: ksf_verify_def Let_def unique_by_iff)
  moreover have "bootstrap H manager_new w = Some (Inr (), m', w')"
    using L(1) st by (simp add: bootstrap_def start_all_def m_def [symmetric] list_ex_iff)
  moreover have "services m' = builtin_services H" using L(2) m by simp
  ultimately show ?thesis using st by blast
qed

theorem bootstrap_starts_all_witness:
  "\<exists>m' w'. bootstrap demo_hooks manager_new () = Some (Inr (), m', w') \<and> states m' = replicate 18 Running"
  using bootstrap_starts_all [of demo_hooks "()"] by (fastforce simp: demo_hooks_def)

end
