(* ===== verification/Tmpfs.thy ===== *)
theory Tmpfs
  imports Text
begin

text \<open>
  The in-memory file system, the \<open>TmpFs\<close> part of \<^verbatim>\<open>seed/saios/src/vfs.rs\<close>.  Inode numbers and vector
  indices are natural numbers (the node vector would exhaust memory long before \<open>u64\<close> wraps), file
  contents are lists of bytes.  \<open>path_for_inode\<close> walks parent links until it meets the root; nothing in
  the code guarantees that it does, so the loop is a partial function whose value \<open>None\<close> stands for not
  returning.  Shown are the tree invariant and that every operation keeps it (a rename under the
  condition the code does not check), lookup after insertion and removal, and that the path printed for
  a node resolves to that node.
\<close>

section \<open>Data\<close>

datatype FileType = Directory | File

record VNode =
  vn_inode :: nat
  vn_name :: string
  vn_kind :: FileType

record Node =
  n_inode :: nat
  n_name :: string
  n_kind :: FileType
  n_parent :: "nat option"
  n_children :: "nat list"
  n_data :: "u8 list"

record TmpFs =
  nodes :: "Node option list"
  root :: nat
  cwd :: nat

definition tmpfs_new :: TmpFs where
  "tmpfs_new = \<lparr>nodes = [Some \<lparr>n_inode = 1, n_name = ''/'', n_kind = Directory, n_parent = None,
     n_children = [], n_data = []\<rparr>], root = 1, cwd = 1\<rparr>"

section \<open>Nodes\<close>

definition inode_to_index :: "nat \<Rightarrow> nat option" where
  "inode_to_index inode = (if inode = 0 then None else Some (inode - 1))"

definition node :: "TmpFs \<Rightarrow> nat \<Rightarrow> Node res" where
  "node fs inode =
     (case inode_to_index inode of
        None \<Rightarrow> Inl ''invalid inode''
      | Some idx \<Rightarrow>
          (case if idx < length (nodes fs) then nodes fs ! idx else None of
             None \<Rightarrow> Inl ''node missing''
           | Some n \<Rightarrow> Inr n))"

text \<open>\<open>node_mut\<close>: apply a change to the node if it exists.\<close>

definition node_mut :: "nat \<Rightarrow> (Node \<Rightarrow> Node) \<Rightarrow> TmpFs \<Rightarrow> unit res \<times> TmpFs" where
  "node_mut inode f fs =
     (case node fs inode of
        Inl e \<Rightarrow> (Inl e, fs)
      | Inr n \<Rightarrow> (Inr (), fs\<lparr>nodes := (nodes fs)[inode - 1 := Some (f n)]\<rparr>))"

definition next_inode :: "TmpFs \<Rightarrow> nat" where
  "next_inode fs = length (nodes fs) + 1"

section \<open>Paths\<close>

definition path_parts :: "string \<Rightarrow> string list" where
  "path_parts path = filter (\<lambda>p. p \<noteq> []) (split_char (CHR ''/'') path)"

definition node_named :: "TmpFs \<Rightarrow> string \<Rightarrow> nat \<Rightarrow> bool" where
  "node_named fs name inode = (case node fs inode of Inl _ \<Rightarrow> False | Inr n \<Rightarrow> n_name n = name)"

definition lookup_child_by_name :: "TmpFs \<Rightarrow> nat \<Rightarrow> string \<Rightarrow> nat option" where
  "lookup_child_by_name fs dir_inode name =
     (case node fs dir_inode of
        Inl _ \<Rightarrow> None
      | Inr dir \<Rightarrow>
          if n_kind dir \<noteq> Directory then None else find (node_named fs name) (n_children dir))"

fun resolve_parts :: "TmpFs \<Rightarrow> nat \<Rightarrow> string list \<Rightarrow> nat res" where
  "resolve_parts fs cur [] = Inr cur"
| "resolve_parts fs cur (part # parts) =
     (if part = ''.'' then resolve_parts fs cur parts
      else if part = ''..'' then
        (case node fs cur of
           Inl e \<Rightarrow> Inl e
         | Inr n \<Rightarrow> resolve_parts fs (case n_parent n of Some p \<Rightarrow> p | None \<Rightarrow> cur) parts)
      else
        (case lookup_child_by_name fs cur part of
           None \<Rightarrow> Inl ''path not found''
         | Some c \<Rightarrow> resolve_parts fs c parts))"

definition resolve_from :: "TmpFs \<Rightarrow> nat \<Rightarrow> string \<Rightarrow> nat res" where
  "resolve_from fs start path =
     (if path = ''/'' then Inr (root fs)
      else resolve_parts fs (if starts_with path ''/'' then root fs else start) (path_parts path))"

definition resolve :: "TmpFs \<Rightarrow> string \<Rightarrow> nat res" where
  "resolve fs path = resolve_from fs (cwd fs) path"

definition resolve_parent_and_name :: "TmpFs \<Rightarrow> string \<Rightarrow> (nat \<times> string) res" where
  "resolve_parent_and_name fs path =
     (let parts = path_parts path
      in if parts = [] then Inl ''missing name''
         else
           let name = last parts; init = butlast parts
           in if name = ''.'' \<or> name = ''..'' then Inl ''invalid name''
              else
                let parent_path =
                  (if starts_with path ''/'' then
                     (if init = [] then ''/'' else CHR ''/'' # join_char (CHR ''/'') init)
                   else join_char (CHR ''/'') init)
                in if parent_path = [] then Inr (cwd fs, name)
                   else
                     (case resolve fs parent_path of
                        Inl e \<Rightarrow> Inl e
                      | Inr parent \<Rightarrow> Inr (parent, name)))"

section \<open>Changing the tree\<close>

definition insert_node :: "nat \<Rightarrow> string \<Rightarrow> FileType \<Rightarrow> TmpFs \<Rightarrow> nat res \<times> TmpFs" where
  "insert_node parent_inode name kind fs =
     (case node fs parent_inode of
        Inl e \<Rightarrow> (Inl e, fs)
      | Inr parent \<Rightarrow>
          if n_kind parent \<noteq> Directory then (Inl ''parent is not a directory'', fs)
          else if lookup_child_by_name fs parent_inode name \<noteq> None then (Inl ''already exists'', fs)
          else
            let inode = next_inode fs;
                fs1 = fs\<lparr>nodes := nodes fs @ [Some \<lparr>n_inode = inode, n_name = name, n_kind = kind,
                        n_parent = Some parent_inode, n_children = [], n_data = []\<rparr>]\<rparr>
            in case node_mut parent_inode (\<lambda>n. n\<lparr>n_children := n_children n @ [inode]\<rparr>) fs1 of
                 (Inl e, fs2) \<Rightarrow> (Inl e, fs2)
               | (Inr _, fs2) \<Rightarrow> (Inr inode, fs2))"

definition remove_inode :: "nat \<Rightarrow> TmpFs \<Rightarrow> unit res \<times> TmpFs" where
  "remove_inode inode fs =
     (if inode = root fs then (Inl ''cannot remove root'', fs)
      else
        case node fs inode of
          Inl e \<Rightarrow> (Inl e, fs)
        | Inr n \<Rightarrow>
            if n_kind n = Directory \<and> n_children n \<noteq> [] then (Inl ''directory not empty'', fs)
            else
              case (case n_parent n of
                      None \<Rightarrow> (Inr (), fs)
                    | Some parent_inode \<Rightarrow>
                        node_mut parent_inode (\<lambda>p. p\<lparr>n_children := filter (\<lambda>c. c \<noteq> inode) (n_children p)\<rparr>) fs) of
                (Inl e, fs1) \<Rightarrow> (Inl e, fs1)
              | (Inr _, fs1) \<Rightarrow>
                  let fs2 = fs1\<lparr>nodes := (nodes fs1)[inode - 1 := None]\<rparr>
                  in (Inr (), if cwd fs2 = inode then fs2\<lparr>cwd := root fs2\<rparr> else fs2))"

text \<open>The loop of \<open>path_for_inode\<close>.\<close>

partial_function (option) climb :: "TmpFs \<Rightarrow> nat \<Rightarrow> string list \<Rightarrow> string list option" where
  "climb fs cur parts =
     (case node fs cur of
        Inl _ \<Rightarrow> Some parts
      | Inr n \<Rightarrow>
          if cur = root fs then Some parts
          else
            let parts' = parts @ [n_name n];
                cur' = (case n_parent n of Some p \<Rightarrow> p | None \<Rightarrow> root fs)
            in if cur' = root fs then Some parts' else climb fs cur' parts')"

definition path_for_inode :: "TmpFs \<Rightarrow> nat \<Rightarrow> string option" where
  "path_for_inode fs inode =
     (if inode = root fs then Some ''/''
      else map_option (\<lambda>parts. CHR ''/'' # join_char (CHR ''/'') (rev parts)) (climb fs inode []))"

definition cwd_path :: "TmpFs \<Rightarrow> string option" where
  "cwd_path fs = path_for_inode fs (cwd fs)"

fun normalize_parts :: "string list \<Rightarrow> string list \<Rightarrow> string list" where
  "normalize_parts acc [] = acc"
| "normalize_parts acc (p # ps) =
     (if p = ''.'' then normalize_parts acc ps
      else if p = ''..'' then normalize_parts (butlast acc) ps
      else normalize_parts (acc @ [p]) ps)"

definition normalized_path :: "TmpFs \<Rightarrow> string \<Rightarrow> string option" where
  "normalized_path fs path =
     (case (if starts_with path ''/'' then Some [] else map_option path_parts (cwd_path fs)) of
        None \<Rightarrow> None
      | Some start \<Rightarrow>
          let parts = normalize_parts start (path_parts path)
          in Some (if parts = [] then ''/'' else CHR ''/'' # join_char (CHR ''/'') parts))"

definition rename_path :: "string \<Rightarrow> string \<Rightarrow> TmpFs \<Rightarrow> unit res \<times> TmpFs" where
  "rename_path from to fs =
     (case resolve fs from of
        Inl e \<Rightarrow> (Inl e, fs)
      | Inr inode \<Rightarrow>
          if inode = root fs then (Inl ''cannot rename root'', fs)
          else
            case resolve_parent_and_name fs to of
              Inl e \<Rightarrow> (Inl e, fs)
            | Inr (new_parent, new_name) \<Rightarrow>
                if lookup_child_by_name fs new_parent new_name \<noteq> None
                then (Inl ''destination exists'', fs)
                else
                  case node fs inode of
                    Inl e \<Rightarrow> (Inl e, fs)
                  | Inr n \<Rightarrow>
                      (case n_parent n of
                         None \<Rightarrow> (Inl ''missing parent'', fs)
                       | Some old_parent \<Rightarrow>
                           (case node_mut old_parent
                                   (\<lambda>p. p\<lparr>n_children := filter (\<lambda>c. c \<noteq> inode) (n_children p)\<rparr>) fs of
                              (Inl e, fs1) \<Rightarrow> (Inl e, fs1)
                            | (Inr _, fs1) \<Rightarrow>
                                (case node_mut new_parent
                                        (\<lambda>p. p\<lparr>n_children := n_children p @ [inode]\<rparr>) fs1 of
                                   (Inl e, fs2) \<Rightarrow> (Inl e, fs2)
                                 | (Inr _, fs2) \<Rightarrow>
                                     node_mut inode
                                       (\<lambda>m. m\<lparr>n_name := new_name, n_parent := Some new_parent\<rparr>) fs2))))"

section \<open>File contents\<close>

definition read_inode_range :: "TmpFs \<Rightarrow> nat \<Rightarrow> nat \<Rightarrow> nat \<Rightarrow> u8 list res" where
  "read_inode_range fs inode offset max_len =
     (case node fs inode of
        Inl e \<Rightarrow> Inl e
      | Inr n \<Rightarrow>
          if n_kind n \<noteq> File then Inl ''not a file''
          else if length (n_data n) \<le> offset then Inr []
          else Inr (take (min (length (n_data n)) (offset + max_len) - offset) (drop offset (n_data n))))"

definition overwrite :: "nat \<Rightarrow> u8 list \<Rightarrow> u8 list \<Rightarrow> u8 list" where
  "overwrite offset new old =
     (let need_len = offset + length new;
          resized = (if need_len > length old then old @ replicate (need_len - length old) 0 else old)
      in take offset resized @ new @ drop (offset + length new) resized)"

definition write_inode_at :: "nat \<Rightarrow> nat \<Rightarrow> u8 list \<Rightarrow> TmpFs \<Rightarrow> nat res \<times> TmpFs" where
  "write_inode_at inode offset new fs =
     (case node fs inode of
        Inl e \<Rightarrow> (Inl e, fs)
      | Inr n \<Rightarrow>
          if n_kind n \<noteq> File then (Inl ''not a file'', fs)
          else (Inr (length new), snd (node_mut inode (\<lambda>n. n\<lparr>n_data := overwrite offset new (n_data n)\<rparr>) fs)))"

definition truncate_inode :: "nat \<Rightarrow> TmpFs \<Rightarrow> unit res \<times> TmpFs" where
  "truncate_inode inode fs =
     (case node fs inode of
        Inl e \<Rightarrow> (Inl e, fs)
      | Inr n \<Rightarrow>
          if n_kind n \<noteq> File then (Inl ''not a file'', fs)
          else node_mut inode (\<lambda>n. n\<lparr>n_data := []\<rparr>) fs)"

definition inode_len :: "TmpFs \<Rightarrow> nat \<Rightarrow> nat res" where
  "inode_len fs inode =
     (case node fs inode of
        Inl e \<Rightarrow> Inl e
      | Inr n \<Rightarrow> if n_kind n \<noteq> File then Inl ''not a file'' else Inr (length (n_data n)))"

section \<open>The FileSystem trait\<close>

definition insert_at :: "FileType \<Rightarrow> string \<Rightarrow> TmpFs \<Rightarrow> unit res \<times> TmpFs" where
  "insert_at kind path fs =
     (case resolve_parent_and_name fs path of
        Inl e \<Rightarrow> (Inl e, fs)
      | Inr (parent, name) \<Rightarrow>
          (case insert_node parent name kind fs of
             (Inl e, fs1) \<Rightarrow> (Inl e, fs1)
           | (Inr _, fs1) \<Rightarrow> (Inr (), fs1)))"

definition fs_create :: "string \<Rightarrow> TmpFs \<Rightarrow> unit res \<times> TmpFs" where
  "fs_create = insert_at File"

definition fs_mkdir :: "string \<Rightarrow> TmpFs \<Rightarrow> unit res \<times> TmpFs" where
  "fs_mkdir = insert_at Directory"

definition fs_open_node :: "TmpFs \<Rightarrow> string \<Rightarrow> VNode res" where
  "fs_open_node fs path =
     (case resolve fs path of
        Inl e \<Rightarrow> Inl e
      | Inr inode \<Rightarrow>
          (case node fs inode of
             Inl e \<Rightarrow> Inl e
           | Inr n \<Rightarrow> Inr \<lparr>vn_inode = n_inode n, vn_name = n_name n, vn_kind = n_kind n\<rparr>))"

definition fs_read :: "TmpFs \<Rightarrow> string \<Rightarrow> u8 list res" where
  "fs_read fs path =
     (case resolve fs path of
        Inl e \<Rightarrow> Inl e
      | Inr inode \<Rightarrow>
          (case node fs inode of
             Inl e \<Rightarrow> Inl e
           | Inr n \<Rightarrow> if n_kind n \<noteq> File then Inl ''not a file'' else Inr (n_data n)))"

definition fs_write :: "string \<Rightarrow> u8 list \<Rightarrow> TmpFs \<Rightarrow> unit res \<times> TmpFs" where
  "fs_write path new fs =
     (case resolve fs path of
        Inl e \<Rightarrow> (Inl e, fs)
      | Inr inode \<Rightarrow>
          (case node fs inode of
             Inl e \<Rightarrow> (Inl e, fs)
           | Inr n \<Rightarrow>
               if n_kind n \<noteq> File then (Inl ''not a file'', fs)
               else node_mut inode (\<lambda>n. n\<lparr>n_data := new\<rparr>) fs))"

definition fs_remove :: "string \<Rightarrow> TmpFs \<Rightarrow> unit res \<times> TmpFs" where
  "fs_remove path fs =
     (case resolve fs path of Inl e \<Rightarrow> (Inl e, fs) | Inr inode \<Rightarrow> remove_inode inode fs)"

fun child_names :: "TmpFs \<Rightarrow> nat list \<Rightarrow> string list res" where
  "child_names fs [] = Inr []"
| "child_names fs (c # cs) =
     (case node fs c of
        Inl e \<Rightarrow> Inl e
      | Inr n \<Rightarrow> (case child_names fs cs of Inl e \<Rightarrow> Inl e | Inr ns \<Rightarrow> Inr (n_name n # ns)))"

text \<open>Names are sorted as byte strings.\<close>

fun string_le :: "string \<Rightarrow> string \<Rightarrow> bool" where
  "string_le [] t = True"
| "string_le (c # s) [] = False"
| "string_le (c # s) (d # t) =
     (if c = d then string_le s t else (of_char c :: nat) < of_char d)"

fun insert_sorted :: "string \<Rightarrow> string list \<Rightarrow> string list" where
  "insert_sorted x [] = [x]"
| "insert_sorted x (y # ys) = (if string_le x y then x # y # ys else y # insert_sorted x ys)"

definition sort_strings :: "string list \<Rightarrow> string list" where
  "sort_strings xs = foldr insert_sorted xs []"

definition fs_readdir :: "TmpFs \<Rightarrow> string \<Rightarrow> string list res" where
  "fs_readdir fs path =
     (case (if path = [] then Inr (cwd fs) else resolve fs path) of
        Inl e \<Rightarrow> Inl e
      | Inr inode \<Rightarrow>
          (case node fs inode of
             Inl e \<Rightarrow> Inl e
           | Inr n \<Rightarrow>
               if n_kind n \<noteq> Directory then Inl ''not a directory''
               else (case child_names fs (n_children n) of Inl e \<Rightarrow> Inl e | Inr ns \<Rightarrow> Inr (sort_strings ns))))"

section \<open>The tree of nodes\<close>

text \<open>The node table as a map from inode numbers.\<close>

definition nmap :: "TmpFs \<Rightarrow> nat \<Rightarrow> Node option" where
  "nmap fs i = (if i = 0 \<or> length (nodes fs) < i then None else nodes fs ! (i - 1))"

definition valid_name :: "string \<Rightarrow> bool" where
  "valid_name s \<longleftrightarrow> s \<noteq> [] \<and> CHR ''/'' \<notin> set s \<and> s \<noteq> ''.'' \<and> s \<noteq> ''..''"

inductive rooted :: "(nat \<Rightarrow> Node option) \<Rightarrow> nat \<Rightarrow> nat \<Rightarrow> bool" for M r where
  rooted_root: "rooted M r r"
| rooted_step: "M i = Some n \<Longrightarrow> n_parent n = Some p \<Longrightarrow> rooted M r p \<Longrightarrow> rooted M r i"

text \<open>\<open>below M a i\<close>: node \<open>i\<close> lies in the subtree of \<open>a\<close>.\<close>

inductive below :: "(nat \<Rightarrow> Node option) \<Rightarrow> nat \<Rightarrow> nat \<Rightarrow> bool" for M a where
  below_refl: "below M a a"
| below_step: "M i = Some n \<Longrightarrow> n_parent n = Some p \<Longrightarrow> below M a p \<Longrightarrow> below M a i"

definition node_ok :: "(nat \<Rightarrow> Node option) \<Rightarrow> nat \<Rightarrow> nat \<Rightarrow> Node \<Rightarrow> bool" where
  "node_ok M r i n \<longleftrightarrow> n_inode n = i \<and> distinct (n_children n) \<and> (n_kind n = File \<longrightarrow> n_children n = [])
     \<and> (i \<noteq> r \<longrightarrow> valid_name (n_name n) \<and> (\<exists>p m. n_parent n = Some p \<and> M p = Some m \<and> i \<in> set (n_children m)))
     \<and> (\<forall>c\<in>set (n_children n). \<exists>m. M c = Some m \<and> n_parent m = Some i)
     \<and> inj_on (\<lambda>c. map_option n_name (M c)) (set (n_children n))"

definition tree :: "(nat \<Rightarrow> Node option) \<Rightarrow> nat \<Rightarrow> bool" where
  "tree M r \<longleftrightarrow> (\<exists>n. M r = Some n \<and> n_kind n = Directory \<and> n_parent n = None)
     \<and> (\<forall>i n. M i = Some n \<longrightarrow> node_ok M r i n \<and> rooted M r i)"

definition tmpfs_inv :: "TmpFs \<Rightarrow> bool" where
  "tmpfs_inv fs \<longleftrightarrow> tree (nmap fs) (root fs)
     \<and> (\<exists>n. nmap fs (cwd fs) = Some n \<and> n_kind n = Directory)"

lemma node_nmap: "node fs i = (if i = 0 then Inl ''invalid inode'' else
    case nmap fs i of None \<Rightarrow> Inl ''node missing'' | Some n \<Rightarrow> Inr n)"
  by (auto simp: node_def inode_to_index_def nmap_def)

lemma nmap_0 [simp]: "nmap fs 0 = None"
  by (simp add: nmap_def)

lemma node_Inr: "node fs i = Inr n \<longleftrightarrow> nmap fs i = Some n"
  by (auto simp: node_nmap split: option.splits)

lemma nmap_update:
  assumes "nmap fs i = Some n"
  shows "nmap (fs\<lparr>nodes := (nodes fs)[i - 1 := x]\<rparr>) = (nmap fs)(i := x)"
  using assms by (auto simp: nmap_def fun_eq_iff nth_list_update split: if_splits)

lemma nmap_push: "nmap (fs\<lparr>nodes := nodes fs @ [x]\<rparr>) = (nmap fs)(next_inode fs := x)"
  by (auto simp: nmap_def fun_eq_iff nth_append next_inode_def)

lemma nmap_next: "nmap fs (next_inode fs) = None"
  by (simp add: nmap_def next_inode_def)

lemma nmap_cwd [simp]: "nmap (fs\<lparr>cwd := c\<rparr>) = nmap fs"
  by (simp add: nmap_def fun_eq_iff)

lemma node_mut_Some:
  assumes "nmap fs i = Some n"
  shows "\<exists>fs'. node_mut i f fs = (Inr (), fs') \<and> nmap fs' = (nmap fs)(i \<mapsto> f n)
    \<and> root fs' = root fs \<and> cwd fs' = cwd fs \<and> length (nodes fs') = length (nodes fs)"
proof -
  have "node fs i = Inr n" using assms by (simp add: node_Inr)
  then show ?thesis using nmap_update [OF assms] by (simp add: node_mut_def)
qed

lemma node_mut_None: "nmap fs i = None \<Longrightarrow> \<exists>e. node_mut i f fs = (Inl e, fs)"
  by (simp add: node_mut_def node_nmap)

subsection \<open>Rootedness\<close>

lemma rooted_mono:
  assumes "rooted M r i" "\<And>j n p. M j = Some n \<Longrightarrow> n_parent n = Some p \<Longrightarrow> \<exists>n'. M' j = Some n' \<and> n_parent n' = Some p"
  shows "rooted M' r i"
  using assms(1)
proof (induction rule: rooted.induct)
  case (rooted_step i n p)
  then show ?case using assms(2) rooted.rooted_step by blast
qed (rule rooted.rooted_root)

lemma below_parent: "below M a p \<Longrightarrow> M i = Some n \<Longrightarrow> n_parent n = Some p \<Longrightarrow> below M a i"
  by (rule below.below_step)

text \<open>Moving \<open>i\<close> under \<open>q\<close> keeps everything rooted, provided \<open>q\<close> is not in the subtree of \<open>i\<close>.\<close>

lemma rooted_move:
  assumes "rooted M r q" "\<not> below M i q" "M' i = Some n'" "n_parent n' = Some q"
    "\<And>j n p. j \<noteq> i \<Longrightarrow> M j = Some n \<Longrightarrow> n_parent n = Some p \<Longrightarrow> \<exists>n'. M' j = Some n' \<and> n_parent n' = Some p"
  shows "rooted M r j \<Longrightarrow> rooted M' r j"
proof -
  have "rooted M r k \<Longrightarrow> \<not> below M i k \<Longrightarrow> rooted M' r k" for k
  proof (induction rule: rooted.induct)
    case (rooted_step k n p)
    then have "k \<noteq> i" "\<not> below M i p" by (auto intro: below.intros)
    then show ?case using rooted_step assms(5) rooted.rooted_step by blast
  qed (rule rooted.rooted_root)
  with assms(1-4) have i: "rooted M' r i" using rooted.rooted_step by blast
  show "rooted M r j \<Longrightarrow> rooted M' r j"
  proof (induction rule: rooted.induct)
    case (rooted_step k n p)
    then show ?case using i assms(5) rooted.rooted_step by (cases "k = i") blast+
  qed (rule rooted.rooted_root)
qed

subsection \<open>Changes of the tree\<close>

lemma treeD:
  assumes "tree M r" "M i = Some n"
  shows "n_inode n = i" "distinct (n_children n)" "n_kind n = File \<Longrightarrow> n_children n = []"
    "i \<noteq> r \<Longrightarrow> valid_name (n_name n)"
    "i \<noteq> r \<Longrightarrow> \<exists>p m. n_parent n = Some p \<and> M p = Some m \<and> i \<in> set (n_children m)"
    "\<And>c. c \<in> set (n_children n) \<Longrightarrow> \<exists>m. M c = Some m \<and> n_parent m = Some i"
    "inj_on (\<lambda>c. map_option n_name (M c)) (set (n_children n))" "rooted M r i"
  using assms by (auto simp: tree_def node_ok_def)

lemma tree_root:
  assumes "tree M r"
  obtains n where "M r = Some n" "n_kind n = Directory" "n_parent n = None"
  using assms by (auto simp: tree_def)

lemma tree_data:
  assumes "tree M r" "M i = Some n"
  shows "tree (M(i \<mapsto> n\<lparr>n_data := d\<rparr>)) r"
proof -
  let ?M = "M(i \<mapsto> n\<lparr>n_data := d\<rparr>)"
  have names: "map_option n_name (?M c) = map_option n_name (M c)" for c using assms(2) by simp
  have ro: "rooted ?M r j" if "rooted M r j" for j
    using that by (rule rooted_mono) (use assms(2) in auto)
  have "node_ok ?M r j m" if "?M j = Some m" for j m
  proof (cases "j = i")
    case True
    with that have m: "m = n\<lparr>n_data := d\<rparr>" by simp
    have "node_ok M r i n" using assms by (simp add: tree_def)
    then show ?thesis using True m assms(2) unfolding node_ok_def names by auto
  next
    case False
    with that assms(1) have "node_ok M r j m" by (simp add: tree_def)
    then show ?thesis using assms(2) unfolding node_ok_def names by auto
  qed
  moreover have "rooted ?M r j" if "?M j = Some m" for j m
    using that assms ro by (auto simp: tree_def split: if_splits)
  moreover have "\<exists>n. ?M r = Some n \<and> n_kind n = Directory \<and> n_parent n = None"
    using assms by (auto simp: tree_def)
  ultimately show ?thesis unfolding tree_def by blast
qed

lemma inj_names:
  assumes "inj_on (\<lambda>c. map_option n_name (M c)) A" "B \<subseteq> A"
    "\<And>c. c \<in> B \<Longrightarrow> map_option n_name (M' c) = map_option n_name (M c)"
  shows "inj_on (\<lambda>c. map_option n_name (M' c)) B"
  using inj_on_subset [OF assms(1,2)] assms(3) by (simp cong: inj_on_cong)

lemma tree_insert:
  fixes k :: FileType
  assumes T: "tree M r" and P: "M p = Some m" "n_kind m = Directory" and N: "M i = None"
    and V: "valid_name nm" and U: "\<forall>c\<in>set (n_children m). map_option n_name (M c) \<noteq> Some nm"
  defines "n \<equiv> \<lparr>n_inode = i, n_name = nm, n_kind = k, n_parent = Some p, n_children = [], n_data = []\<rparr>"
  shows "tree (M(i \<mapsto> n, p \<mapsto> m\<lparr>n_children := n_children m @ [i]\<rparr>)) r"
proof -
  let ?m = "m\<lparr>n_children := n_children m @ [i]\<rparr>"
  let ?M = "M(i \<mapsto> n, p \<mapsto> ?m)"
  have pi: "p \<noteq> i" using P N by auto
  have i_new: "i \<notin> set (n_children x)" if "M j = Some x" for j x
    using treeD(6) [OF T that] N by fastforce
  have ir: "i \<noteq> r" using T N by (auto simp: tree_def)
  have names: "c \<noteq> i \<Longrightarrow> map_option n_name (?M c) = map_option n_name (M c)" for c using P by simp
  have ro: "rooted ?M r j" if "rooted M r j" for j
    using that by (rule rooted_mono) (use P N in auto)
  have grow: "\<exists>y'. ?M q = Some y' \<and> set (n_children y) \<subseteq> set (n_children y')" if "M q = Some y" for q y
    using that P N by (cases "q = p") auto
  have up: "\<exists>q y. n_parent x = Some q \<and> ?M q = Some y \<and> j \<in> set (n_children y)"
    if "M j = Some x" "j \<noteq> r" for j x
    using treeD(5) [OF T that] grow by blast
  have "rooted ?M r i"
    using ro [OF treeD(8) [OF T P(1)]] pi by (intro rooted_step [of ?M i n p]) (simp_all add: n_def)
  moreover have "node_ok ?M r p ?m"
  proof -
    have ci: "c \<noteq> i" if "c \<in> set (n_children m)" for c using that i_new [OF P(1)] by blast
    have "inj_on (\<lambda>c. map_option n_name (?M c)) (set (n_children m))"
      by (rule inj_names [OF treeD(7) [OF T P(1)] subset_refl], rule names, rule ci)
    moreover have "map_option n_name (?M i) = Some nm" using pi by (simp add: n_def)
    moreover have "\<forall>c\<in>set (n_children m). map_option n_name (?M c) \<noteq> Some nm"
      using U names ci by metis
    ultimately have "inj_on (\<lambda>c. map_option n_name (?M c)) (insert i (set (n_children m)))"
      unfolding inj_on_insert by (metis (no_types, lifting) Diff_iff imageE)
    then have "inj_on (\<lambda>c. map_option n_name (?M c)) (set (n_children ?m))"
      by simp
    moreover have "\<forall>c\<in>set (n_children ?m). \<exists>x. ?M c = Some x \<and> n_parent x = Some p"
      using treeD(6) [OF T P(1)] pi P(1) by (fastforce simp: n_def)
    moreover have "p \<noteq> r \<Longrightarrow> \<exists>q x. n_parent ?m = Some q \<and> ?M q = Some x \<and> p \<in> set (n_children x)"
      using up [OF P(1)] by simp
    ultimately show ?thesis
      using treeD(1,2,4) [OF T P(1)] P(2) i_new [OF P(1)] by (simp add: node_ok_def)
  qed
  moreover have "node_ok ?M r i n"
    using V pi by (auto simp: node_ok_def n_def)
  moreover have "node_ok ?M r j x" if j: "j \<noteq> i" "j \<noteq> p" "M j = Some x" for j x
  proof -
    have "inj_on (\<lambda>c. map_option n_name (?M c)) (set (n_children x))"
      by (rule inj_names [OF treeD(7) [OF T j(3)] subset_refl], rule names) (use i_new [OF j(3)] in blast)
    moreover have "\<forall>c\<in>set (n_children x). \<exists>y. ?M c = Some y \<and> n_parent y = Some j"
      using treeD(6) [OF T j(3)] P(1) N by fastforce
    moreover have "j \<noteq> r \<Longrightarrow> \<exists>q y. n_parent x = Some q \<and> ?M q = Some y \<and> j \<in> set (n_children y)"
      by (rule up [OF j(3)])
    ultimately show ?thesis using treeD(1-4) [OF T j(3)] by (simp add: node_ok_def)
  qed
  moreover have "\<exists>n. ?M r = Some n \<and> n_kind n = Directory \<and> n_parent n = None"
    using T P ir by (auto simp: tree_def)
  ultimately show ?thesis
    unfolding tree_def using ro treeD(8) [OF T] P(1) by (auto split: if_splits)
qed

lemma tree_remove:
  assumes T: "tree M r" and I: "M i = Some n" "i \<noteq> r" "n_children n = []" "n_parent n = Some p"
    and P: "M p = Some m"
  shows "tree (M(p \<mapsto> m\<lparr>n_children := filter (\<lambda>c. c \<noteq> i) (n_children m)\<rparr>, i := None)) r"
proof -
  let ?m = "m\<lparr>n_children := filter (\<lambda>c. c \<noteq> i) (n_children m)\<rparr>"
  let ?M = "M(p \<mapsto> ?m, i := None)"
  have no_child: "n_parent x \<noteq> Some i" if "M j = Some x" for j x
  proof
    assume x: "n_parent x = Some i"
    show False
    proof (cases "j = r")
      case True
      then show False using T that x by (auto simp: tree_def)
    next
      case False
      then show False using treeD(5) [OF T that] x I by auto
    qed
  qed
  have only_p: "j = p" if "M j = Some x" "i \<in> set (n_children x)" for j x
    using treeD(6) [OF T that] I by auto
  have pi: "p \<noteq> i" using no_child [OF I(1)] I(4) by auto
  have names: "c \<noteq> i \<Longrightarrow> map_option n_name (?M c) = map_option n_name (M c)" for c using P by simp
  have ro: "j \<noteq> i \<Longrightarrow> rooted ?M r j" if "rooted M r j" for j
    using that
  proof (induction rule: rooted.induct)
    case (rooted_step j x q)
    then have "q \<noteq> i" using no_child by blast
    moreover have "\<exists>x'. ?M j = Some x' \<and> n_parent x' = Some q"
      using rooted_step P by (cases "j = p") auto
    ultimately show ?case using rooted_step rooted.rooted_step by blast
  qed (rule rooted.rooted_root)
  have "node_ok ?M r j y" if j: "?M j = Some y" for j y
  proof -
    obtain x where x: "M j = Some x" "j \<noteq> i" "n_inode y = n_inode x" "n_kind y = n_kind x"
      "n_name y = n_name x" "n_parent y = n_parent x" "set (n_children y) = set (n_children x) - {i}"
      "distinct (n_children x) \<longrightarrow> distinct (n_children y)" "n_children x = [] \<longrightarrow> n_children y = []"
      using j P only_p by (cases "j = p") (auto split: if_splits, blast+)
    have "inj_on (\<lambda>c. map_option n_name (?M c)) (set (n_children y))"
      by (rule inj_names [OF treeD(7) [OF T x(1)]], use x(7) in blast, rule names) (use x(7) in blast)
    moreover have "\<forall>c\<in>set (n_children y). \<exists>z. ?M c = Some z \<and> n_parent z = Some j"
      using treeD(6) [OF T x(1)] P x(7) by fastforce
    moreover have "\<exists>q z. n_parent y = Some q \<and> ?M q = Some z \<and> j \<in> set (n_children z)" if "j \<noteq> r"
    proof -
      obtain q z where "n_parent x = Some q" "M q = Some z" "j \<in> set (n_children z)"
        using treeD(5) [OF T x(1)] \<open>j \<noteq> r\<close> by blast
      moreover from this have "q \<noteq> i" using no_child [OF x(1)] by auto
      ultimately show ?thesis using x P by (cases "q = p") auto
    qed
    ultimately show ?thesis using treeD(1-4) [OF T x(1)] x by (simp add: node_ok_def)
  qed
  moreover have "rooted ?M r j" if "?M j = Some y" for j y
    using that treeD(8) [OF T] P ro by (auto split: if_splits)
  moreover have "\<exists>n. ?M r = Some n \<and> n_kind n = Directory \<and> n_parent n = None"
    using T P I(2) by (auto simp: tree_def)
  ultimately show ?thesis unfolding tree_def by blast
qed

lemma rooted_no_self: "rooted M r i \<Longrightarrow> i \<noteq> r \<Longrightarrow> M i = Some n \<Longrightarrow> n_parent n \<noteq> Some i"
  by (induction arbitrary: n rule: rooted.induct) auto

lemma tree_move:
  assumes T: "tree M r" and I: "i \<noteq> r" and Q: "M q = Some mq" "n_kind mq = Directory" "\<not> below M i q"
    and V: "valid_name nm" and U: "\<forall>c\<in>set (n_children mq). c \<noteq> i \<longrightarrow> map_option n_name (M c) \<noteq> Some nm"
    and M': "\<And>j. M' j = None \<longleftrightarrow> M j = None"
    and C: "\<And>j x y. M j = Some x \<Longrightarrow> M' j = Some y \<Longrightarrow> n_inode y = n_inode x \<and> n_kind y = n_kind x
        \<and> n_children y = filter (\<lambda>c. c \<noteq> i) (n_children x) @ (if j = q then [i] else [])
        \<and> (if j = i then n_name y = nm \<and> n_parent y = Some q else n_name y = n_name x \<and> n_parent y = n_parent x)"
    and E: "M i \<noteq> None"
  shows "tree M' r"
proof -
  have step: "\<exists>y. M' j = Some y" if "M j = Some x" for j x using that M' [of j] by (cases "M' j") simp_all
  have bk: "\<exists>x. M j = Some x" if "M' j = Some y" for j y using that M' [of j] by (cases "M j") simp_all
  have names: "map_option n_name (M' c) = map_option n_name (M c)" if "c \<noteq> i" for c
  proof (cases "M c")
    case None
    then show ?thesis using M' [of c] by simp
  next
    case (Some x)
    then obtain y where "M' c = Some y" using step by blast
    with C [OF Some this] Some that show ?thesis by simp
  qed
  obtain x_i y_i where xi: "M i = Some x_i" and yi': "M' i = Some y_i" using E step by blast
  then have yi: "M' i = Some y_i" "n_name y_i = nm" "n_parent y_i = Some q" using C [OF xi yi'] by simp_all
  have ro: "rooted M' r j" if "rooted M r j" for j
  proof (rule rooted_move [of M r q i M' y_i])
    show "rooted M r q" "\<not> below M i q" "M' i = Some y_i" "n_parent y_i = Some q" "rooted M r j"
      using treeD(8) [OF T Q(1)] Q(3) yi that by simp_all
  next
    fix j n p assume j: "j \<noteq> i" "M j = Some n" "n_parent n = Some p"
    obtain y where y: "M' j = Some y" using step [OF j(2)] by blast
    with C [OF j(2) y] j show "\<exists>n'. M' j = Some n' \<and> n_parent n' = Some p" by simp
  qed
  have "node_ok M' r j y" if y: "M' j = Some y" for j y
  proof -
    obtain x where x: "M j = Some x" using bk [OF y] by blast
    note c = C [OF x y]
    have kids: "inj_on (\<lambda>c. map_option n_name (M' c)) (set (n_children x) - {i})"
      by (rule inj_names [OF treeD(7) [OF T x]], blast, rule names) blast
    have "inj_on (\<lambda>c. map_option n_name (M' c)) (set (n_children y))"
    proof (cases "j = q")
      case True
      then have "x = mq" using x Q by simp
      then have U': "map_option n_name (M' c) \<noteq> Some nm" if "c \<in> set (n_children x) - {i}" for c
        using U that names [of c] by auto
      have "map_option n_name (M' i) \<notin> (\<lambda>c. map_option n_name (M' c)) ` (set (n_children x) - {i})"
      proof
        assume "map_option n_name (M' i) \<in> (\<lambda>c. map_option n_name (M' c)) ` (set (n_children x) - {i})"
        then obtain c where "c \<in> set (n_children x) - {i}" "map_option n_name (M' c) = map_option n_name (M' i)" by force
        with U' [of c] yi show False by simp
      qed
      then have "inj_on (\<lambda>c. map_option n_name (M' c)) (insert i (set (n_children x) - {i}))"
        using kids unfolding inj_on_insert by simp
      moreover have "set (n_children y) = insert i (set (n_children x) - {i})" using c True by auto
      ultimately show ?thesis by (simp only:)
    next
      case False
      then have "set (n_children y) = set (n_children x) - {i}" using c by auto
      with kids show ?thesis by simp
    qed
    moreover have "\<exists>z. M' k = Some z \<and> n_parent z = Some j" if k: "k \<in> set (n_children y)" for k
    proof (cases "k = i")
      case True
      then have "j = q" using k c by (auto split: if_splits)
      with True yi show ?thesis by simp
    next
      case False
      then have "k \<in> set (n_children x)" using k c by (auto split: if_splits)
      then obtain z where "M k = Some z" "n_parent z = Some j" using treeD(6) [OF T x] by blast
      moreover from this obtain w where "M' k = Some w" using step by blast
      ultimately show ?thesis using C [of k z w] False by simp
    qed
    moreover have "\<exists>p z. n_parent y = Some p \<and> M' p = Some z \<and> j \<in> set (n_children z)" if "j \<noteq> r"
    proof (cases "j = i")
      case True
      obtain z where "M' q = Some z" using step [OF Q(1)] by blast
      with C [OF Q(1) this] True c show ?thesis by auto
    next
      case False
      obtain p z where p: "n_parent x = Some p" "M p = Some z" "j \<in> set (n_children z)"
        using treeD(5) [OF T x \<open>j \<noteq> r\<close>] by blast
      obtain z' where "M' p = Some z'" using step [OF p(2)] by blast
      with C [OF p(2) this] p c False show ?thesis by auto
    qed
    moreover have "distinct (n_children y)" using treeD(2) [OF T x] c by auto
    moreover have "n_kind y = File \<Longrightarrow> n_children y = []" using treeD(3) [OF T x] c Q x by auto
    moreover have "j \<noteq> r \<Longrightarrow> valid_name (n_name y)" using treeD(4) [OF T x] c V by (auto split: if_splits)
    moreover have "n_inode y = j" using treeD(1) [OF T x] c by simp
    ultimately show ?thesis unfolding node_ok_def by blast
  qed
  moreover have "rooted M' r j" if "M' j = Some y" for j y using bk [OF that] treeD(8) [OF T] ro by blast
  moreover have "\<exists>n. M' r = Some n \<and> n_kind n = Directory \<and> n_parent n = None"
  proof -
    obtain n where n: "M r = Some n" "n_kind n = Directory" "n_parent n = None" using tree_root [OF T] .
    obtain y where "M' r = Some y" using step [OF n(1)] by blast
    with C [OF n(1) this] n I show ?thesis by auto
  qed
  ultimately show ?thesis unfolding tree_def by blast
qed

section \<open>Lookup and paths\<close>

lemma node_named_iff: "node_named fs name c \<longleftrightarrow> map_option n_name (nmap fs c) = Some name"
  by (simp add: node_named_def node_nmap split: option.split)

lemma lookup_child_eq:
  "nmap fs d = Some n \<Longrightarrow> lookup_child_by_name fs d name =
     (if n_kind n \<noteq> Directory then None else find (node_named fs name) (n_children n))"
  by (simp add: lookup_child_by_name_def node_Inr [THEN iffD2])

lemma lookup_child_iff:
  assumes "tree (nmap fs) r" "nmap fs d = Some n"
  shows "lookup_child_by_name fs d name = Some c \<longleftrightarrow>
    n_kind n = Directory \<and> c \<in> set (n_children n) \<and> map_option n_name (nmap fs c) = Some name"
proof -
  have "find (node_named fs name) (n_children n) = Some c"
    if c: "c \<in> set (n_children n)" "map_option n_name (nmap fs c) = Some name"
  proof -
    obtain c' where c': "find (node_named fs name) (n_children n) = Some c'"
      using c node_named_iff by (metis find_None_iff not_None_eq)
    then have "c' \<in> set (n_children n)" "map_option n_name (nmap fs c') = Some name"
      using find_Some_in [OF c'] by (simp_all only: node_named_iff)
    then have "c' = c" using c by (intro inj_onD [OF treeD(7) [OF assms]]) (simp_all only:)
    with c' show ?thesis by simp
  qed
  moreover have "c \<in> set (n_children n) \<and> map_option n_name (nmap fs c) = Some name"
    if "find (node_named fs name) (n_children n) = Some c"
    using find_Some_in [OF that] by (simp only: node_named_iff)
  ultimately show ?thesis unfolding lookup_child_eq [OF assms(2)] by (cases "n_kind n") auto
qed

lemma lookup_child_None:
  assumes "nmap fs d = Some n" "n_kind n = Directory"
  shows "lookup_child_by_name fs d name = None \<longleftrightarrow>
    (\<forall>c\<in>set (n_children n). map_option n_name (nmap fs c) \<noteq> Some name)"
proof -
  have "lookup_child_by_name fs d name = find (node_named fs name) (n_children n)"
    using assms(2) by (simp add: lookup_child_eq [OF assms(1)])
  then show ?thesis by (simp only: find_None_iff node_named_iff) blast
qed

lemma tmpfs_invD:
  assumes "tmpfs_inv fs"
  shows "tree (nmap fs) (root fs)" "\<exists>n. nmap fs (root fs) = Some n" "\<exists>n. nmap fs (cwd fs) = Some n"
    "\<And>n. nmap fs (cwd fs) = Some n \<Longrightarrow> n_kind n = Directory"
  using assms by (auto simp: tmpfs_inv_def tree_def)

lemma resolve_parts_exists:
  assumes "tree (nmap fs) r"
  shows "nmap fs cur \<noteq> None \<Longrightarrow> resolve_parts fs cur parts = Inr i \<Longrightarrow> nmap fs i \<noteq> None"
proof (induction parts arbitrary: cur)
  case (Cons part parts)
  obtain n where n: "nmap fs cur = Some n" using Cons.prems by blast
  show ?case
  proof (cases "part = ''.'' \<or> part = ''..''")
    case True
    then obtain cur' where cur': "cur' = cur \<or> cur' = (case n_parent n of Some p \<Rightarrow> p | None \<Rightarrow> cur)"
      "resolve_parts fs cur' parts = Inr i"
      using Cons.prems(2) n by (cases "part = ''.''") (auto simp: node_Inr [THEN iffD2])
    have "nmap fs (case n_parent n of Some p \<Rightarrow> p | None \<Rightarrow> cur) \<noteq> None"
    proof (cases "n_parent n")
      case (Some p)
      then show ?thesis using treeD(5) [OF assms n] tree_root [OF assms] n
        by (cases "cur = r") fastforce+
    qed (simp add: n)
    then have "nmap fs cur' \<noteq> None" using cur'(1) Cons.prems(1) by metis
    then show ?thesis by (rule Cons.IH [OF _ cur'(2)])
  next
    case False
    then obtain c where c: "lookup_child_by_name fs cur part = Some c" "resolve_parts fs c parts = Inr i"
      using Cons.prems by (auto split: option.splits)
    from c(1) have "nmap fs c \<noteq> None" unfolding lookup_child_iff [OF assms n] by auto
    then show ?thesis using Cons.IH c(2) by blast
  qed
qed simp

lemma resolve_exists:
  assumes "tmpfs_inv fs" "resolve fs path = Inr i"
  shows "\<exists>n. nmap fs i = Some n"
proof (cases "path = ''/''")
  case False
  then have "resolve_parts fs (if starts_with path ''/'' then root fs else cwd fs) (path_parts path) = Inr i"
    using assms(2) by (simp add: resolve_def resolve_from_def)
  from resolve_parts_exists [OF tmpfs_invD(1) [OF assms(1)] _ this] tmpfs_invD(2,3) [OF assms(1)]
  show ?thesis by (cases "starts_with path ''/''") auto
qed (use assms(2) tmpfs_invD(2) [OF assms(1)] in \<open>simp add: resolve_def resolve_from_def\<close>)

lemma path_parts_valid: "p \<in> set (path_parts path) \<Longrightarrow> p \<noteq> [] \<and> CHR ''/'' \<notin> set p"
  by (auto simp: path_parts_def dest: split_no_sep)

lemma resolve_parent_and_name_ok:
  assumes "tmpfs_inv fs" "resolve_parent_and_name fs path = Inr (p, name)"
  shows "(\<exists>n. nmap fs p = Some n) \<and> valid_name name"
proof -
  have ne: "path_parts path \<noteq> []" using assms(2) by (auto simp: resolve_parent_and_name_def)
  have name: "name = last (path_parts path) \<and> name \<noteq> ''.'' \<and> name \<noteq> ''..''"
    using assms(2) by (auto simp: resolve_parent_and_name_def Let_def split: if_splits sum.splits)
  have "p = cwd fs \<or> (\<exists>q. resolve fs q = Inr p)"
    using assms(2) by (auto simp: resolve_parent_and_name_def Let_def split: if_splits sum.splits)
  then have "\<exists>n. nmap fs p = Some n" using resolve_exists [OF assms(1)] tmpfs_invD(3) [OF assms(1)] by auto
  moreover have "valid_name name"
    using name path_parts_valid [of "last (path_parts path)" path] ne by (auto simp: valid_name_def)
  ultimately show ?thesis ..
qed

section \<open>Every operation keeps the tree\<close>

lemma insert_node_ok:
  assumes I: "tmpfs_inv fs" and P: "nmap fs p = Some m" "n_kind m = Directory"
    and L: "lookup_child_by_name fs p name = None" and V: "valid_name name"
  shows "\<exists>fs'. insert_node p name k fs = (Inr (next_inode fs), fs') \<and> tmpfs_inv fs'
    \<and> nmap fs' = (nmap fs)(next_inode fs \<mapsto> \<lparr>n_inode = next_inode fs, n_name = name, n_kind = k,
                 n_parent = Some p, n_children = [], n_data = []\<rparr>,
                 p \<mapsto> m\<lparr>n_children := n_children m @ [next_inode fs]\<rparr>)
    \<and> root fs' = root fs \<and> cwd fs' = cwd fs"
proof -
  let ?n = "\<lparr>n_inode = next_inode fs, n_name = name, n_kind = k,
                 n_parent = Some p, n_children = [], n_data = []\<rparr>"
  let ?fs1 = "fs\<lparr>nodes := nodes fs @ [Some ?n]\<rparr>"
  have ne: "p \<noteq> next_inode fs" using P(1) nmap_next by auto
  have "nmap ?fs1 p = Some m" using P ne by (simp add: nmap_push)
  from node_mut_Some [OF this, of "\<lambda>n. n\<lparr>n_children := n_children n @ [next_inode fs]\<rparr>"]
  obtain fs' where fs': "node_mut p (\<lambda>n. n\<lparr>n_children := n_children n @ [next_inode fs]\<rparr>) ?fs1 = (Inr (), fs')"
    "nmap fs' = (nmap fs)(next_inode fs \<mapsto> ?n, p \<mapsto> m\<lparr>n_children := n_children m @ [next_inode fs]\<rparr>)"
    "root fs' = root fs" "cwd fs' = cwd fs" by (auto simp: nmap_push)
  have T: "tree (nmap fs') (root fs)" unfolding fs'(2)
    using L by (intro tree_insert [OF tmpfs_invD(1) [OF I] P nmap_next V]) (simp add: lookup_child_None [OF P])
  have "\<exists>n. nmap fs' (cwd fs) = Some n \<and> n_kind n = Directory"
    using tmpfs_invD(3,4) [OF I] P nmap_next [of fs] by (auto simp: fs'(2))
  with T fs' have "tmpfs_inv fs'" by (simp add: tmpfs_inv_def)
  moreover have "insert_node p name k fs = (Inr (next_inode fs), fs')"
    using P L fs'(1) by (simp add: insert_node_def node_Inr [THEN iffD2] Let_def)
  ultimately show ?thesis using fs' by blast
qed

lemma insert_node_inv:
  assumes I: "tmpfs_inv fs" and P: "nmap fs p = Some m" and V: "valid_name name"
  shows "tmpfs_inv (snd (insert_node p name k fs))"
proof (cases "n_kind m = Directory \<and> lookup_child_by_name fs p name = None")
  case True
  then show ?thesis using insert_node_ok [OF I P _ _ V, of k] by auto
next
  case False
  then show ?thesis using I P by (auto simp: insert_node_def node_Inr [THEN iffD2])
qed

lemma remove_inode_inv:
  assumes I: "tmpfs_inv fs"
  shows "tmpfs_inv (snd (remove_inode i fs))"
proof (cases "\<exists>n. i \<noteq> root fs \<and> nmap fs i = Some n \<and> n_children n = []")
  case True
  then obtain n where n: "i \<noteq> root fs" "nmap fs i = Some n" "n_children n = []" by blast
  obtain p m where p: "n_parent n = Some p" "nmap fs p = Some m"
    using treeD(5) [OF tmpfs_invD(1) [OF I] n(2,1)] by blast
  let ?f = "\<lambda>p. p\<lparr>n_children := filter (\<lambda>c. c \<noteq> i) (n_children p)\<rparr>"
  obtain fs1 where fs1: "node_mut p ?f fs = (Inr (), fs1)" "nmap fs1 = (nmap fs)(p \<mapsto> ?f m)"
    "root fs1 = root fs" "cwd fs1 = cwd fs" using node_mut_Some [OF p(2), of ?f] by auto
  obtain x where "nmap fs1 i = Some x" using fs1 n by (cases "p = i") auto
  then have M: "nmap (fs1\<lparr>nodes := (nodes fs1)[i - 1 := None]\<rparr>) = (nmap fs)(p \<mapsto> ?f m, i := None)"
    using nmap_update fs1 by metis
  have T: "tree ((nmap fs)(p \<mapsto> ?f m, i := None)) (root fs)"
    by (rule tree_remove [OF tmpfs_invD(1) [OF I] n(2,1,3) p])
  have "remove_inode i fs = (Inr (), let fs2 = fs1\<lparr>nodes := (nodes fs1)[i - 1 := None]\<rparr>
          in if cwd fs2 = i then fs2\<lparr>cwd := root fs2\<rparr> else fs2)"
    using n p fs1 by (simp add: remove_inode_def node_Inr [THEN iffD2] Let_def)
  moreover have "\<exists>n. ((nmap fs)(p \<mapsto> ?f m, i := None)) (cwd fs) = Some n \<and> n_kind n = Directory" if "cwd fs \<noteq> i"
    using that tmpfs_invD(3,4) [OF I] p(2) by auto
  moreover obtain x where "((nmap fs)(p \<mapsto> ?f m, i := None)) (root fs) = Some x" "n_kind x = Directory"
    using tree_root [OF T] .
  ultimately show ?thesis
    using T M fs1 by (cases "cwd fs = i") (simp_all add: tmpfs_inv_def Let_def del: fun_upd_apply)
next
  case False
  have "snd (remove_inode i fs) = fs"
  proof (cases "i = root fs \<or> nmap fs i = None")
    case True
    then show ?thesis by (auto simp: remove_inode_def node_nmap)
  next
    case False
    then obtain n where n: "nmap fs i = Some n" "n_children n \<noteq> []" "i \<noteq> root fs"
      using \<open>\<nexists>n. i \<noteq> root fs \<and> nmap fs i = Some n \<and> n_children n = []\<close> by blast
    then have "n_kind n = Directory" using treeD(3) [OF tmpfs_invD(1) [OF I] n(1)] by (cases "n_kind n") auto
    with n show ?thesis by (simp add: remove_inode_def node_Inr [THEN iffD2])
  qed
  with I show ?thesis by simp
qed

lemma node_mut_data_inv:
  assumes "tmpfs_inv fs"
  shows "tmpfs_inv (snd (node_mut i (\<lambda>n. n\<lparr>n_data := f n\<rparr>) fs))"
proof (cases "nmap fs i")
  case None
  then show ?thesis using node_mut_None [OF None, of "\<lambda>n. n\<lparr>n_data := f n\<rparr>"] assms by auto
next
  case (Some n)
  obtain fs' where fs': "node_mut i (\<lambda>n. n\<lparr>n_data := f n\<rparr>) fs = (Inr (), fs')"
    "nmap fs' = (nmap fs)(i \<mapsto> n\<lparr>n_data := f n\<rparr>)" "root fs' = root fs" "cwd fs' = cwd fs"
    using node_mut_Some [OF Some, of "\<lambda>n. n\<lparr>n_data := f n\<rparr>"] by auto
  have "\<exists>x. nmap fs' (cwd fs) = Some x \<and> n_kind x = Directory"
    using tmpfs_invD(3,4) [OF assms] Some fs'(2) by auto
  with tree_data [OF tmpfs_invD(1) [OF assms] Some, of "f n"] fs' show ?thesis by (simp add: tmpfs_inv_def)
qed

lemma below_trans: "below M b c \<Longrightarrow> below M a b \<Longrightarrow> below M a c"
  by (induction rule: below.induct) (auto intro: below.intros)

text \<open>What a rename that passes the code's checks does to the node map.\<close>

definition moved :: "nat \<Rightarrow> nat \<Rightarrow> string \<Rightarrow> (nat \<Rightarrow> Node option) \<Rightarrow> (nat \<Rightarrow> Node option) \<Rightarrow> bool" where
  "moved i q nm M M' \<longleftrightarrow> (\<forall>j. M' j = None \<longleftrightarrow> M j = None) \<and>
     (\<forall>j x y. M j = Some x \<longrightarrow> M' j = Some y \<longrightarrow> n_inode y = n_inode x \<and> n_kind y = n_kind x
        \<and> n_children y = filter (\<lambda>c. c \<noteq> i) (n_children x) @ (if j = q then [i] else [])
        \<and> (if j = i then n_name y = nm \<and> n_parent y = Some q else n_name y = n_name x \<and> n_parent y = n_parent x))"

lemma movedD:
  assumes "moved i q nm M M'"
  shows "M' j = None \<longleftrightarrow> M j = None"
    "M j = Some x \<Longrightarrow> M' j = Some y \<Longrightarrow> n_inode y = n_inode x \<and> n_kind y = n_kind x
        \<and> n_children y = filter (\<lambda>c. c \<noteq> i) (n_children x) @ (if j = q then [i] else [])
        \<and> (if j = i then n_name y = nm \<and> n_parent y = Some q else n_name y = n_name x \<and> n_parent y = n_parent x)"
  using assms unfolding moved_def by blast+

lemma rename_moves:
  assumes I: "tmpfs_inv fs" and F: "resolve fs from = Inr i" "i \<noteq> root fs"
    and D: "resolve_parent_and_name fs dest = Inr (q, nm)" "lookup_child_by_name fs q nm = None"
  shows "\<exists>fs'. rename_path from dest fs = (Inr (), fs') \<and> moved i q nm (nmap fs) (nmap fs')
    \<and> root fs' = root fs \<and> cwd fs' = cwd fs"
proof -
  note T = tmpfs_invD(1) [OF I]
  obtain n where n: "nmap fs i = Some n" using resolve_exists [OF I F(1)] by blast
  obtain p m where p: "n_parent n = Some p" "nmap fs p = Some m" using treeD(5) [OF T n F(2)] by blast
  obtain mq where q: "nmap fs q = Some mq" using resolve_parent_and_name_ok [OF I D(1)] by blast
  have pi: "p \<noteq> i" using rooted_no_self [OF treeD(8) [OF T n] F(2) n] p by auto
  let ?del = "\<lambda>p. p\<lparr>n_children := filter (\<lambda>c. c \<noteq> i) (n_children p)\<rparr>"
  let ?add = "\<lambda>p. p\<lparr>n_children := n_children p @ [i]\<rparr>"
  let ?mv = "\<lambda>m. m\<lparr>n_name := nm, n_parent := Some q\<rparr>"
  obtain fs1 where fs1: "node_mut p ?del fs = (Inr (), fs1)" "nmap fs1 = (nmap fs)(p \<mapsto> ?del m)"
    "root fs1 = root fs" "cwd fs1 = cwd fs" using node_mut_Some [OF p(2), of ?del] by auto
  obtain mq1 where q1: "nmap fs1 q = Some mq1" "mq1 = (if q = p then ?del m else mq)"
    using q p(2) fs1(2) by (cases "q = p") auto
  obtain fs2 where fs2: "node_mut q ?add fs1 = (Inr (), fs2)" "nmap fs2 = (nmap fs1)(q \<mapsto> ?add mq1)"
    "root fs2 = root fs" "cwd fs2 = cwd fs" using node_mut_Some [OF q1(1), of ?add] fs1 by auto
  obtain n2 where n2: "nmap fs2 i = Some n2" "n2 = (if q = i then ?add n else n)"
    using n q1 q fs2(2) fs1(2) pi by (cases "q = i") auto
  obtain fs3 where fs3: "node_mut i ?mv fs2 = (Inr (), fs3)" "nmap fs3 = (nmap fs2)(i \<mapsto> ?mv n2)"
    "root fs3 = root fs" "cwd fs3 = cwd fs" using node_mut_Some [OF n2(1), of ?mv] fs2 by auto
  have no: "filter (\<lambda>c. c \<noteq> i) (n_children x) = n_children x" if x: "nmap fs j = Some x" "j \<noteq> p" for j x
  proof (rule filter_True, rule ballI, rule notI)
    fix c assume c: "c \<in> set (n_children x)" "c = i"
    obtain y where "nmap fs i = Some y" "n_parent y = Some j" using treeD(6) [OF T x(1)] c by blast
    with n p x show False by simp
  qed
  have "moved i q nm (nmap fs) (nmap fs3)"
    unfolding moved_def
  proof (intro conjI allI impI)
    fix j show "nmap fs3 j = None \<longleftrightarrow> nmap fs j = None" using n p q by (simp add: fs3 fs2 fs1)
  next
    fix j x y assume x: "nmap fs j = Some x" and y: "nmap fs3 j = Some y"
    show "n_inode y = n_inode x" "n_kind y = n_kind x"
      "n_children y = filter (\<lambda>c. c \<noteq> i) (n_children x) @ (if j = q then [i] else [])"
      "if j = i then n_name y = nm \<and> n_parent y = Some q else n_name y = n_name x \<and> n_parent y = n_parent x"
      using x y n p q q1(2) n2(2) pi no [OF x] by (auto simp: fs3 fs2 fs1 split: if_splits)
  qed
  moreover have "rename_path from dest fs = (Inr (), fs3)"
    using F D n p fs1 fs2 fs3 by (simp add: rename_path_def node_Inr [THEN iffD2])
  ultimately show ?thesis using fs3 by blast
qed

lemma rename_inv:
  assumes I: "tmpfs_inv fs" and F: "resolve fs from = Inr i" "i \<noteq> root fs"
    and D: "resolve_parent_and_name fs dest = Inr (q, nm)" "lookup_child_by_name fs q nm = None"
    and Q: "nmap fs q = Some mq" "n_kind mq = Directory" "\<not> below (nmap fs) i q"
  shows "tmpfs_inv (snd (rename_path from dest fs))"
proof -
  obtain fs' where fs': "rename_path from dest fs = (Inr (), fs')" "moved i q nm (nmap fs) (nmap fs')"
    "root fs' = root fs" "cwd fs' = cwd fs" using rename_moves [OF I F D] by blast
  note T = tmpfs_invD(1) [OF I]
  have "tree (nmap fs') (root fs)"
  proof (rule tree_move [OF T F(2) Q])
    show "valid_name nm" using resolve_parent_and_name_ok [OF I D(1)] by blast
    show "\<forall>c\<in>set (n_children mq). c \<noteq> i \<longrightarrow> map_option n_name (nmap fs c) \<noteq> Some nm"
      using D(2) unfolding lookup_child_None [OF Q(1,2)] by blast
    show "nmap fs i \<noteq> None" using resolve_exists [OF I F(1)] by blast
  qed (rule movedD [OF fs'(2)], rule movedD [OF fs'(2)])
  moreover obtain n where n: "nmap fs (cwd fs) = Some n" "n_kind n = Directory" using tmpfs_invD(3,4) [OF I] by blast
  moreover obtain y where y: "nmap fs' (cwd fs) = Some y"
    using movedD(1) [OF fs'(2), of "cwd fs"] n(1) by (cases "nmap fs' (cwd fs)") simp_all
  moreover have "n_kind y = n_kind n" using movedD(2) [OF fs'(2) n(1) y] by blast
  ultimately show ?thesis using fs' by (simp add: tmpfs_inv_def)
qed

text \<open>The condition under which a rename is safe: the destination's parent is a directory outside the subtree
  that is moved.\<close>

definition safe_rename :: "TmpFs \<Rightarrow> string \<Rightarrow> string \<Rightarrow> bool" where
  "safe_rename fs from to \<longleftrightarrow> (\<forall>i q nm. resolve fs from = Inr i \<longrightarrow> resolve_parent_and_name fs to = Inr (q, nm) \<longrightarrow>
     (\<exists>n. node fs q = Inr n \<and> n_kind n = Directory) \<and> \<not> below (nmap fs) i q)"

text \<open>A rename that is refused by one of the checks at its start changes nothing; in a tree nothing else fails.\<close>

lemma rename_cases:
  assumes "tmpfs_inv fs"
  obtains (refused) e where "rename_path from dest fs = (Inl e, fs)"
  | (moves) i q nm where "resolve fs from = Inr i" "i \<noteq> root fs" "resolve_parent_and_name fs dest = Inr (q, nm)"
      "lookup_child_by_name fs q nm = None"
proof (cases "\<exists>i q nm. resolve fs from = Inr i \<and> i \<noteq> root fs \<and> resolve_parent_and_name fs dest = Inr (q, nm)
    \<and> lookup_child_by_name fs q nm = None")
  case False
  then have "\<exists>e. rename_path from dest fs = (Inl e, fs)" unfolding rename_path_def by (auto split: sum.splits)
  then show ?thesis using refused by blast
qed (use moves in blast)

lemma safe_rename_inv:
  assumes "tmpfs_inv fs" "safe_rename fs from dest"
  shows "tmpfs_inv (snd (rename_path from dest fs))"
proof (cases rule: rename_cases [OF assms(1), of "from" dest, case_names refused moves])
  case (moves i q nm)
  obtain m where "nmap fs q = Some m" "n_kind m = Directory" "\<not> below (nmap fs) i q"
    using assms(2) moves unfolding safe_rename_def node_Inr by blast
  then show ?thesis by (rule rename_inv [OF assms(1) moves])
qed (use assms in simp)

lemma cwd_inv: "tmpfs_inv fs \<Longrightarrow> node fs i = Inr n \<Longrightarrow> n_kind n = Directory \<Longrightarrow> tmpfs_inv (fs\<lparr>cwd := i\<rparr>)"
  by (simp add: tmpfs_inv_def node_Inr)

section \<open>The path of a node\<close>

lemma resolve_parts_append:
  "resolve_parts fs cur (ps @ qs) =
     (case resolve_parts fs cur ps of Inl e \<Rightarrow> Inl e | Inr c \<Rightarrow> resolve_parts fs c qs)"
  by (induction fs cur ps rule: resolve_parts.induct) (simp_all split: sum.split option.split)

lemma path_parts_join:
  assumes "\<forall>p\<in>set ps. p \<noteq> [] \<and> CHR ''/'' \<notin> set p"
  shows "path_parts (join_char (CHR ''/'') ps) = ps" "path_parts (CHR ''/'' # join_char (CHR ''/'') ps) = ps"
proof -
  have "filter (\<lambda>p. p \<noteq> []) (split_char (CHR ''/'') (join_char (CHR ''/'') ps)) = ps"
  proof (cases "ps = []")
    case False
    then have "split_char (CHR ''/'') (join_char (CHR ''/'') ps) = ps" using assms by (intro split_join) blast+
    then show ?thesis using assms by simp
  qed simp
  then show "path_parts (join_char (CHR ''/'') ps) = ps" "path_parts (CHR ''/'' # join_char (CHR ''/'') ps) = ps"
    by (simp_all add: path_parts_def)
qed

lemma climb_rooted:
  assumes T: "tree (nmap fs) (root fs)"
  shows "rooted (nmap fs) (root fs) i \<Longrightarrow> nmap fs i \<noteq> None \<Longrightarrow> \<exists>ps. climb fs i acc = Some (acc @ ps)
    \<and> (\<forall>p\<in>set ps. valid_name p) \<and> resolve_parts fs (root fs) (rev ps) = Inr i \<and> (i \<noteq> root fs \<longrightarrow> ps \<noteq> [])"
proof (induction i arbitrary: acc rule: rooted.induct)
  case rooted_root
  then have "climb fs (root fs) acc = Some acc"
    by (subst climb.simps) (auto simp: node_Inr [THEN iffD2])
  then show ?case by (intro exI [of _ "[]"]) simp
next
  case (rooted_step i n p)
  show ?case
  proof (cases "i = root fs")
    case True
    then have "climb fs i acc = Some acc" using rooted_step.hyps
      by (subst climb.simps) (auto simp: node_Inr [THEN iffD2])
    then show ?thesis using True by (intro exI [of _ "[]"]) simp
  next
    case False
    have V: "valid_name (n_name n)" by (rule treeD(4) [OF T rooted_step.hyps(1) False])
    obtain m where m: "nmap fs p = Some m" "i \<in> set (n_children m)"
      using treeD(5) [OF T rooted_step.hyps(1) False] rooted_step.hyps(2) by auto
    have "n_kind m = Directory" using treeD(3) [OF T m(1)] m(2) by (cases "n_kind m") auto
    then have look: "lookup_child_by_name fs p (n_name n) = Some i"
      using m(2) rooted_step.hyps(1) by (simp add: lookup_child_iff [OF T m(1)])
    obtain ps where ps: "climb fs p (acc @ [n_name n]) = Some (acc @ n_name n # ps)" "\<forall>p\<in>set ps. valid_name p"
      "resolve_parts fs (root fs) (rev ps) = Inr p"
      using rooted_step.IH [of "acc @ [n_name n]"] m by auto
    have "climb fs (root fs) q = Some q" for q
      using tree_root [OF T] by (subst climb.simps) (auto simp: node_nmap split: option.splits)
    with ps(1) have "climb fs i acc = Some (acc @ n_name n # ps)"
      using rooted_step.hyps False by (subst climb.simps) (auto simp: node_Inr [THEN iffD2] Let_def)
    moreover have "resolve_parts fs (root fs) (rev (n_name n # ps)) = Inr i"
      using ps(3) look V by (simp add: resolve_parts_append valid_name_def)
    ultimately show ?thesis using ps(2) V by (intro exI [of _ "n_name n # ps"]) simp
  qed
qed

lemma path_for_inode_resolves:
  assumes I: "tmpfs_inv fs" and N: "nmap fs i = Some n"
  shows "\<exists>path. path_for_inode fs i = Some path \<and> resolve fs path = Inr i \<and> starts_with path ''/''"
proof (cases "i = root fs")
  case True
  then show ?thesis by (simp add: path_for_inode_def resolve_def resolve_from_def starts_with_def)
next
  case False
  note T = tmpfs_invD(1) [OF I]
  obtain ps where ps: "climb fs i [] = Some ps" "\<forall>p\<in>set ps. valid_name p"
    "resolve_parts fs (root fs) (rev ps) = Inr i" "ps \<noteq> []"
    using climb_rooted [OF T treeD(8) [OF T N], of "[]"] N False by auto
  have "path_parts (CHR ''/'' # join_char (CHR ''/'') (rev ps)) = rev ps"
    using ps(2) by (intro path_parts_join(2)) (simp add: valid_name_def)
  moreover have "join_char (CHR ''/'') (rev ps) \<noteq> []"
  proof
    assume "join_char (CHR ''/'') (rev ps) = []"
    with calculation have "rev ps = []" by (simp add: path_parts_def)
    with ps(4) show False by simp
  qed
  ultimately have "resolve fs (CHR ''/'' # join_char (CHR ''/'') (rev ps)) = Inr i"
    using ps(3) by (simp add: resolve_def resolve_from_def starts_with_iff)
  then show ?thesis using ps(1) False by (simp add: path_for_inode_def starts_with_iff)
qed

text \<open>A set of nodes closed under parents that does not contain the root: climbing from it never ends.\<close>

definition parent_cycle :: "TmpFs \<Rightarrow> nat set \<Rightarrow> bool" where
  "parent_cycle fs S \<longleftrightarrow> root fs \<notin> S \<and>
     (\<forall>j\<in>S. \<exists>n p. nmap fs j = Some n \<and> n_parent n = Some p \<and> p \<in> S)"

lemma climb_returns: "climb fs cur acc = Some ps \<Longrightarrow> parent_cycle fs S \<longrightarrow> cur \<notin> S"
proof (rule climb.raw_induct [where P = "\<lambda>fs cur acc ps. parent_cycle fs S \<longrightarrow> cur \<notin> S"], intro impI notI)
  fix climb :: "TmpFs \<Rightarrow> nat \<Rightarrow> string list \<Rightarrow> string list option" and fs cur acc ps
  assume IH: "\<And>fs cur acc ps. climb fs cur acc = Some ps \<Longrightarrow> parent_cycle fs S \<longrightarrow> cur \<notin> S"
    and body: "(case node fs cur of Inl _ \<Rightarrow> Some acc | Inr n \<Rightarrow>
      if cur = root fs then Some acc
      else let parts' = acc @ [n_name n]; cur' = (case n_parent n of Some p \<Rightarrow> p | None \<Rightarrow> root fs)
           in if cur' = root fs then Some parts' else climb fs cur' parts') = Some ps"
    and C: "parent_cycle fs S" and S: "cur \<in> S"
  then obtain n p where n: "nmap fs cur = Some n" "n_parent n = Some p" "p \<in> S" "cur \<noteq> root fs" "p \<noteq> root fs"
    unfolding parent_cycle_def by metis
  then have "climb fs p (acc @ [n_name n]) = Some ps"
    using body by (simp add: node_Inr [THEN iffD2] Let_def)
  from IH [OF this] C n show False by blast
qed

lemma parent_cycle_hangs: "parent_cycle fs S \<Longrightarrow> i \<in> S \<Longrightarrow> path_for_inode fs i = None"
  using climb_returns [of fs i "[]" _ S] by (cases "climb fs i []") (auto simp: path_for_inode_def parent_cycle_def)

lemma rename_into_subtree:
  assumes I: "tmpfs_inv fs" and F: "i \<noteq> root fs" and N: "nmap fs i = Some n"
    and Q: "nmap fs q = Some mq" "below (nmap fs) i q"
    and M: "moved i q nm (nmap fs) (nmap fs')" "root fs' = root fs"
  shows "parent_cycle fs' {j. below (nmap fs) i j \<and> below (nmap fs) j q}" (is "parent_cycle fs' ?S")
  unfolding parent_cycle_def
proof (intro conjI ballI)
  note T = tmpfs_invD(1) [OF I]
  have "\<not> below (nmap fs) i (root fs)"
    using tree_root [OF T] F by (metis below.cases option.distinct(1) option.inject)
  then show "root fs' \<notin> ?S" using M(2) by simp
  fix j assume "j \<in> ?S"
  then have j: "below (nmap fs) i j" "below (nmap fs) j q" by auto
  show "\<exists>n p. nmap fs' j = Some n \<and> n_parent n = Some p \<and> p \<in> ?S"
  proof (cases "j = i")
    case True
    obtain y where y: "nmap fs' i = Some y" using movedD(1) [OF M(1), of i] N by (cases "nmap fs' i") simp_all
    have "n_parent y = Some q" using movedD(2) [OF M(1) N y] by simp
    with y True Q(2) show ?thesis by (auto intro: below.below_refl)
  next
    case False
    then obtain x p where x: "nmap fs j = Some x" "n_parent x = Some p" "below (nmap fs) i p"
      using j(1) below.cases [of "nmap fs" i j] by metis
    obtain y where y: "nmap fs' j = Some y" using movedD(1) [OF M(1), of j] x(1) by (cases "nmap fs' j") simp_all
    have "n_parent y = Some p" using movedD(2) [OF M(1) x(1) y] False x by simp
    moreover have "below (nmap fs) p q"
    proof (rule below_trans [OF j(2)])
      show "below (nmap fs) p j" using x(1,2) below.below_refl by (rule below.below_step)
    qed
    ultimately show ?thesis using y x(3) by auto
  qed
qed

section \<open>Reading back what was stored\<close>

lemma resolve_parts_mono:
  assumes "\<And>d nm c. lookup_child_by_name fs d nm = Some c \<Longrightarrow> lookup_child_by_name fs' d nm = Some c"
    "\<And>c n. nmap fs c = Some n \<Longrightarrow> \<exists>n'. nmap fs' c = Some n' \<and> n_parent n' = n_parent n"
  shows "resolve_parts fs cur ps = Inr i \<Longrightarrow> resolve_parts fs' cur ps = Inr i"
proof (induction ps arbitrary: cur)
  case (Cons part ps)
  consider "part = ''.''" | "part = ''..''" | "part \<noteq> ''.''" "part \<noteq> ''..''" by blast
  then show ?case
  proof cases
    case 2
    with Cons.prems obtain n where n: "nmap fs cur = Some n" by (auto simp: node_nmap split: option.splits if_splits)
    with assms(2) obtain n' where "nmap fs' cur = Some n'" "n_parent n' = n_parent n" by blast
    with n 2 Cons show ?thesis by (simp add: node_Inr [THEN iffD2])
  next
    case 3
    with Cons.prems obtain c where "lookup_child_by_name fs cur part = Some c" "resolve_parts fs c ps = Inr i"
      by (auto split: option.splits)
    with 3 Cons.IH assms(1) show ?thesis by simp
  qed (use Cons in simp)
qed simp

lemma resolve_mono:
  assumes "\<And>d nm c. lookup_child_by_name fs d nm = Some c \<Longrightarrow> lookup_child_by_name fs' d nm = Some c"
    "\<And>c n. nmap fs c = Some n \<Longrightarrow> \<exists>n'. nmap fs' c = Some n' \<and> n_parent n' = n_parent n"
    "root fs' = root fs" "cwd fs' = cwd fs"
  shows "resolve fs path = Inr i \<Longrightarrow> resolve fs' path = Inr i"
  using resolve_parts_mono [OF assms(1,2)] assms(3,4) by (auto simp: resolve_def resolve_from_def split: if_splits)

lemma join_char_hd:
  assumes "ps \<noteq> []" "\<forall>p\<in>set ps. p \<noteq> [] \<and> CHR ''/'' \<notin> set p"
  shows "\<exists>x xs. join_char (CHR ''/'') ps = x # xs \<and> x \<noteq> CHR ''/''"
  using assms by (cases ps; cases "hd ps"; cases "tl ps") auto

lemma resolve_via_parent:
  assumes "resolve_parent_and_name fs path = Inr (p, name)"
  shows "resolve fs path = (case lookup_child_by_name fs p name of None \<Rightarrow> Inl ''path not found'' | Some c \<Rightarrow> Inr c)"
proof -
  have ne: "path_parts path \<noteq> []" using assms by (auto simp: resolve_parent_and_name_def)
  let ?init = "butlast (path_parts path)"
  have name: "name = last (path_parts path)" "name \<noteq> ''.''" "name \<noteq> ''..''"
    using assms by (auto simp: resolve_parent_and_name_def Let_def split: if_splits sum.splits)
  have parts: "path_parts path = ?init @ [name]" using ne name(1) by simp
  have "\<forall>q\<in>set ?init. q \<noteq> [] \<and> CHR ''/'' \<notin> set q" using path_parts_valid in_set_butlastD by metis
  note valid = path_parts_join [OF this] join_char_hd [OF _ this]
  let ?start = "if starts_with path ''/'' then root fs else cwd fs"
  have "resolve_parts fs ?start ?init = Inr p"
  proof (cases "?init = []")
    case True
    then show ?thesis using assms ne
      by (auto simp: resolve_parent_and_name_def Let_def resolve_def resolve_from_def split: if_splits)
  next
    case False
    obtain x xs where x: "join_char (CHR ''/'') ?init = x # xs" "x \<noteq> CHR ''/''" using valid(3) [OF False] by blast
    let ?pp = "if starts_with path ''/'' then CHR ''/'' # join_char (CHR ''/'') ?init else join_char (CHR ''/'') ?init"
    have "resolve fs ?pp = Inr p"
      using assms ne False x(1) by (auto simp: resolve_parent_and_name_def Let_def split: if_splits sum.splits)
    moreover have "path_parts ?pp = ?init" using valid(1,2) by simp
    ultimately show ?thesis using x
      by (cases "starts_with path ''/''") (auto simp: resolve_def resolve_from_def starts_with_def)
  qed
  moreover have "path \<noteq> ''/''" using ne by (auto simp: path_parts_def)
  ultimately have "resolve fs path = resolve_parts fs p [name]"
    using parts by (metis (no_types, lifting) resolve_def resolve_from_def resolve_parts_append sum.case(2))
  then show ?thesis using name by (simp split: option.split)
qed

lemma resolve_parent_mono:
  assumes "\<And>path i. resolve fs path = Inr i \<Longrightarrow> resolve fs' path = Inr i" "cwd fs' = cwd fs"
    "resolve_parent_and_name fs path = Inr (p, name)"
  shows "resolve_parent_and_name fs' path = Inr (p, name)"
  using assms by (auto simp: resolve_parent_and_name_def Let_def split: if_splits sum.splits)

lemma insert_at_ok:
  assumes I: "tmpfs_inv fs" and R: "insert_at k path fs = (Inr (), fs')"
  shows "tmpfs_inv fs' \<and> resolve fs' path = Inr (next_inode fs)
    \<and> (\<exists>n. nmap fs' (next_inode fs) = Some n \<and> n_kind n = k \<and> n_data n = [] \<and> n_children n = [])
    \<and> (\<forall>q j. resolve fs q = Inr j \<longrightarrow> resolve fs' q = Inr j)
    \<and> (\<forall>j n. nmap fs j = Some n \<longrightarrow> (\<exists>n'. nmap fs' j = Some n' \<and> n_kind n' = n_kind n \<and> n_data n' = n_data n
          \<and> n_name n' = n_name n \<and> n_parent n' = n_parent n))
    \<and> root fs' = root fs \<and> cwd fs' = cwd fs"
proof -
  obtain p name where pn: "resolve_parent_and_name fs path = Inr (p, name)"
    using R by (auto simp: insert_at_def split: sum.splits)
  obtain m where m: "nmap fs p = Some m" and V: "valid_name name" using resolve_parent_and_name_ok [OF I pn] by blast
  obtain i fs1 where ins: "insert_node p name k fs = (Inr i, fs1)" "fs1 = fs'"
    using R pn by (auto simp: insert_at_def split: prod.splits sum.splits)
  then have ok: "n_kind m = Directory" "lookup_child_by_name fs p name = None"
    using m by (auto simp: insert_node_def node_Inr [THEN iffD2] split: if_splits)
  let ?n = "\<lparr>n_inode = next_inode fs, n_name = name, n_kind = k, n_parent = Some p, n_children = [], n_data = []\<rparr>"
  have I': "tmpfs_inv fs'" and M: "nmap fs' = (nmap fs)(next_inode fs \<mapsto> ?n, p \<mapsto> m\<lparr>n_children := n_children m @ [next_inode fs]\<rparr>)"
    and rc: "root fs' = root fs" "cwd fs' = cwd fs"
    using insert_node_ok [OF I m ok V, of k] ins by auto
  note T = tmpfs_invD(1) [OF I] and T' = tmpfs_invD(1) [OF I']
  have new: "nmap fs (next_inode fs) = None" by (rule nmap_next)
  have up: "\<exists>n'. nmap fs' c = Some n' \<and> n_name n' = n_name n \<and> n_parent n' = n_parent n \<and> n_kind n' = n_kind n
      \<and> n_data n' = n_data n \<and> set (n_children n) \<subseteq> set (n_children n')" if "nmap fs c = Some n" for c n
    using that m new by (auto simp: M)
  have lk: "lookup_child_by_name fs' d nm = Some c" if L: "lookup_child_by_name fs d nm = Some c" for d nm c
  proof -
    obtain dn where dn: "nmap fs d = Some dn"
      using L by (auto simp: lookup_child_by_name_def node_nmap split: option.splits if_splits)
    obtain dn' where dn': "nmap fs' d = Some dn'" "n_kind dn' = n_kind dn" "set (n_children dn) \<subseteq> set (n_children dn')"
      using up [OF dn] by blast
    from L have "n_kind dn = Directory" "c \<in> set (n_children dn)" "map_option n_name (nmap fs c) = Some nm"
      unfolding lookup_child_iff [OF T dn] by blast+
    moreover from this(3) obtain cn where "nmap fs c = Some cn" "n_name cn = nm" by auto
    moreover from this obtain cn' where "nmap fs' c = Some cn'" "n_name cn' = nm" using up by metis
    ultimately show ?thesis unfolding lookup_child_iff [OF T' dn'(1)] using dn' by auto
  qed
  have res: "resolve fs' q = Inr j" if "resolve fs q = Inr j" for q j
    by (rule resolve_mono [OF lk _ rc that]) (assumption, drule up, blast)
  have new': "nmap fs' (next_inode fs) = Some ?n" using m new by (auto simp: M)
  have p': "nmap fs' p = Some (m\<lparr>n_children := n_children m @ [next_inode fs]\<rparr>)" by (simp add: M)
  have "lookup_child_by_name fs' p name = Some (next_inode fs)"
    unfolding lookup_child_iff [OF T' p'] using ok new' by simp
  then have "resolve fs' path = Inr (next_inode fs)"
    using resolve_via_parent [OF resolve_parent_mono [OF res rc(2) pn]] by simp
  with I' new' res rc show ?thesis using up by fastforce
qed

lemma data_update_keeps:
  assumes I: "tmpfs_inv fs" and N: "nmap fs i = Some n"
    and W: "node_mut i (\<lambda>n. n\<lparr>n_data := f n\<rparr>) fs = (r, fs')"
  shows "tmpfs_inv fs'" "nmap fs' = (nmap fs)(i \<mapsto> n\<lparr>n_data := f n\<rparr>)" "resolve fs' q = resolve fs q"
    "root fs' = root fs" "cwd fs' = cwd fs"
proof -
  have "snd (node_mut i (\<lambda>n. n\<lparr>n_data := f n\<rparr>) fs) = fs'" using W by simp
  then show I': "tmpfs_inv fs'" using node_mut_data_inv [OF I, of i f] by simp
  obtain M: "nmap fs' = (nmap fs)(i \<mapsto> n\<lparr>n_data := f n\<rparr>)" and rc: "root fs' = root fs" "cwd fs' = cwd fs"
    using node_mut_Some [OF N, of "\<lambda>n. n\<lparr>n_data := f n\<rparr>"] W by auto
  then show "nmap fs' = (nmap fs)(i \<mapsto> n\<lparr>n_data := f n\<rparr>)" "root fs' = root fs" "cwd fs' = cwd fs" by simp_all
  have nd: "node_named fs' nm = node_named fs nm" for nm
    using N by (auto simp: fun_eq_iff node_named_iff M)
  have lk: "lookup_child_by_name fs' d nm = lookup_child_by_name fs d nm" for d nm
    using N by (auto simp: lookup_child_by_name_def node_nmap M nd split: option.splits)
  have "resolve_parts fs' cur ps = resolve_parts fs cur ps" for cur ps
  proof (induction ps arbitrary: cur)
    case (Cons part ps)
    have "map_sum id n_parent (node fs' cur) = map_sum id n_parent (node fs cur)"
      using N by (simp add: node_nmap M)
    then have "(case node fs' cur of Inl e \<Rightarrow> Inl e | Inr n \<Rightarrow> Inr (n_parent n)) =
      (case node fs cur of Inl e \<Rightarrow> Inl e | Inr n \<Rightarrow> Inr (n_parent n))"
      by (cases "node fs' cur"; cases "node fs cur") simp_all
    with Cons show ?case by (simp add: lk split: sum.splits option.split)
  qed simp
  then show "resolve fs' q = resolve fs q" using rc by (simp add: resolve_def resolve_from_def)
qed

lemma insert_at_inv:
  assumes "tmpfs_inv fs"
  shows "tmpfs_inv (snd (insert_at k path fs))"
proof (cases "resolve_parent_and_name fs path")
  case (Inr pn)
  obtain p name where pn: "pn = (p, name)" by (cases pn)
  obtain m where "nmap fs p = Some m" "valid_name name"
    using resolve_parent_and_name_ok [OF assms] Inr pn by blast
  from insert_node_inv [OF assms this, of k] show ?thesis
    by (auto simp: insert_at_def Inr pn split: prod.split sum.split)
qed (simp add: insert_at_def assms)

lemma tmpfs_new_inv: "tmpfs_inv tmpfs_new"
proof -
  let ?n = "\<lparr>n_inode = 1, n_name = ''/'', n_kind = Directory, n_parent = None, n_children = [], n_data = []\<rparr> :: Node"
  have M: "nmap tmpfs_new = [1 \<mapsto> ?n]" by (auto simp: nmap_def tmpfs_new_def fun_eq_iff)
  have "tree [1 \<mapsto> ?n] 1" by (auto simp: tree_def node_ok_def rooted.rooted_root)
  then show ?thesis using M by (simp add: tmpfs_inv_def tmpfs_new_def)
qed

lemma data_ops_inv:
  assumes "tmpfs_inv fs"
  shows "tmpfs_inv (snd (write_inode_at i offset new fs))" "tmpfs_inv (snd (truncate_inode i fs))"
    "tmpfs_inv (snd (fs_write path new fs))"
  using node_mut_data_inv [OF assms, of _ "\<lambda>n. overwrite offset new (n_data n)"]
    node_mut_data_inv [OF assms, of _ "\<lambda>_. []"] node_mut_data_inv [OF assms, of _ "\<lambda>_. new"] assms
  by (simp_all add: write_inode_at_def truncate_inode_def fs_write_def split: sum.split)

lemma overwrite_nth:
  "length (overwrite offset new old) = max (length old) (offset + length new)"
  "p < length (overwrite offset new old) \<Longrightarrow> overwrite offset new old ! p =
     (if offset \<le> p \<and> p < offset + length new then new ! (p - offset)
      else if p < length old then old ! p else 0)"
  by (auto simp: overwrite_def Let_def nth_append max_def min_def)

text \<open>Paths do not depend on what is added below or written into existing nodes.\<close>

lemma climb_mono:
  assumes "\<And>c n. nmap fs c = Some n \<Longrightarrow> \<exists>n'. nmap fs' c = Some n' \<and> n_name n' = n_name n \<and> n_parent n' = n_parent n"
    "root fs' = root fs" "\<exists>n. nmap fs (root fs) = Some n"
  shows "rooted (nmap fs) (root fs) i \<Longrightarrow> climb fs' i acc = climb fs i acc"
proof (induction i arbitrary: acc rule: rooted.induct)
  case rooted_root
  obtain n n' where "nmap fs (root fs) = Some n" "nmap fs' (root fs) = Some n'" using assms(1,3) by blast
  then show ?case using assms(2) by (simp add: climb.simps node_Inr [THEN iffD2])
next
  case (rooted_step i n p)
  obtain n' where "nmap fs' i = Some n'" "n_name n' = n_name n" "n_parent n' = n_parent n"
    using assms(1) [OF rooted_step.hyps(1)] by blast
  then show ?case
    using rooted_step assms(2) climb.simps [of fs' i acc] climb.simps [of fs i acc]
    by (simp add: node_Inr [THEN iffD2] Let_def)
qed

lemma normalized_path_mono:
  assumes "tmpfs_inv fs" "root fs' = root fs" "cwd fs' = cwd fs"
    "\<And>c n. nmap fs c = Some n \<Longrightarrow> \<exists>n'. nmap fs' c = Some n' \<and> n_name n' = n_name n \<and> n_parent n' = n_parent n"
  shows "normalized_path fs' path = normalized_path fs path"
proof -
  obtain n where n: "nmap fs (cwd fs) = Some n" using tmpfs_invD(3) [OF assms(1)] by blast
  have "climb fs' (cwd fs) [] = climb fs (cwd fs) []"
    by (rule climb_mono [OF assms(4,2) tmpfs_invD(2) [OF assms(1)] treeD(8) [OF tmpfs_invD(1) [OF assms(1)] n]]) assumption
  then show ?thesis using assms(2,3) by (simp add: normalized_path_def cwd_path_def path_for_inode_def)
qed

lemma normalized_path_returns: "tmpfs_inv fs \<Longrightarrow> \<exists>abs'. normalized_path fs path = Some abs'"
  using path_for_inode_resolves [of fs "cwd fs"] tmpfs_invD(3) [of fs]
  by (auto simp: normalized_path_def cwd_path_def Let_def)

section \<open>Properties\<close>

text \<open>C7: the file system stays a tree.  From any state in which the nodes form a tree below the root (unique
  inode numbers and names, parent and child links that agree, every node reachable, the working directory
  an existing directory), creating, making a directory, writing, removing, writing at an offset,
  truncating and changing to an existing directory leave such a state, whatever the arguments and also when they
  fail, and so does a rename whose destination lies in a directory outside the subtree of the moved node, which the code
  does not check; the empty file system is such a state.\<close>

theorem tmpfs_stays_tree:
  "tmpfs_inv tmpfs_new \<and>
   (tmpfs_inv fs \<longrightarrow>
     tmpfs_inv (snd (fs_create path fs)) \<and> tmpfs_inv (snd (fs_mkdir path fs)) \<and>
     tmpfs_inv (snd (fs_write path new fs)) \<and> tmpfs_inv (snd (fs_remove path fs)) \<and>
     tmpfs_inv (snd (write_inode_at i offset new fs)) \<and> tmpfs_inv (snd (truncate_inode i fs)) \<and>
     (\<forall>n. node fs i = Inr n \<and> n_kind n = Directory \<longrightarrow> tmpfs_inv (fs\<lparr>cwd := i\<rparr>)) \<and>
     (safe_rename fs path dest \<longrightarrow> tmpfs_inv (snd (rename_path path dest fs))))"
  using tmpfs_new_inv insert_at_inv [of fs] data_ops_inv [of fs] remove_inode_inv [of fs] safe_rename_inv [of fs path dest]
    cwd_inv [of fs]
  by (simp add: fs_create_def fs_mkdir_def fs_remove_def split: sum.split)

theorem tmpfs_stays_tree_witness:
  "tmpfs_inv (snd (fs_remove ''/a'' (snd (fs_mkdir ''/a'' tmpfs_new))))"
  using tmpfs_stays_tree [of tmpfs_new "''/a''" "[]" 0 0 "''/b''"]
    tmpfs_stays_tree [of "snd (fs_mkdir ''/a'' tmpfs_new)" "''/a''" "[]" 0 0 "''/b''"]
  by blast

text \<open>A file that is created and then written reads back what was written, the write succeeds, and no
  other file changes: every path that could be read before reads the same bytes afterwards.\<close>

lemma tmpfs_create_write_read:
  assumes "tmpfs_inv fs" and "fs_create path fs = (Inr (), fs1)" and "fs_write path bytes fs1 = (r, fs2)"
  shows "r = Inr () \<and> tmpfs_inv fs2 \<and> fs_read fs path \<noteq> Inr d \<and> fs_read fs2 path = Inr bytes
    \<and> (fs_read fs q = Inr d \<longrightarrow> fs_read fs2 q = Inr d)"
proof -
  let ?i = "next_inode fs"
  note ok = insert_at_ok [OF assms(1), of File path fs1]
  obtain n where I1: "tmpfs_inv fs1" and R: "resolve fs1 path = Inr ?i" and n: "nmap fs1 ?i = Some n" "n_kind n = File"
    and M: "\<And>q j. resolve fs q = Inr j \<Longrightarrow> resolve fs1 q = Inr j"
      "\<And>j n. nmap fs j = Some n \<Longrightarrow> \<exists>n'. nmap fs1 j = Some n' \<and> n_kind n' = n_kind n \<and> n_data n' = n_data n"
    using ok assms(2) unfolding fs_create_def by blast
  have W: "node_mut ?i (\<lambda>n. n\<lparr>n_data := bytes\<rparr>) fs1 = (r, fs2)"
    using assms(3) R n by (simp add: fs_write_def node_Inr [THEN iffD2])
  note keep = data_update_keeps [OF I1 n(1) W]
  have "r = Inr ()" using node_mut_Some [OF n(1), of "\<lambda>n. n\<lparr>n_data := bytes\<rparr>"] W by auto
  moreover have "fs_read fs2 path = Inr bytes"
    using keep R n by (simp add: fs_read_def node_Inr [THEN iffD2])
  moreover have "fs_read fs2 q = Inr d \<and> resolve fs q \<noteq> Inr ?i" if D: "fs_read fs q = Inr d" for q
  proof -
    obtain j x where j: "resolve fs q = Inr j" "nmap fs j = Some x" "n_kind x = File" "n_data x = d"
      using D by (auto simp: fs_read_def node_Inr split: sum.splits if_splits)
    obtain x' where "nmap fs1 j = Some x'" "n_kind x' = File" "n_data x' = d" using M(2) [OF j(2)] j by auto
    moreover have "j \<noteq> ?i" using j(2) nmap_next [of fs] by auto
    ultimately show ?thesis using keep M(1) [OF j(1)] j(1) by (simp add: fs_read_def node_Inr [THEN iffD2])
  qed
  moreover have "fs_read fs path \<noteq> Inr d"
  proof
    assume D: "fs_read fs path = Inr d"
    then obtain j where j: "resolve fs path = Inr j" by (auto simp: fs_read_def split: sum.splits)
    from M(1) [OF j] R have "j = ?i" by simp
    with j resolve_exists [OF assms(1) j] nmap_next [of fs] show False by simp
  qed
  ultimately show ?thesis using keep(1) by simp
qed

text \<open>C18: the path computed for a node of the tree (the walk up the parents returns) is absolute and resolves
  back to that node, from any working directory.\<close>

theorem path_for_inode_roundtrip:
  assumes "tmpfs_inv fs" and "node fs i = Inr n"
  shows "\<exists>path. path_for_inode fs i = Some path \<and> starts_with path ''/'' \<and> resolve fs path = Inr i
    \<and> resolve (fs\<lparr>cwd := c\<rparr>) path = Inr i"
proof -
  have N: "nmap fs i = Some n" using assms(2) by (simp add: node_Inr)
  obtain path where P: "path_for_inode fs i = Some path" "resolve fs path = Inr i" "starts_with path ''/''"
    using path_for_inode_resolves [OF assms(1) N] by blast
  have nd: "node (fs\<lparr>cwd := c\<rparr>) = node fs" by (simp add: fun_eq_iff node_nmap)
  have "node_named (fs\<lparr>cwd := c\<rparr>) = node_named fs" by (simp add: fun_eq_iff node_named_iff)
  then have "lookup_child_by_name (fs\<lparr>cwd := c\<rparr>) d nm = lookup_child_by_name fs d nm" for d nm
    unfolding lookup_child_by_name_def nd by (simp only:)
  then have "resolve_parts (fs\<lparr>cwd := c\<rparr>) cur ps = resolve_parts fs cur ps" for cur ps
    by (induction ps arbitrary: cur) (simp_all add: nd split: sum.split option.split)
  with P have "resolve (fs\<lparr>cwd := c\<rparr>) path = Inr i" by (simp add: resolve_def resolve_from_def split: if_splits)
  with P show ?thesis by blast
qed

theorem path_for_inode_roundtrip_witness:
  "\<exists>path. path_for_inode (snd (fs_mkdir ''/a'' tmpfs_new)) 2 = Some path
     \<and> resolve (snd (fs_mkdir ''/a'' tmpfs_new)) path = Inr 2"
proof -
  have "tmpfs_inv (snd (fs_mkdir ''/a'' tmpfs_new))" unfolding fs_mkdir_def by (rule insert_at_inv [OF tmpfs_new_inv])
  moreover have "\<exists>n. node (snd (fs_mkdir ''/a'' tmpfs_new)) 2 = Inr n"
    by (simp add: fs_mkdir_def insert_at_def tmpfs_new_def resolve_parent_and_name_def path_parts_def
        starts_with_def resolve_def resolve_from_def insert_node_def node_def inode_to_index_def
        lookup_child_by_name_def next_inode_def node_mut_def)
  ultimately show ?thesis using path_for_inode_roundtrip by blast
qed

text \<open>C20: renaming.  A rename that reports an error has changed nothing.  One that succeeds leaves a tree exactly when the parent
  of the destination is a directory and not in the subtree of the moved node, two conditions the code does not check;
  the moved node is then the child of that name.  With a destination in the moved subtree the node ends up in a
  cycle of parents and computing its path never returns.\<close>

theorem rename_path_keeps_tree_iff:
  assumes "tmpfs_inv fs"
  shows "case rename_path from dest fs of
      (Inl _, fs') \<Rightarrow> fs' = fs
    | (Inr _, fs') \<Rightarrow> (\<exists>i q nm mq. resolve fs from = Inr i \<and> resolve_parent_and_name fs dest = Inr (q, nm) \<and> node fs q = Inr mq
        \<and> (tmpfs_inv fs' \<longleftrightarrow> n_kind mq = Directory \<and> \<not> below (nmap fs) i q)
        \<and> (tmpfs_inv fs' \<longrightarrow> lookup_child_by_name fs' q nm = Some i)
        \<and> (below (nmap fs) i q \<longrightarrow> path_for_inode fs' i = None))"
proof (cases rule: rename_cases [OF assms, of "from" dest, case_names refused moves])
  case (moves i q nm)
  obtain n where n: "nmap fs i = Some n" using resolve_exists [OF assms moves(1)] by blast
  obtain mq where q: "nmap fs q = Some mq" using resolve_parent_and_name_ok [OF assms moves(3)] by blast
  obtain fs' where fs': "rename_path from dest fs = (Inr (), fs')" "moved i q nm (nmap fs) (nmap fs')"
    "root fs' = root fs" using rename_moves [OF assms moves] by blast
  obtain n' where n': "nmap fs' i = Some n'" using movedD(1) [OF fs'(2), of i] n by (cases "nmap fs' i") simp_all
  obtain mq' where q': "nmap fs' q = Some mq'" using movedD(1) [OF fs'(2), of q] q by (cases "nmap fs' q") simp_all
  have child: "n_kind mq' = n_kind mq" "i \<in> set (n_children mq')" "n_name n' = nm"
    using movedD(2) [OF fs'(2) q q'] movedD(2) [OF fs'(2) n n'] by auto
  have hang: "path_for_inode fs' i = None" if B: "below (nmap fs) i q"
    by (rule parent_cycle_hangs [OF rename_into_subtree [OF assms moves(2) n q B fs'(2,3)]])
      (simp add: B below.below_refl)
  have good: "n_kind mq = Directory \<and> \<not> below (nmap fs) i q" if I': "tmpfs_inv fs'"
  proof
    show "n_kind mq = Directory" using treeD(3) [OF tmpfs_invD(1) [OF I'] q'] child by (cases "n_kind mq") auto
    show "\<not> below (nmap fs) i q" using path_for_inode_resolves [OF I' n'] hang by auto
  qed
  have look: "lookup_child_by_name fs' q nm = Some i" if I': "tmpfs_inv fs'"
    using lookup_child_iff [OF tmpfs_invD(1) [OF I'] q'] child n' good [OF I'] by simp
  have "tmpfs_inv fs' \<longleftrightarrow> n_kind mq = Directory \<and> \<not> below (nmap fs) i q"
    using good rename_inv [OF assms moves q] fs'(1) by auto
  then show ?thesis using fs'(1) moves q look hang by (auto simp: node_Inr)
qed simp

theorem rename_path_keeps_tree_iff_witness:
  "path_for_inode (snd (rename_path ''/a'' ''/a/b'' (snd (fs_mkdir ''/a'' tmpfs_new)))) 2 = None"
proof -
  let ?fs = "snd (fs_mkdir ''/a'' tmpfs_new)"
  have I: "tmpfs_inv ?fs" unfolding fs_mkdir_def by (rule insert_at_inv [OF tmpfs_new_inv])
  have fs: "?fs = \<lparr>nodes = [Some \<lparr>n_inode = 1, n_name = ''/'', n_kind = Directory, n_parent = None, n_children = [2], n_data = []\<rparr>,
     Some \<lparr>n_inode = 2, n_name = ''a'', n_kind = Directory, n_parent = Some 1, n_children = [], n_data = []\<rparr>], root = 1, cwd = 1\<rparr>"
    by (simp add: fs_mkdir_def insert_at_def tmpfs_new_def resolve_parent_and_name_def path_parts_def
        starts_with_def resolve_def resolve_from_def insert_node_def node_def inode_to_index_def
        lookup_child_by_name_def next_inode_def node_mut_def)
  note eval = fs resolve_def resolve_from_def path_parts_def starts_with_def lookup_child_by_name_def
    node_named_def node_def inode_to_index_def resolve_parent_and_name_def
  have r: "resolve ?fs ''/a'' = Inr 2" "resolve_parent_and_name ?fs ''/a/b'' = Inr (2, ''b'')"
    by (simp_all add: eval)
  have "\<exists>fs'. rename_path ''/a'' ''/a/b'' ?fs = (Inr (), fs')"
    by (simp add: eval rename_path_def node_mut_def)
  then obtain fs' where fs': "rename_path ''/a'' ''/a/b'' ?fs = (Inr (), fs')" by blast
  show ?thesis
    using rename_path_keeps_tree_iff [OF I, of "''/a''" "''/a/b''"] r below.below_refl [of "nmap ?fs" 2] unfolding fs' by auto
qed

end
