(* ===== verification/Vfs.thy ===== *)
theory Vfs
  imports Tmpfs
begin

text \<open>
  The virtual file system on top of the in-memory one: descriptors, mount records and the dispatch of each
  path to \<open>/sys\<close>, to a mounted volume or to \<open>TmpFs\<close>, the second half of \<^verbatim>\<open>seed/saios/src/vfs.rs\<close>.  What the
  code calls in the storage driver, the object manager and the device registry is the argument \<open>E\<close>, a
  record of functions on a state \<open>'s\<close> about which nothing is assumed.  Operations that normalise a
  path may not return (\<open>None\<close>, see theory \<open>Tmpfs\<close>).  Shown are that descriptors never dangle whatever is renamed, that
  \<open>open\<close> hands out the lowest free descriptor, that what is written by path reads back, and the bounds of
  \<open>seek\<close>.
\<close>

section \<open>Data\<close>

datatype SeekFrom = Start nat | Current int | End int

record OpenOptions =
  oo_read :: bool
  oo_write :: bool
  oo_create :: bool
  oo_truncate :: bool
  oo_append :: bool

definition read_only :: OpenOptions where
  "read_only = \<lparr>oo_read = True, oo_write = False, oo_create = False, oo_truncate = False, oo_append = False\<rparr>"

definition write_only_create :: OpenOptions where
  "write_only_create = \<lparr>oo_read = False, oo_write = True, oo_create = True, oo_truncate = True, oo_append = False\<rparr>"

definition read_write_create :: OpenOptions where
  "read_write_create = \<lparr>oo_read = True, oo_write = True, oo_create = True, oo_truncate = False, oo_append = False\<rparr>"

definition append_create :: OpenOptions where
  "append_create = \<lparr>oo_read = False, oo_write = True, oo_create = True, oo_truncate = False, oo_append = True\<rparr>"

record OpenFile =
  of_inode :: nat
  of_offset :: nat
  of_readable :: bool
  of_writable :: bool
  of_append :: bool

record MountRecord =
  mr_path :: string
  mr_fs_name :: string
  mr_read_only :: bool

record VfsState =
  vfs_fs :: TmpFs
  open_files :: "OpenFile option list"
  vfs_mounts :: "MountRecord list"

text \<open>The parts of the system the VFS calls.\<close>

record 's env =
  storage_backed :: "'s \<Rightarrow> string \<Rightarrow> bool"
  storage_mkdir :: "string \<Rightarrow> 's \<Rightarrow> unit res \<times> 's"
  storage_create :: "string \<Rightarrow> 's \<Rightarrow> unit res \<times> 's"
  storage_delete :: "string \<Rightarrow> 's \<Rightarrow> unit res \<times> 's"
  storage_rename :: "string \<Rightarrow> string \<Rightarrow> 's \<Rightarrow> unit res \<times> 's"
  storage_write :: "string \<Rightarrow> u8 list \<Rightarrow> 's \<Rightarrow> unit res \<times> 's"
  storage_read :: "string \<Rightarrow> 's \<Rightarrow> u8 list res \<times> 's"
  storage_readdir :: "string \<Rightarrow> 's \<Rightarrow> string list res \<times> 's"
  storage_stat :: "string \<Rightarrow> 's \<Rightarrow> FileType res \<times> 's"
  sys_readdir :: "string \<Rightarrow> 's \<Rightarrow> string list option \<times> 's"
  sys_read :: "string \<Rightarrow> 's \<Rightarrow> string list option \<times> 's"
  device_names :: "'s \<Rightarrow> string list"
  log_event :: "string \<Rightarrow> 's \<Rightarrow> 's"

type_synonym ('a, 's) vfs_run = "('a res \<times> VfsState \<times> 's) option"

section \<open>Start-up\<close>

definition standard_roots :: "string list" where
  "standard_roots = [''/system'', ''/dev'', ''/proc'', ''/sys'', ''/home'', ''/tmp'', ''/var'', ''/boot'', ''/bin'',
     ''/usr'', ''/etc'', ''/mnt'']"

definition sys_nodes :: "string list" where
  "sys_nodes = [''/sys/devices'', ''/sys/drivers'', ''/sys/memory'', ''/sys/scheduler'', ''/sys/storage'',
     ''/sys/network'', ''/sys/services'']"

definition user_programs :: "string list" where
  "user_programs = [''hello'', ''true'', ''false'', ''argc'', ''env'', ''fail'', ''ls'', ''cat'', ''cp'', ''mv'', ''rm'',
     ''mkdir'', ''ps'', ''kill'', ''top'', ''uname'', ''calc'', ''stress'', ''cc'']"

definition seed_standard_tree :: "TmpFs \<Rightarrow> TmpFs" where
  "seed_standard_tree fs =
     (let fs1 = fold (\<lambda>path fs. snd (fs_mkdir path fs)) standard_roots fs;
          fs2 = fold (\<lambda>path fs. snd (fs_mkdir path fs)) sys_nodes fs1
      in fold (\<lambda>name fs. snd (fs_create (''/bin/'' @ name) fs)) user_programs fs2)"

definition vfs_new :: VfsState where
  "vfs_new = \<lparr>vfs_fs = seed_standard_tree tmpfs_new, open_files = [],
     vfs_mounts = [\<lparr>mr_path = ''/'', mr_fs_name = ''tmpfs'', mr_read_only = False\<rparr>]\<rparr>"

text \<open>The static cell is filled on first use.\<close>

definition with_vfs :: "(VfsState \<Rightarrow> 'r) \<Rightarrow> VfsState option \<Rightarrow> 'r" where
  "with_vfs f slot = f (case slot of None \<Rightarrow> vfs_new | Some v \<Rightarrow> v)"

section \<open>Descriptors\<close>

definition alloc_fd :: "OpenFile \<Rightarrow> VfsState \<Rightarrow> nat \<times> VfsState" where
  "alloc_fd file v =
     (case find_position (\<lambda>slot. slot = None) (open_files v) of
        Some idx \<Rightarrow> (idx, v\<lparr>open_files := (open_files v)[idx := Some file]\<rparr>)
      | None \<Rightarrow> (length (open_files v), v\<lparr>open_files := open_files v @ [Some file]\<rparr>))"

definition get_open_file :: "VfsState \<Rightarrow> nat \<Rightarrow> OpenFile res" where
  "get_open_file v fd =
     (case if fd < length (open_files v) then open_files v ! fd else None of
        None \<Rightarrow> Inl ''bad file descriptor''
      | Some f \<Rightarrow> Inr f)"

text \<open>The only use of \<open>get_open_file_mut\<close>: set the offset.\<close>

definition set_offset :: "nat \<Rightarrow> nat \<Rightarrow> VfsState \<Rightarrow> unit res \<times> VfsState" where
  "set_offset fd offset v =
     (case get_open_file v fd of
        Inl e \<Rightarrow> (Inl e, v)
      | Inr f \<Rightarrow> (Inr (), v\<lparr>open_files := (open_files v)[fd := Some (f\<lparr>of_offset := offset\<rparr>)]\<rparr>))"

definition close_fd :: "nat \<Rightarrow> VfsState \<Rightarrow> unit res \<times> VfsState" where
  "close_fd fd v =
     (if length (open_files v) \<le> fd then (Inl ''bad file descriptor'', v)
      else if open_files v ! fd = None then (Inl ''bad file descriptor'', v)
      else (Inr (), v\<lparr>open_files := (open_files v)[fd := None]\<rparr>))"

definition invalidate_inode_descriptors :: "nat \<Rightarrow> VfsState \<Rightarrow> VfsState" where
  "invalidate_inode_descriptors inode v =
     v\<lparr>open_files := map (\<lambda>slot. case slot of
         Some f \<Rightarrow> if of_inode f = inode then None else slot
       | None \<Rightarrow> slot) (open_files v)\<rparr>"

section \<open>Paths outside the in-memory tree\<close>

definition is_sys_path :: "string \<Rightarrow> bool" where
  "is_sys_path path \<longleftrightarrow> path = ''/sys'' \<or> starts_with path ''/sys/''"

definition storage_node_name :: "string \<Rightarrow> string" where
  "storage_node_name path =
     (if path = ''/'' then ''/''
      else case find (\<lambda>s. s \<noteq> []) (rev (split_char (CHR ''/'') path)) of
             None \<Rightarrow> ''/''
           | Some s \<Rightarrow> s)"

definition storage_inode :: "string \<Rightarrow> u64" where
  "storage_inode path = fold (\<lambda>c h. (xor h (of_char c)) * 1099511628211) path 1469598103934665603"

section \<open>Operations\<close>

text \<open>\<open>mkdir\<close> and \<open>touch\<close> differ only in the functions they call and in the message.\<close>

definition make_path ::
  "(string \<Rightarrow> 's \<Rightarrow> unit res \<times> 's) \<Rightarrow> (string \<Rightarrow> TmpFs \<Rightarrow> unit res \<times> TmpFs) \<Rightarrow> string \<Rightarrow> 's env \<Rightarrow> string
     \<Rightarrow> VfsState \<Rightarrow> 's \<Rightarrow> (unit, 's) vfs_run" where
  "make_path st_make fs_make msg E path v s =
     map_option (\<lambda>abs.
       if is_sys_path abs then (Inl ''read-only virtual path'', v, s)
       else if storage_backed E s abs then (case st_make abs s of (r, s') \<Rightarrow> (r, v, s'))
       else case fs_make path (vfs_fs v) of
              (Inl e, fs') \<Rightarrow> (Inl e, v\<lparr>vfs_fs := fs'\<rparr>, s)
            | (Inr _, fs') \<Rightarrow> (Inr (), v\<lparr>vfs_fs := fs'\<rparr>, log_event E (msg @ abs) s))
     (normalized_path (vfs_fs v) path)"

definition vfs_mkdir :: "'s env \<Rightarrow> string \<Rightarrow> VfsState \<Rightarrow> 's \<Rightarrow> (unit, 's) vfs_run" where
  "vfs_mkdir E = make_path (storage_mkdir E) fs_mkdir ''Directory created: '' E"

definition vfs_touch :: "'s env \<Rightarrow> string \<Rightarrow> VfsState \<Rightarrow> 's \<Rightarrow> (unit, 's) vfs_run" where
  "vfs_touch E = make_path (storage_create E) fs_create ''File created: '' E"

definition vfs_mount :: "'s env \<Rightarrow> string \<Rightarrow> string \<Rightarrow> bool \<Rightarrow> VfsState \<Rightarrow> 's \<Rightarrow> (unit, 's) vfs_run" where
  "vfs_mount E path fs_name ro v s =
     map_option (\<lambda>abs.
       case resolve (vfs_fs v) abs of
         Inl e \<Rightarrow> (Inl e, v, s)
       | Inr inode \<Rightarrow>
           (case node (vfs_fs v) inode of
              Inl e \<Rightarrow> (Inl e, v, s)
            | Inr n \<Rightarrow>
                if n_kind n \<noteq> Directory then (Inl ''mount target is not a directory'', v, s)
                else if \<exists>m\<in>set (vfs_mounts v). mr_path m = abs then (Inl ''already mounted'', v, s)
                else (Inr (), v\<lparr>vfs_mounts := vfs_mounts v @ [\<lparr>mr_path = abs, mr_fs_name = fs_name, mr_read_only = ro\<rparr>]\<rparr>,
                      log_event E (''Mounted '' @ fs_name @ '' on '' @ abs) s)))
     (normalized_path (vfs_fs v) path)"

definition vfs_umount :: "'s env \<Rightarrow> string \<Rightarrow> VfsState \<Rightarrow> 's \<Rightarrow> (unit, 's) vfs_run" where
  "vfs_umount E path v s =
     map_option (\<lambda>abs.
       if abs = ''/'' then (Inl ''cannot unmount root filesystem'', v, s)
       else
         let before = length (vfs_mounts v);
             v' = v\<lparr>vfs_mounts := filter (\<lambda>m. mr_path m \<noteq> abs) (vfs_mounts v)\<rparr>
         in if length (vfs_mounts v') = before then (Inl ''not mounted'', v', s)
            else (Inr (), v', log_event E (''Unmounted '' @ abs) s))
     (normalized_path (vfs_fs v) path)"

definition open_inode :: "OpenOptions \<Rightarrow> nat \<Rightarrow> VfsState \<Rightarrow> nat res \<times> VfsState" where
  "open_inode options inode v =
     (case node (vfs_fs v) inode of
        Inl e \<Rightarrow> (Inl e, v)
      | Inr n \<Rightarrow>
          if n_kind n \<noteq> File then (Inl ''not a file'', v)
          else if oo_truncate options \<and> \<not> oo_write options then (Inl ''truncate requires write access'', v)
          else
            case (if oo_truncate options then truncate_inode inode (vfs_fs v) else (Inr (), vfs_fs v)) of
              (Inl e, fs') \<Rightarrow> (Inl e, v\<lparr>vfs_fs := fs'\<rparr>)
            | (Inr _, fs') \<Rightarrow>
                (case (if oo_append options then inode_len fs' inode else Inr 0) of
                   Inl e \<Rightarrow> (Inl e, v\<lparr>vfs_fs := fs'\<rparr>)
                 | Inr offset \<Rightarrow>
                     (case alloc_fd \<lparr>of_inode = inode, of_offset = offset, of_readable = oo_read options,
                              of_writable = oo_write options, of_append = oo_append options\<rparr> (v\<lparr>vfs_fs := fs'\<rparr>) of
                        (fd, v') \<Rightarrow> (Inr fd, v'))))"

definition vfs_open :: "string \<Rightarrow> OpenOptions \<Rightarrow> VfsState \<Rightarrow> (nat res \<times> VfsState) option" where
  "vfs_open path options v =
     map_option (\<lambda>abs.
       if \<not> oo_read options \<and> \<not> oo_write options then (Inl ''open requires read or write access'', v)
       else if is_sys_path abs \<and> (oo_write options \<or> oo_create options \<or> oo_truncate options \<or> oo_append options)
       then (Inl ''read-only virtual path'', v)
       else
         case (if oo_create options \<and> \<not> is_sys_path abs \<and> isl (resolve (vfs_fs v) path)
               then fs_create path (vfs_fs v) else (Inr (), vfs_fs v)) of
           (Inl e, fs') \<Rightarrow> (Inl e, v\<lparr>vfs_fs := fs'\<rparr>)
         | (Inr _, fs') \<Rightarrow>
             (case resolve fs' path of
                Inl e \<Rightarrow> (Inl e, v\<lparr>vfs_fs := fs'\<rparr>)
              | Inr inode \<Rightarrow> open_inode options inode (v\<lparr>vfs_fs := fs'\<rparr>)))
     (normalized_path (vfs_fs v) path)"

definition vfs_close :: "nat \<Rightarrow> VfsState \<Rightarrow> unit res \<times> VfsState" where
  "vfs_close = close_fd"

definition vfs_read :: "nat \<Rightarrow> nat \<Rightarrow> VfsState \<Rightarrow> u8 list res \<times> VfsState" where
  "vfs_read fd max_len v =
     (case get_open_file v fd of
        Inl e \<Rightarrow> (Inl e, v)
      | Inr f \<Rightarrow>
          if \<not> of_readable f then (Inl ''file descriptor is not readable'', v)
          else
            case read_inode_range (vfs_fs v) (of_inode f) (of_offset f) max_len of
              Inl e \<Rightarrow> (Inl e, v)
            | Inr data \<Rightarrow>
                (case set_offset fd (of_offset f + length data) v of
                   (Inl e, v') \<Rightarrow> (Inl e, v')
                 | (Inr _, v') \<Rightarrow> (Inr data, v')))"

definition vfs_write :: "nat \<Rightarrow> u8 list \<Rightarrow> VfsState \<Rightarrow> nat res \<times> VfsState" where
  "vfs_write fd data v =
     (case get_open_file v fd of
        Inl e \<Rightarrow> (Inl e, v)
      | Inr f \<Rightarrow>
          if \<not> of_writable f then (Inl ''file descriptor is not writable'', v)
          else
            case (if of_append f then inode_len (vfs_fs v) (of_inode f) else Inr (of_offset f)) of
              Inl e \<Rightarrow> (Inl e, v)
            | Inr offset \<Rightarrow>
                (case write_inode_at (of_inode f) offset data (vfs_fs v) of
                   (Inl e, fs') \<Rightarrow> (Inl e, v\<lparr>vfs_fs := fs'\<rparr>)
                 | (Inr written, fs') \<Rightarrow>
                     (case set_offset fd (offset + written) (v\<lparr>vfs_fs := fs'\<rparr>) of
                        (Inl e, v') \<Rightarrow> (Inl e, v')
                      | (Inr _, v') \<Rightarrow> (Inr written, v'))))"

text \<open>\<open>as isize\<close> of a \<open>usize\<close> and the saturating sum of two \<open>isize\<close> values.\<close>

definition as_isize :: "nat \<Rightarrow> int" where
  "as_isize n = (let m = n mod 2 ^ 64 in if m < 2 ^ 63 then int m else int m - 2 ^ 64)"

definition isize_saturating_add :: "int \<Rightarrow> int \<Rightarrow> int" where
  "isize_saturating_add a b = max (- (2 ^ 63)) (min (2 ^ 63 - 1) (a + b))"

definition vfs_seek :: "nat \<Rightarrow> SeekFrom \<Rightarrow> VfsState \<Rightarrow> nat res \<times> VfsState" where
  "vfs_seek fd from v =
     (case get_open_file v fd of
        Inl e \<Rightarrow> (Inl e, v)
      | Inr f \<Rightarrow>
          (case inode_len (vfs_fs v) (of_inode f) of
             Inl e \<Rightarrow> (Inl e, v)
           | Inr n \<Rightarrow>
               let len = as_isize n;
                   target = (case from of
                       Start pos \<Rightarrow> as_isize pos
                     | Current delta \<Rightarrow> isize_saturating_add (as_isize (of_offset f)) delta
                     | End delta \<Rightarrow> isize_saturating_add len delta);
                   clamped = (if target < 0 then 0 else if len < target then nat len else nat target)
               in case set_offset fd clamped v of
                    (Inl e, v') \<Rightarrow> (Inl e, v')
                  | (Inr _, v') \<Rightarrow> (Inr clamped, v')))"

text \<open>\<open>Vec::dedup\<close> removes adjacent duplicates.\<close>

definition dedup :: "string list \<Rightarrow> string list" where
  "dedup = remdups_adj"

definition vfs_ls :: "'s env \<Rightarrow> string option \<Rightarrow> VfsState \<Rightarrow> 's \<Rightarrow> (string list, 's) vfs_run" where
  "vfs_ls E path v s =
     (let req = (case path of None \<Rightarrow> ''.'' | Some p \<Rightarrow> p)
      in map_option (\<lambda>abs.
           if is_sys_path abs then
             (case sys_readdir E abs s of
                (None, s') \<Rightarrow> (Inl ''not a directory'', v, s')
              | (Some ns, s') \<Rightarrow> (Inr ns, v, s'))
           else if storage_backed E s abs then (case storage_readdir E abs s of (r, s') \<Rightarrow> (r, v, s'))
           else if abs = ''/dev'' then
             (case fs_readdir (vfs_fs v) req of
                Inl e \<Rightarrow> (Inl e, v, s)
              | Inr merged \<Rightarrow>
                  (Inr (dedup (sort_strings
                     (merged @ List.map_filter (\<lambda>d. strip_prefix d ''/dev/'') (device_names E s)))), v, s))
           else (fs_readdir (vfs_fs v) req, v, s))
         (normalized_path (vfs_fs v) req))"

text \<open>The sequence open, read or write, close that \<open>read_path\<close> and \<open>write_path\<close> run: the result of the middle
  step is reported before that of the close.\<close>

definition open_use_close ::
  "string \<Rightarrow> OpenOptions \<Rightarrow> (nat \<Rightarrow> VfsState \<Rightarrow> 'a res \<times> VfsState) \<Rightarrow> VfsState \<Rightarrow> ('a res \<times> VfsState) option" where
  "open_use_close path options use v =
     map_option (\<lambda>out.
       case out of
         (Inl e, v1) \<Rightarrow> (Inl e, v1)
       | (Inr fd, v1) \<Rightarrow>
           (case use fd v1 of
              (r, v2) \<Rightarrow>
                (case vfs_close fd v2 of
                   (c, v3) \<Rightarrow>
                     (case r of
                        Inl e \<Rightarrow> (Inl e, v3)
                      | Inr x \<Rightarrow> (case c of Inl e \<Rightarrow> (Inl e, v3) | Inr _ \<Rightarrow> (Inr x, v3))))))
     (vfs_open path options v)"

definition bytes_of :: "string \<Rightarrow> u8 list" where
  "bytes_of s = map of_char s"

definition vfs_read_path :: "'s env \<Rightarrow> string \<Rightarrow> VfsState \<Rightarrow> 's \<Rightarrow> (u8 list, 's) vfs_run" where
  "vfs_read_path E path v s =
     (case normalized_path (vfs_fs v) path of
        None \<Rightarrow> None
      | Some abs' \<Rightarrow>
          if is_sys_path abs' then
            (case sys_read E abs' s of
               (None, s') \<Rightarrow> Some (Inl ''not a file'', v, s')
             | (Some ls, s') \<Rightarrow> Some (Inr (bytes_of (join_char (CHR 0x0A) ls)), v, s'))
          else if storage_backed E s abs' then (case storage_read E abs' s of (r, s') \<Rightarrow> Some (r, v, s'))
          else map_option (\<lambda>out. case out of (r, v') \<Rightarrow> (r, v', s))
                 (open_use_close path read_only (\<lambda>fd. vfs_read fd (2 ^ 64 - 1)) v))"

definition vfs_write_path :: "'s env \<Rightarrow> string \<Rightarrow> u8 list \<Rightarrow> VfsState \<Rightarrow> 's \<Rightarrow> (unit, 's) vfs_run" where
  "vfs_write_path E path data v s =
     (case normalized_path (vfs_fs v) path of
        None \<Rightarrow> None
      | Some abs' \<Rightarrow>
          if storage_backed E s abs' then (case storage_write E abs' data s of (r, s') \<Rightarrow> Some (r, v, s'))
          else map_option (\<lambda>out. case out of (Inl e, v') \<Rightarrow> (Inl e, v', s) | (Inr _, v') \<Rightarrow> (Inr (), v', s))
                 (open_use_close path write_only_create (\<lambda>fd. vfs_write fd data) v))"

definition vfs_unlink :: "'s env \<Rightarrow> string \<Rightarrow> VfsState \<Rightarrow> 's \<Rightarrow> (unit, 's) vfs_run" where
  "vfs_unlink E path v s =
     map_option (\<lambda>abs.
       if is_sys_path abs then (Inl ''read-only virtual path'', v, s)
       else if storage_backed E s abs then (case storage_delete E abs s of (r, s') \<Rightarrow> (r, v, s'))
       else
         case resolve (vfs_fs v) path of
           Inl e \<Rightarrow> (Inl e, v, s)
         | Inr inode \<Rightarrow>
             let v1 = invalidate_inode_descriptors inode v
             in case fs_remove path (vfs_fs v1) of
                  (Inl e, fs') \<Rightarrow> (Inl e, v1\<lparr>vfs_fs := fs'\<rparr>, s)
                | (Inr _, fs') \<Rightarrow> (Inr (), v1\<lparr>vfs_fs := fs'\<rparr>, log_event E (''Object removed: '' @ abs) s))
     (normalized_path (vfs_fs v) path)"

definition vfs_rename :: "'s env \<Rightarrow> string \<Rightarrow> string \<Rightarrow> VfsState \<Rightarrow> 's \<Rightarrow> (unit, 's) vfs_run" where
  "vfs_rename E from to v s =
     (case (normalized_path (vfs_fs v) from, normalized_path (vfs_fs v) to) of
        (Some abs_from, Some abs_to) \<Rightarrow>
          Some (if is_sys_path abs_from \<or> is_sys_path abs_to then (Inl ''read-only virtual path'', v, s)
            else if storage_backed E s abs_from \<or> storage_backed E s abs_to
            then (case storage_rename E abs_from abs_to s of (r, s') \<Rightarrow> (r, v, s'))
            else case rename_path from to (vfs_fs v) of
                   (Inl e, fs') \<Rightarrow> (Inl e, v\<lparr>vfs_fs := fs'\<rparr>, s)
                 | (Inr _, fs') \<Rightarrow> (Inr (), v\<lparr>vfs_fs := fs'\<rparr>,
                       log_event E (''Renamed '' @ abs_from @ '' -> '' @ abs_to) s))
      | _ \<Rightarrow> None)"

definition vfs_cd :: "string \<Rightarrow> VfsState \<Rightarrow> unit res \<times> VfsState" where
  "vfs_cd path v =
     (case resolve (vfs_fs v) path of
        Inl e \<Rightarrow> (Inl e, v)
      | Inr inode \<Rightarrow>
          (case node (vfs_fs v) inode of
             Inl e \<Rightarrow> (Inl e, v)
           | Inr n \<Rightarrow>
               if n_kind n \<noteq> Directory then (Inl ''not a directory'', v)
               else (Inr (), v\<lparr>vfs_fs := (vfs_fs v)\<lparr>cwd := inode\<rparr>\<rparr>)))"

definition vfs_pwd :: "VfsState \<Rightarrow> string option" where
  "vfs_pwd v = cwd_path (vfs_fs v)"

definition vfs_open_node :: "'s env \<Rightarrow> string \<Rightarrow> VfsState \<Rightarrow> 's \<Rightarrow> ((u64 \<times> string \<times> FileType) res \<times> 's) option" where
  "vfs_open_node E path v s =
     map_option (\<lambda>abs.
       if storage_backed E s abs then
         (case storage_stat E abs s of
            (Inl e, s') \<Rightarrow> (Inl e, s')
          | (Inr kind, s') \<Rightarrow> (Inr (storage_inode abs, storage_node_name abs, kind), s'))
       else
         case fs_open_node (vfs_fs v) path of
           Inl e \<Rightarrow> (Inl e, s)
         | Inr n \<Rightarrow> (Inr (of_nat (vn_inode n), vn_name n, vn_kind n), s))
     (normalized_path (vfs_fs v) path)"

section \<open>Descriptors name existing files\<close>

definition kinds :: "TmpFs \<Rightarrow> nat \<Rightarrow> FileType option" where
  "kinds fs i = map_option n_kind (nmap fs i)"

definition files_inv :: "(TmpFs \<Rightarrow> bool) \<Rightarrow> VfsState \<Rightarrow> bool" where
  "files_inv J v \<longleftrightarrow> J (vfs_fs v) \<and> (\<forall>f. Some f \<in> set (open_files v) \<longrightarrow> kinds (vfs_fs v) (of_inode f) = Some File)"

abbreviation vfs_inv :: "VfsState \<Rightarrow> bool" where
  "vfs_inv \<equiv> files_inv tmpfs_inv"

lemma kinds_node_mut:
  assumes "\<And>n. n_kind (f n) = n_kind n"
  shows "kinds (snd (node_mut i f fs)) j = kinds fs j"
proof (cases "nmap fs i")
  case None
  then show ?thesis using node_mut_None [OF None, of f] by auto
next
  case (Some n)
  then show ?thesis using node_mut_Some [OF Some, of f] assms by (auto simp: kinds_def)
qed

lemma kinds_insert_node:
  assumes "kinds fs j = Some k"
  shows "kinds (snd (insert_node p name k' fs)) j = Some k"
proof -
  let ?n = "\<lparr>n_inode = next_inode fs, n_name = name, n_kind = k', n_parent = Some p, n_children = [], n_data = []\<rparr>"
  let ?fs1 = "fs\<lparr>nodes := nodes fs @ [Some ?n]\<rparr>"
  have "kinds ?fs1 j = Some k" using assms nmap_next [of fs] by (auto simp: kinds_def nmap_push)
  then have "kinds (snd (node_mut p (\<lambda>n. n\<lparr>n_children := n_children n @ [next_inode fs]\<rparr>) ?fs1)) j = Some k"
    by (simp add: kinds_node_mut)
  then show ?thesis using assms by (simp add: insert_node_def Let_def split: sum.split)
qed

lemma kinds_insert_at: "kinds fs j = Some k \<Longrightarrow> kinds (snd (insert_at k' path fs)) j = Some k"
  using kinds_insert_node [of fs j k _ _ k'] by (simp add: insert_at_def split: sum.split)

lemma kinds_data_ops:
  "kinds (snd (write_inode_at i offset new fs)) j = kinds fs j"
  "kinds (snd (truncate_inode i fs)) j = kinds fs j"
  by (simp_all add: write_inode_at_def truncate_inode_def kinds_node_mut split: sum.split)

lemma kinds_remove_inode:
  assumes "j \<noteq> i"
  shows "kinds (snd (remove_inode i fs)) j = kinds fs j"
proof (cases "i = 0")
  case True
  then show ?thesis by (simp add: remove_inode_def node_nmap)
next
  case False
  have clear: "kinds (let fs2 = fs'\<lparr>nodes := (nodes fs')[i - 1 := None]\<rparr> in if cwd fs2 = i then fs2\<lparr>cwd := root fs2\<rparr> else fs2) j
      = kinds fs' j" for fs'
    using assms False by (auto simp: kinds_def nmap_def nth_list_update Let_def)
  have cut: "kinds (snd (case n_parent n of None \<Rightarrow> (Inr (), fs) | Some p \<Rightarrow>
      node_mut p (\<lambda>p. p\<lparr>n_children := filter (\<lambda>c. c \<noteq> i) (n_children p)\<rparr>) fs)) j = kinds fs j" for n :: Node
    by (simp add: kinds_node_mut split: option.split)
  have "kinds (snd (case x of (Inl e, fs1) \<Rightarrow> (Inl e, fs1) | (Inr _, fs1) \<Rightarrow>
     let fs2 = fs1\<lparr>nodes := (nodes fs1)[i - 1 := None]\<rparr>
     in (Inr (), if cwd fs2 = i then fs2\<lparr>cwd := root fs2\<rparr> else fs2))) j = kinds (snd x) j" for x :: "unit res \<times> TmpFs"
    using clear by (simp add: Let_def split: prod.split sum.split)
  then show ?thesis using cut by (simp add: remove_inode_def split: sum.split)
qed

text \<open>The descriptor table.\<close>

lemma get_open_file_Inr: "get_open_file v fd = Inr f \<longleftrightarrow> fd < length (open_files v) \<and> open_files v ! fd = Some f"
  by (auto simp: get_open_file_def split: option.splits)

lemma get_open_file_in: "get_open_file v fd = Inr f \<Longrightarrow> Some f \<in> set (open_files v)"
  by (auto simp: get_open_file_Inr in_set_conv_nth)

lemma alloc_fd_spec:
  assumes "alloc_fd f v = (fd, v')"
  shows "vfs_fs v' = vfs_fs v \<and> vfs_mounts v' = vfs_mounts v \<and> get_open_file v' fd = Inr f
    \<and> isl (get_open_file v fd) \<and> (\<forall>k<fd. \<not> isl (get_open_file v k))
    \<and> (\<forall>k. k \<noteq> fd \<longrightarrow> get_open_file v' k = get_open_file v k)"
proof (cases "find_position (\<lambda>slot. slot = None) (open_files v)")
  case None
  then have "\<forall>x\<in>set (open_files v). x \<noteq> None" by (simp add: find_position_None)
  then have "open_files v ! k \<noteq> None" if "k < length (open_files v)" for k using that nth_mem by blast
  then have "\<not> isl (get_open_file v k)" if "k < length (open_files v)" for k
    using that by (auto simp: get_open_file_def split: option.split)
  moreover have "fd = length (open_files v)" "v' = v\<lparr>open_files := open_files v @ [Some f]\<rparr>"
    using None assms by (simp_all add: alloc_fd_def)
  ultimately show ?thesis by (simp add: get_open_file_def nth_append)
next
  case (Some idx)
  then have "idx < length (open_files v) \<and> open_files v ! idx = None \<and> (\<forall>k<idx. open_files v ! k \<noteq> None)"
    using find_position_Some [OF Some] by blast
  with Some assms show ?thesis
    by (auto simp: alloc_fd_def get_open_file_def nth_list_update split: option.split if_splits)
qed

lemma alloc_fd_files:
  "alloc_fd f v = (fd, v') \<Longrightarrow> Some g \<in> set (open_files v') \<Longrightarrow> g = f \<or> Some g \<in> set (open_files v)"
  by (auto simp: alloc_fd_def split: option.splits dest!: set_update_subset_insert [THEN subsetD])

lemma set_offset_files:
  assumes "set_offset fd off v = (r, v')"
  shows "vfs_fs v' = vfs_fs v \<and> vfs_mounts v' = vfs_mounts v \<and>
    (Some g \<in> set (open_files v') \<longrightarrow> (\<exists>f. Some f \<in> set (open_files v) \<and> of_inode f = of_inode g))"
  using assms get_open_file_in [of v fd]
  by (fastforce simp: set_offset_def split: sum.splits dest!: set_update_subset_insert [THEN subsetD])

lemma kinds_rename_path: "kinds (snd (rename_path from to fs)) j = kinds fs j"
proof -
  have mut: "kinds fs2 j = kinds fs1 j" if "node_mut i f fs1 = (r, fs2)" "\<And>n. n_kind (f n) = n_kind n" for i f fs1 r fs2
    using kinds_node_mut [of f i fs1 j] that by simp
  show ?thesis
    unfolding rename_path_def by (auto simp: kinds_node_mut split: sum.splits option.splits prod.splits if_splits dest!: mut)
qed

lemma invalidate_files:
  "Some f \<in> set (open_files (invalidate_inode_descriptors i v)) \<longleftrightarrow> Some f \<in> set (open_files v) \<and> of_inode f \<noteq> i"
proof -
  let ?clear = "\<lambda>slot. case slot of Some g \<Rightarrow> if of_inode g = i then None else slot | None \<Rightarrow> slot"
  have files: "open_files (invalidate_inode_descriptors i v) = map ?clear (open_files v)"
    by (simp add: invalidate_inode_descriptors_def)
  have "Some f = ?clear slot \<longleftrightarrow> slot = Some f \<and> of_inode f \<noteq> i" for slot by (cases slot) auto
  then have "(\<exists>slot \<in> set (open_files v). Some f = ?clear slot) \<longleftrightarrow> Some f \<in> set (open_files v) \<and> of_inode f \<noteq> i"
    by (simp only:) blast
  then show ?thesis by (simp only: files set_map image_iff)
qed

section \<open>Every operation keeps them\<close>

text \<open>What the layer above relies on: a property \<open>J\<close> of the tree that the operations of the in-memory file system keep, renames
  under the condition \<open>R\<close>.\<close>

locale tree_invariant =
  fixes J :: "TmpFs \<Rightarrow> bool" and R :: "TmpFs \<Rightarrow> string \<Rightarrow> string \<Rightarrow> bool"
  assumes keep_insert: "J fs \<Longrightarrow> J (snd (insert_at k path fs))"
    and keep_write: "J fs \<Longrightarrow> J (snd (write_inode_at i off data fs))"
    and keep_truncate: "J fs \<Longrightarrow> J (snd (truncate_inode i fs))"
    and keep_remove: "J fs \<Longrightarrow> J (snd (remove_inode i fs))"
    and keep_cwd: "J fs \<Longrightarrow> node fs i = Inr n \<Longrightarrow> n_kind n = Directory \<Longrightarrow> J (fs\<lparr>cwd := i\<rparr>)"
    and keep_rename: "J fs \<Longrightarrow> R fs a b \<Longrightarrow> J (snd (rename_path a b fs))"
begin

lemma files_fs:
  assumes "files_inv J v" "J fs'" "\<And>f. Some f \<in> set (open_files v) \<Longrightarrow> kinds fs' (of_inode f) = kinds (vfs_fs v) (of_inode f)"
  shows "files_inv J (v\<lparr>vfs_fs := fs'\<rparr>)"
  using assms by (auto simp: files_inv_def)

lemma files_insert:
  assumes "files_inv J v" "insert_at k path (vfs_fs v) = (r, fs')"
  shows "files_inv J (v\<lparr>vfs_fs := fs'\<rparr>)"
proof (rule files_fs [OF assms(1)])
  show "J fs'" using keep_insert [of "vfs_fs v" k path] assms by (simp add: files_inv_def)
  show "kinds fs' (of_inode f) = kinds (vfs_fs v) (of_inode f)" if "Some f \<in> set (open_files v)" for f
    using that assms kinds_insert_at [of "vfs_fs v" "of_inode f" File k path] by (simp add: files_inv_def)
qed

lemma files_make_path:
  assumes "files_inv J v" "make_path st (insert_at k) msg E path v s = Some (r, v', s')"
  shows "files_inv J v'"
  using assms files_insert [OF assms(1), of k path]
  by (auto simp: make_path_def split: if_splits prod.splits sum.splits)

lemma files_set_offset: "files_inv J v \<Longrightarrow> files_inv J (snd (set_offset fd off v))"
  using set_offset_files [of fd off v "fst (set_offset fd off v)" "snd (set_offset fd off v)"]
  by (fastforce simp: files_inv_def)

lemma files_open_inode:
  assumes I: "files_inv J v" and O: "open_inode options i v = (r, v')"
  shows "files_inv J v'"
proof -
  define tr where "tr = (if oo_truncate options then truncate_inode i (vfs_fs v) else (Inr (), vfs_fs v))"
  have inv: "files_inv J (v\<lparr>vfs_fs := snd tr\<rparr>)" and kind: "kinds (snd tr) i = kinds (vfs_fs v) i"
    unfolding tr_def
    using I files_fs [OF I keep_truncate] kinds_data_ops(2) [of i "vfs_fs v"] by (auto simp: files_inv_def)
  show ?thesis
  proof (cases "kinds (vfs_fs v) i = Some File \<and> \<not> (oo_truncate options \<and> \<not> oo_write options) \<and> \<not> isl (fst tr)
      \<and> (oo_append options \<longrightarrow> \<not> isl (inode_len (snd tr) i))")
    case False
    then have "v' = v \<or> v' = v\<lparr>vfs_fs := snd tr\<rparr>"
      using O unfolding open_inode_def tr_def [symmetric] kinds_def
      by (cases tr) (auto simp: node_nmap split: option.splits sum.splits if_splits FileType.splits prod.splits)
    with I inv show ?thesis by auto
  next
    case True
    then obtain off where "alloc_fd \<lparr>of_inode = i, of_offset = off, of_readable = oo_read options,
        of_writable = oo_write options, of_append = oo_append options\<rparr> (v\<lparr>vfs_fs := snd tr\<rparr>) = (projr r, v')"
      using O unfolding open_inode_def tr_def [symmetric] kinds_def
      by (cases tr) (auto simp: node_nmap split: option.splits sum.splits if_splits prod.splits)
    then show ?thesis
      using inv alloc_fd_spec alloc_fd_files True kind unfolding files_inv_def by fastforce
  qed
qed

lemma files_open:
  assumes I: "files_inv J v" and O: "vfs_open path options v = Some (r, v')"
  shows "files_inv J v'"
proof -
  obtain abs' where "normalized_path (vfs_fs v) path = Some abs'" using O by (auto simp: vfs_open_def)
  define cr where "cr = (if oo_create options \<and> \<not> is_sys_path abs' \<and> isl (resolve (vfs_fs v) path)
      then fs_create path (vfs_fs v) else (Inr (), vfs_fs v))"
  obtain c fs' where c: "cr = (c, fs')" by (cases cr)
  have inv: "files_inv J (v\<lparr>vfs_fs := fs'\<rparr>)"
    using I c files_insert [OF I, of File path c fs'] by (auto simp: cr_def fs_create_def split: if_splits)
  have "v' = v \<or> v' = v\<lparr>vfs_fs := fs'\<rparr> \<or> (\<exists>i r. open_inode options i (v\<lparr>vfs_fs := fs'\<rparr>) = (r, v'))"
    using O \<open>normalized_path (vfs_fs v) path = Some abs'\<close> c unfolding vfs_open_def
    by (auto simp: cr_def [symmetric] split: if_splits sum.splits prod.splits)
  then show ?thesis using I inv files_open_inode [OF inv] by auto
qed

lemma files_close: "files_inv J v \<Longrightarrow> files_inv J (snd (close_fd fd v))"
  by (fastforce simp: close_fd_def files_inv_def dest!: set_update_subset_insert [THEN subsetD])

lemma files_read:
  assumes "files_inv J v"
  shows "files_inv J (snd (vfs_read fd n v))"
  using assms files_set_offset [OF assms, of fd] by (simp add: vfs_read_def split: sum.split)

lemma files_write_at:
  assumes "files_inv J v" "write_inode_at i off data (vfs_fs v) = (r, fs')"
  shows "files_inv J (v\<lparr>vfs_fs := fs'\<rparr>)"
proof (rule files_fs [OF assms(1)])
  show "J fs'" using keep_write [of "vfs_fs v" i off data] assms by (simp add: files_inv_def)
  show "kinds fs' (of_inode f) = kinds (vfs_fs v) (of_inode f)" if "Some f \<in> set (open_files v)" for f
    using kinds_data_ops(1) [of i off data "vfs_fs v"] assms(2) by simp
qed

lemma files_write:
  assumes "files_inv J v"
  shows "files_inv J (snd (vfs_write fd data v))"
  using assms files_write_at [OF assms] files_set_offset
  by (auto simp: vfs_write_def split: sum.split prod.split)

lemma files_seek:
  assumes "files_inv J v"
  shows "files_inv J (snd (vfs_seek fd from v))"
  using assms files_set_offset [OF assms, of fd] by (simp add: vfs_seek_def Let_def split: sum.split)

lemma files_unlink:
  assumes I: "files_inv J v" and U: "vfs_unlink E path v s = Some (r, v', s')"
  shows "files_inv J v'"
proof -
  have "v' = v \<or> (\<exists>i. resolve (vfs_fs v) path = Inr i \<and>
      v' = (invalidate_inode_descriptors i v)\<lparr>vfs_fs := snd (remove_inode i (vfs_fs v))\<rparr>)"
    using U by (auto simp: vfs_unlink_def invalidate_inode_descriptors_def fs_remove_def Let_def
        split: if_splits prod.splits sum.splits)
  then show ?thesis
  proof
    assume "\<exists>i. resolve (vfs_fs v) path = Inr i \<and>
      v' = (invalidate_inode_descriptors i v)\<lparr>vfs_fs := snd (remove_inode i (vfs_fs v))\<rparr>"
    then obtain i where v': "v' = (invalidate_inode_descriptors i v)\<lparr>vfs_fs := snd (remove_inode i (vfs_fs v))\<rparr>" by blast
    then show ?thesis
      using I keep_remove [of "vfs_fs v" i] by (auto simp: files_inv_def invalidate_files kinds_remove_inode)
  qed (use I in simp)
qed

lemma files_mount: "files_inv J v \<Longrightarrow> vfs_mount E path name ro v s = Some (r, v', s') \<Longrightarrow> files_inv J v'"
  by (auto simp: vfs_mount_def files_inv_def split: if_splits sum.splits)

lemma files_umount: "files_inv J v \<Longrightarrow> vfs_umount E path v s = Some (r, v', s') \<Longrightarrow> files_inv J v'"
  by (auto simp: vfs_umount_def files_inv_def Let_def split: if_splits)

lemma files_cd:
  assumes "files_inv J v"
  shows "files_inv J (snd (vfs_cd path v))"
proof -
  have "kinds (fs\<lparr>cwd := i\<rparr>) = kinds fs" for fs i by (simp add: kinds_def fun_eq_iff)
  then show ?thesis using assms keep_cwd by (auto simp: vfs_cd_def files_inv_def split: sum.split)
qed

lemma files_rename:
  assumes I: "files_inv J v" and S: "R (vfs_fs v) from to" and R: "vfs_rename E from to v s = Some (r, v', s')"
  shows "files_inv J v'"
proof -
  have "v' = v \<or> v' = v\<lparr>vfs_fs := snd (rename_path from to (vfs_fs v))\<rparr>"
    using R by (auto simp: vfs_rename_def split: option.splits if_splits prod.splits sum.splits)
  then show ?thesis using I keep_rename [OF _ S] by (auto simp: files_inv_def kinds_rename_path)
qed

end

interpretation shaped: tree_invariant tmpfs_inv safe_rename
  using insert_at_inv data_ops_inv remove_inode_inv cwd_inv safe_rename_inv by unfold_locales

text \<open>No property of the tree is needed to keep the descriptors valid, so there any rename is admitted.\<close>

interpretation shapeless: tree_invariant "\<lambda>_. True" "\<lambda>_ _ _. True"
  by unfold_locales simp_all

section \<open>Opening\<close>

lemma open_inode_ok:
  assumes I: "vfs_inv v" and O: "open_inode options i v = (Inr fd, v')"
  shows "\<exists>n. nmap (vfs_fs v') i = Some n \<and> n_kind n = File \<and> (oo_truncate options \<longrightarrow> n_data n = [])
    \<and> get_open_file v' fd = Inr \<lparr>of_inode = i, of_offset = if oo_append options then length (n_data n) else 0,
         of_readable = oo_read options, of_writable = oo_write options, of_append = oo_append options\<rparr>
    \<and> isl (get_open_file v fd) \<and> (\<forall>k<fd. \<not> isl (get_open_file v k))
    \<and> (\<forall>k. k \<noteq> fd \<longrightarrow> get_open_file v' k = get_open_file v k)
    \<and> (\<not> oo_truncate options \<longrightarrow> vfs_fs v' = vfs_fs v)
    \<and> resolve (vfs_fs v') = resolve (vfs_fs v) \<and> normalized_path (vfs_fs v') = normalized_path (vfs_fs v)"
proof -
  have IT: "tmpfs_inv (vfs_fs v)" using I by (simp add: files_inv_def)
  define tr where "tr = (if oo_truncate options then truncate_inode i (vfs_fs v) else (Inr (), vfs_fs v))"
  obtain n where n: "nmap (vfs_fs v) i = Some n" "n_kind n = File"
    using O by (auto simp: open_inode_def node_nmap split: option.splits if_splits FileType.splits)
  let ?n = "if oo_truncate options then n\<lparr>n_data := []\<rparr> else n"
  obtain fs' where fs': "tr = (Inr (), fs')" "nmap fs' = (nmap (vfs_fs v))(i \<mapsto> ?n)"
    "resolve fs' = resolve (vfs_fs v)" "root fs' = root (vfs_fs v)" "cwd fs' = cwd (vfs_fs v)"
    "\<not> oo_truncate options \<longrightarrow> fs' = vfs_fs v"
  proof (cases "oo_truncate options")
    case True
    obtain fs1 where t: "node_mut i (\<lambda>n. n\<lparr>n_data := []\<rparr>) (vfs_fs v) = (Inr (), fs1)"
      using node_mut_Some [OF n(1), of "\<lambda>n. n\<lparr>n_data := []\<rparr>"] by blast
    from data_update_keeps [OF IT n(1) t] have k: "nmap fs1 = (nmap (vfs_fs v))(i \<mapsto> ?n)"
      "resolve fs1 = resolve (vfs_fs v)" "root fs1 = root (vfs_fs v)" "cwd fs1 = cwd (vfs_fs v)"
      using True by (auto simp: fun_eq_iff)
    have "tr = (Inr (), fs1)" using True t n by (simp add: tr_def truncate_inode_def node_Inr [THEN iffD2])
    with k True that show thesis by blast
  next
    case False
    have "nmap (vfs_fs v) = (nmap (vfs_fs v))(i \<mapsto> n)" using n(1) by (simp add: fun_upd_idem)
    with False show thesis by (intro that [of "vfs_fs v"]) (simp_all add: tr_def)
  qed
  have len: "inode_len fs' i = Inr (length (n_data ?n))" using n fs'(2) by (simp add: inode_len_def node_Inr [THEN iffD2])
  have "alloc_fd \<lparr>of_inode = i, of_offset = if oo_append options then length (n_data ?n) else 0,
      of_readable = oo_read options, of_writable = oo_write options, of_append = oo_append options\<rparr>
      (v\<lparr>vfs_fs := fs'\<rparr>) = (fd, v')"
    using O n fs'(1) len unfolding open_inode_def tr_def [symmetric]
    by (auto simp: node_Inr [THEN iffD2] split: if_splits prod.splits)
  note al = alloc_fd_spec [OF this]
  have get: "get_open_file (v\<lparr>vfs_fs := fs'\<rparr>) = get_open_file v" by (simp add: get_open_file_def fun_eq_iff)
  have "normalized_path fs' p = normalized_path (vfs_fs v) p" for p
    by (rule normalized_path_mono [OF IT fs'(4,5)]) (use n in \<open>auto simp: fs'(2)\<close>)
  then have "normalized_path fs' = normalized_path (vfs_fs v)" by (simp add: fun_eq_iff)
  with al fs' n show ?thesis unfolding get by (intro exI [of _ ?n]) simp
qed

lemma vfs_open_ok:
  assumes I: "vfs_inv v" and O: "vfs_open path options v = Some (Inr fd, v')"
  shows "\<exists>i n. resolve (vfs_fs v') path = Inr i \<and> nmap (vfs_fs v') i = Some n \<and> n_kind n = File
    \<and> (oo_truncate options \<longrightarrow> n_data n = [])
    \<and> get_open_file v' fd = Inr \<lparr>of_inode = i, of_offset = if oo_append options then length (n_data n) else 0,
         of_readable = oo_read options, of_writable = oo_write options, of_append = oo_append options\<rparr>
    \<and> isl (get_open_file v fd) \<and> (\<forall>k<fd. \<not> isl (get_open_file v k))
    \<and> (\<forall>k. k \<noteq> fd \<longrightarrow> get_open_file v' k = get_open_file v k)
    \<and> (\<not> oo_truncate options \<and> \<not> oo_create options \<longrightarrow> vfs_fs v' = vfs_fs v)
    \<and> normalized_path (vfs_fs v') = normalized_path (vfs_fs v)"
proof -
  have IT: "tmpfs_inv (vfs_fs v)" using I by (simp add: files_inv_def)
  obtain abs' where ab: "normalized_path (vfs_fs v) path = Some abs'" using O by (auto simp: vfs_open_def)
  define cr where "cr = (if oo_create options \<and> \<not> is_sys_path abs' \<and> isl (resolve (vfs_fs v) path)
      then fs_create path (vfs_fs v) else (Inr (), vfs_fs v))"
  obtain fs' i where c: "cr = (Inr (), fs')" "resolve fs' path = Inr i" "open_inode options i (v\<lparr>vfs_fs := fs'\<rparr>) = (Inr fd, v')"
    using O ab unfolding vfs_open_def
    by (auto simp: cr_def [symmetric] split: if_splits sum.splits prod.splits)
  have inv: "vfs_inv (v\<lparr>vfs_fs := fs'\<rparr>)" and np: "normalized_path fs' = normalized_path (vfs_fs v)"
  proof (atomize (full), cases "cr = (Inr (), vfs_fs v)")
    case False
    then have cre: "insert_at File path (vfs_fs v) = (Inr (), fs')"
      using c(1) by (auto simp: cr_def fs_create_def split: if_splits)
    from insert_at_ok [OF IT cre] have "normalized_path fs' p = normalized_path (vfs_fs v) p" for p
      by (intro normalized_path_mono [OF IT]) blast+
    with shaped.files_insert [OF I cre] show "vfs_inv (v\<lparr>vfs_fs := fs'\<rparr>) \<and> normalized_path fs' = normalized_path (vfs_fs v)"
      by (simp add: fun_eq_iff)
  qed (use c I in auto)
  have get: "get_open_file (v\<lparr>vfs_fs := fs'\<rparr>) = get_open_file v" by (simp add: get_open_file_def fun_eq_iff)
  have same: "\<not> oo_create options \<longrightarrow> fs' = vfs_fs v" using c(1) by (auto simp: cr_def)
  from open_inode_ok [OF inv c(3)] obtain n where n: "nmap (vfs_fs v') i = Some n" "n_kind n = File"
    "oo_truncate options \<longrightarrow> n_data n = []"
    "get_open_file v' fd = Inr \<lparr>of_inode = i, of_offset = if oo_append options then length (n_data n) else 0,
         of_readable = oo_read options, of_writable = oo_write options, of_append = oo_append options\<rparr>"
    "isl (get_open_file v fd)" "\<forall>k<fd. \<not> isl (get_open_file v k)"
    "\<forall>k. k \<noteq> fd \<longrightarrow> get_open_file v' k = get_open_file v k"
    "\<not> oo_truncate options \<longrightarrow> vfs_fs v' = fs'" "resolve (vfs_fs v') = resolve fs'"
    "normalized_path (vfs_fs v') = normalized_path fs'" unfolding get by auto
  show ?thesis by (rule exI [of _ i], rule exI [of _ n]) (use n c np same in auto)
qed

section \<open>Reachable states\<close>

text \<open>One call of the interface that returns, with the other components in any state and renames under the condition \<open>R\<close>.\<close>

inductive vfs_step :: "'s env \<Rightarrow> (TmpFs \<Rightarrow> string \<Rightarrow> string \<Rightarrow> bool) \<Rightarrow> VfsState \<Rightarrow> VfsState \<Rightarrow> bool" for E R where
  step_mkdir: "vfs_mkdir E path v s = Some (r, v', s') \<Longrightarrow> vfs_step E R v v'"
| step_touch: "vfs_touch E path v s = Some (r, v', s') \<Longrightarrow> vfs_step E R v v'"
| step_mount: "vfs_mount E path name ro v s = Some (r, v', s') \<Longrightarrow> vfs_step E R v v'"
| step_umount: "vfs_umount E path v s = Some (r, v', s') \<Longrightarrow> vfs_step E R v v'"
| step_open: "vfs_open path options v = Some (fd, v') \<Longrightarrow> vfs_step E R v v'"
| step_close: "vfs_close fd v = (r, v') \<Longrightarrow> vfs_step E R v v'"
| step_read: "vfs_read fd n v = (d, v') \<Longrightarrow> vfs_step E R v v'"
| step_write: "vfs_write fd data v = (w, v') \<Longrightarrow> vfs_step E R v v'"
| step_seek: "vfs_seek fd from v = (p, v') \<Longrightarrow> vfs_step E R v v'"
| step_unlink: "vfs_unlink E path v s = Some (r, v', s') \<Longrightarrow> vfs_step E R v v'"
| step_rename: "R (vfs_fs v) a b \<Longrightarrow> vfs_rename E a b v s = Some (r, v', s') \<Longrightarrow> vfs_step E R v v'"
| step_cd: "vfs_cd path v = (r, v') \<Longrightarrow> vfs_step E R v v'"

context tree_invariant
begin

lemma files_step: "vfs_step E R v v' \<Longrightarrow> files_inv J v \<Longrightarrow> files_inv J v'"
proof (induction rule: vfs_step.induct)
  case step_mkdir then show ?case unfolding vfs_mkdir_def fs_mkdir_def by (rule files_make_path [rotated])
next
  case step_touch then show ?case unfolding vfs_touch_def fs_create_def by (rule files_make_path [rotated])
next
  case step_mount then show ?case by (rule files_mount [rotated])
next
  case step_umount then show ?case by (rule files_umount [rotated])
next
  case step_open then show ?case by (rule files_open [rotated])
next
  case (step_close fd v r v') then show ?case using files_close [of v fd] by (simp add: vfs_close_def)
next
  case (step_read fd n v d v') then show ?case using files_read [of v fd n] by simp
next
  case (step_write fd data v w v') then show ?case using files_write [of v fd data] by simp
next
  case (step_seek fd x v p v') then show ?case using files_seek [of v fd x] by simp
next
  case step_unlink then show ?case by (rule files_unlink [rotated])
next
  case step_rename then show ?case by (rule files_rename [rotated])
next
  case (step_cd path v r v') then show ?case using files_cd [of v path] by simp
qed

lemma files_reach: "(vfs_step E R)\<^sup>*\<^sup>* v v' \<Longrightarrow> files_inv J v \<Longrightarrow> files_inv J v'"
  by (induction rule: rtranclp_induct) (simp_all add: files_step)

end

lemma fold_make_inv:
  assumes "\<And>x fs. tmpfs_inv fs \<Longrightarrow> tmpfs_inv (f x fs)" "tmpfs_inv fs"
  shows "tmpfs_inv (fold f xs fs)"
  using assms(2) by (induction xs arbitrary: fs) (simp_all add: assms(1))

lemma vfs_new_inv: "vfs_inv vfs_new"
proof -
  have mk: "tmpfs_inv (fold (\<lambda>path fs. snd (fs_mkdir path fs)) ps fs)" if "tmpfs_inv fs" for ps fs
    by (rule fold_make_inv [OF _ that]) (simp add: fs_mkdir_def insert_at_inv)
  have cr: "tmpfs_inv (fold (\<lambda>name fs. snd (fs_create (''/bin/'' @ name) fs)) ps fs)" if "tmpfs_inv fs" for ps fs
    by (rule fold_make_inv [OF _ that]) (simp add: fs_create_def insert_at_inv)
  have "tmpfs_inv (seed_standard_tree tmpfs_new)"
    unfolding seed_standard_tree_def Let_def using tmpfs_new_inv by (intro cr mk)
  then show ?thesis by (simp only: files_inv_def vfs_new_def VfsState.simps) simp
qed

lemma vfs_new_files: "files_inv (\<lambda>_. True) vfs_new"
  using vfs_new_inv by (simp add: files_inv_def)

lemma set_offset_ok: "get_open_file v fd = Inr f \<Longrightarrow> \<exists>v'. set_offset fd off v = (Inr (), v') \<and> vfs_fs v' = vfs_fs v
    \<and> get_open_file v' fd = Inr (f\<lparr>of_offset := off\<rparr>) \<and> (\<forall>k. k \<noteq> fd \<longrightarrow> get_open_file v' k = get_open_file v k)"
  by (auto simp: set_offset_def get_open_file_def nth_list_update split: option.splits if_splits)

lemma vfs_seek_succeeds:
  assumes "get_open_file v fd = Inr f" and "inode_len (vfs_fs v) (of_inode f) = Inr n"
  shows "\<exists>p v'. vfs_seek fd from v = (Inr p, v')"
proof -
  obtain c where "vfs_seek fd from v = (case set_offset fd c v of (Inl e, v') \<Rightarrow> (Inl e, v') | (Inr _, v') \<Rightarrow> (Inr c, v'))"
    using assms by (simp add: vfs_seek_def Let_def)
  then show ?thesis using set_offset_ok [OF assms(1), of c] by auto
qed

lemma open_use_close_None: "open_use_close path options use v = None \<longleftrightarrow> vfs_open path options v = None"
  by (simp add: open_use_close_def)

text \<open>A system without mounted volumes, used in the examples below.\<close>

definition bare_env :: "unit env" where
  "bare_env = \<lparr>storage_backed = \<lambda>_ _. False, storage_mkdir = \<lambda>_ _. (Inl ''no volume'', ()),
     storage_create = \<lambda>_ _. (Inl ''no volume'', ()), storage_delete = \<lambda>_ _. (Inl ''no volume'', ()),
     storage_rename = \<lambda>_ _ _. (Inl ''no volume'', ()), storage_write = \<lambda>_ _ _. (Inl ''no volume'', ()),
     storage_read = \<lambda>_ _. (Inl ''no volume'', ()), storage_readdir = \<lambda>_ _. (Inl ''no volume'', ()),
     storage_stat = \<lambda>_ _. (Inl ''no volume'', ()), sys_readdir = \<lambda>_ _. (None, ()), sys_read = \<lambda>_ _. (None, ()),
     device_names = \<lambda>_. [], log_event = \<lambda>_ _. ()\<rparr>"

section \<open>Properties\<close>

text \<open>C3: descriptors never dangle.  In every state reached from the initial one by any sequence of operations that return,
  renames of any kind included, whatever the storage driver and the object manager do, an open descriptor
  names an existing regular file: a read through a readable descriptor, a write through a writable one and
  a seek succeed.\<close>

theorem vfs_descriptors_valid:
  assumes "(vfs_step E (\<lambda>_ _ _. True))\<^sup>*\<^sup>* vfs_new v" and "get_open_file v fd = Inr f"
  shows "(\<exists>d. node (vfs_fs v) (of_inode f) = Inr d \<and> n_kind d = File)
    \<and> (of_readable f \<longrightarrow> (\<exists>bytes. fst (vfs_read fd n v) = Inr bytes))
    \<and> (of_writable f \<longrightarrow> fst (vfs_write fd data v) = Inr (length data))
    \<and> (\<exists>p. fst (vfs_seek fd from v) = Inr p)"
proof -
  have "kinds (vfs_fs v) (of_inode f) = Some File"
    using shapeless.files_reach [OF assms(1) vfs_new_files] get_open_file_in [OF assms(2)] by (simp add: files_inv_def)
  then obtain d where d: "node (vfs_fs v) (of_inode f) = Inr d" "n_kind d = File" by (auto simp: kinds_def node_Inr)
  have set1: "\<exists>v'. set_offset fd off v = (Inr (), v')" for off using set_offset_ok [OF assms(2)] by blast
  have "get_open_file (v\<lparr>vfs_fs := fs'\<rparr>) fd = Inr f" for fs' using assms(2) unfolding get_open_file_Inr by simp
  then have set2: "\<exists>v'. set_offset fd off (v\<lparr>vfs_fs := fs'\<rparr>) = (Inr (), v')" for off fs' using set_offset_ok by blast
  have "\<exists>bytes. fst (vfs_read fd n v) = Inr bytes" if "of_readable f"
  proof -
    have "\<exists>bytes. read_inode_range (vfs_fs v) (of_inode f) (of_offset f) n = Inr bytes"
      using d by (simp add: read_inode_range_def)
    then obtain bytes where "read_inode_range (vfs_fs v) (of_inode f) (of_offset f) n = Inr bytes" by blast
    with that assms(2) set1 [of "of_offset f + length bytes"] show ?thesis by (auto simp: vfs_read_def)
  qed
  moreover have "fst (vfs_write fd data v) = Inr (length data)" if "of_writable f"
  proof -
    let ?off = "if of_append f then length (n_data d) else of_offset f"
    obtain fs' where w: "write_inode_at (of_inode f) ?off data (vfs_fs v) = (Inr (length data), fs')"
      using d by (simp add: write_inode_at_def)
    obtain v' where "set_offset fd (?off + length data) (v\<lparr>vfs_fs := fs'\<rparr>) = (Inr (), v')"
      using set2 [of "?off + length data" fs'] by blast
    moreover have "(if of_append f then inode_len (vfs_fs v) (of_inode f) else Inr (of_offset f)) = Inr ?off"
      using d by (simp add: inode_len_def)
    ultimately show ?thesis using that assms(2) w by (simp add: vfs_write_def)
  qed
  moreover have "\<exists>p. fst (vfs_seek fd from v) = Inr p"
  proof -
    have "inode_len (vfs_fs v) (of_inode f) = Inr (length (n_data d))" using d by (simp add: inode_len_def)
    then obtain p v' where "vfs_seek fd from v = (Inr p, v')" using vfs_seek_succeeds [OF assms(2)] by blast
    then show ?thesis by simp
  qed
  ultimately show ?thesis using d by blast
qed

theorem vfs_descriptors_valid_witness:
  "\<exists>fd v f. vfs_open ''/bin/ls'' read_only vfs_new = Some (Inr fd, v) \<and> get_open_file v fd = Inr f
    \<and> (\<exists>bytes. fst (vfs_read fd 16 v) = Inr bytes)"
proof -
  have "case vfs_open ''/bin/ls'' read_only vfs_new of
      Some (Inr fd, v) \<Rightarrow> (case get_open_file v fd of Inr f \<Rightarrow> of_readable f | Inl _ \<Rightarrow> False) | _ \<Rightarrow> False" by code_simp
  then obtain fd v f where o: "vfs_open ''/bin/ls'' read_only vfs_new = Some (Inr fd, v)" "get_open_file v fd = Inr f" "of_readable f"
    by (auto split: option.splits prod.splits sum.splits)
  have "(vfs_step bare_env (\<lambda>_ _ _. True))\<^sup>*\<^sup>* vfs_new v" using vfs_step.step_open [OF o(1)] by blast
  from vfs_descriptors_valid [OF this o(2), of 16] o show ?thesis by blast
qed

text \<open>C40: no path operation hangs while renames are safe.  In every state reached by operations whose renames have their
  destination in a directory outside the moved subtree, \<open>pwd\<close> returns a path that resolves to the working
  directory, and the operations that start by normalising a path return.\<close>

theorem vfs_paths_return:
  assumes "(vfs_step E safe_rename)\<^sup>*\<^sup>* vfs_new v"
  shows "(\<exists>p. vfs_pwd v = Some p \<and> resolve (vfs_fs v) p = Inr (cwd (vfs_fs v)))
    \<and> vfs_open path options v \<noteq> None \<and> vfs_mkdir E path v s \<noteq> None \<and> vfs_touch E path v s \<noteq> None
    \<and> vfs_unlink E path v s \<noteq> None \<and> vfs_rename E path dest v s \<noteq> None
    \<and> vfs_mount E path name ro v s \<noteq> None \<and> vfs_umount E path v s \<noteq> None \<and> vfs_open_node E path v s \<noteq> None
    \<and> vfs_read_path E path v s \<noteq> None \<and> vfs_write_path E path data v s \<noteq> None"
proof -
  have I: "tmpfs_inv (vfs_fs v)" using shaped.files_reach [OF assms vfs_new_inv] by (simp add: files_inv_def)
  obtain abs' where ab: "normalized_path (vfs_fs v) path = Some abs'" using normalized_path_returns [OF I] by blast
  obtain abs2 where ab2: "normalized_path (vfs_fs v) dest = Some abs2" using normalized_path_returns [OF I] by blast
  obtain n where n: "nmap (vfs_fs v) (cwd (vfs_fs v)) = Some n" using tmpfs_invD(3) [OF I] by blast
  have "\<exists>p. vfs_pwd v = Some p \<and> resolve (vfs_fs v) p = Inr (cwd (vfs_fs v))"
    using path_for_inode_resolves [OF I n] unfolding vfs_pwd_def cwd_path_def by blast
  moreover have opens: "vfs_open path options v \<noteq> None" for options using ab by (simp add: vfs_open_def)
  moreover have "vfs_mkdir E path v s \<noteq> None" "vfs_touch E path v s \<noteq> None" "vfs_unlink E path v s \<noteq> None"
    "vfs_rename E path dest v s \<noteq> None" "vfs_mount E path name ro v s \<noteq> None" "vfs_umount E path v s \<noteq> None"
    "vfs_open_node E path v s \<noteq> None"
    using ab ab2 by (simp_all add: vfs_mkdir_def vfs_touch_def make_path_def vfs_unlink_def vfs_rename_def vfs_mount_def
        vfs_umount_def vfs_open_node_def)
  moreover have "vfs_read_path E path v s \<noteq> None" "vfs_write_path E path data v s \<noteq> None"
    using ab opens unfolding vfs_read_path_def vfs_write_path_def
    by (simp_all add: open_use_close_None split: prod.split option.split del: not_None_eq)
  ultimately show ?thesis by blast
qed

theorem vfs_paths_return_witness: "\<exists>p. vfs_pwd vfs_new = Some p"
  using vfs_paths_return [of bare_env vfs_new] by blast

lemma close_fd_ok:
  assumes "get_open_file v fd = Inr f"
  shows "\<exists>v'. close_fd fd v = (Inr (), v') \<and> vfs_fs v' = vfs_fs v \<and> isl (get_open_file v' fd)
    \<and> (\<forall>k. k \<noteq> fd \<longrightarrow> get_open_file v' k = get_open_file v k)"
  using assms unfolding get_open_file_Inr
  by (auto simp: close_fd_def get_open_file_def nth_list_update split: option.splits if_splits)

lemma isl_get_open_file: "isl (get_open_file v k) \<Longrightarrow> get_open_file v k = Inl ''bad file descriptor''"
  by (auto simp: get_open_file_def split: option.splits if_splits)

lemma open_use_close_opened:
  assumes "open_use_close path options use v = Some (Inr x, v')"
  shows "\<exists>fd v1. vfs_open path options v = Some (Inr fd, v1)"
proof -
  obtain r v1 where "vfs_open path options v = Some (r, v1)" using assms by (auto simp: open_use_close_def)
  with assms show ?thesis by (cases r) (simp_all add: open_use_close_def)
qed

lemma write_path_succeeds:
  assumes I: "vfs_inv v" and o: "vfs_open path write_only_create v = Some (Inr fd, v1)"
  shows "\<exists>k v'. open_use_close path write_only_create (\<lambda>fd. vfs_write fd data) v = Some (Inr k, v')"
proof -
  obtain i n where i: "nmap (vfs_fs v1) i = Some n" "n_kind n = File"
    "get_open_file v1 fd = Inr \<lparr>of_inode = i, of_offset = 0, of_readable = False, of_writable = True, of_append = False\<rparr>"
    using vfs_open_ok [OF I o] by (auto simp: write_only_create_def)
  obtain fs' where w: "write_inode_at i 0 data (vfs_fs v1) = (Inr (length data), fs')"
    using i by (simp add: write_inode_at_def node_Inr [THEN iffD2])
  have "get_open_file (v1\<lparr>vfs_fs := fs'\<rparr>) fd = get_open_file v1 fd" by (simp add: get_open_file_def)
  with i(3) obtain v2 f where v2: "set_offset fd (length data) (v1\<lparr>vfs_fs := fs'\<rparr>) = (Inr (), v2)" "get_open_file v2 fd = Inr f"
    using set_offset_ok [of "v1\<lparr>vfs_fs := fs'\<rparr>" fd _ "length data"] by (metis (no_types, lifting))
  obtain v3 where v3: "close_fd fd v2 = (Inr (), v3)" using close_fd_ok [OF v2(2)] by blast
  have "vfs_write fd data v1 = (Inr (length data), v2)" using i(3) w v2 by (simp add: vfs_write_def)
  then show ?thesis using o v3 by (simp add: open_use_close_def vfs_close_def)
qed

lemma write_path_data:
  assumes I: "vfs_inv v" and W: "open_use_close path write_only_create (\<lambda>fd. vfs_write fd data) v = Some (Inr k, v')"
  shows "vfs_inv v' \<and> (\<exists>i n. resolve (vfs_fs v') path = Inr i \<and> nmap (vfs_fs v') i = Some n \<and> n_kind n = File \<and> n_data n = data)
    \<and> normalized_path (vfs_fs v') = normalized_path (vfs_fs v) \<and> get_open_file v' = get_open_file v"
proof -
  obtain fd v1 where o: "vfs_open path write_only_create v = Some (Inr fd, v1)" using open_use_close_opened [OF W] by blast
  obtain i n where i: "resolve (vfs_fs v1) path = Inr i" "nmap (vfs_fs v1) i = Some n" "n_kind n = File" "n_data n = []"
    "get_open_file v1 fd = Inr \<lparr>of_inode = i, of_offset = 0, of_readable = False, of_writable = True, of_append = False\<rparr>"
    "isl (get_open_file v fd)" "\<forall>k. k \<noteq> fd \<longrightarrow> get_open_file v1 k = get_open_file v k"
    "normalized_path (vfs_fs v1) = normalized_path (vfs_fs v)"
    using vfs_open_ok [OF I o] by (auto simp: write_only_create_def)
  have I1: "vfs_inv v1" by (rule shaped.files_open [OF I o])
  then have T1: "tmpfs_inv (vfs_fs v1)" by (simp add: files_inv_def)
  obtain fs' where m: "node_mut i (\<lambda>n. n\<lparr>n_data := overwrite 0 data (n_data n)\<rparr>) (vfs_fs v1) = (Inr (), fs')"
    using node_mut_Some [OF i(2), of "\<lambda>n. n\<lparr>n_data := overwrite 0 data (n_data n)\<rparr>"] by blast
  note keep = data_update_keeps [OF T1 i(2) m]
  have np: "normalized_path fs' p = normalized_path (vfs_fs v1) p" for p
    by (rule normalized_path_mono [OF T1 keep(4,5)]) (use i(2) in \<open>auto simp: keep(2)\<close>)
  have g: "get_open_file (v1\<lparr>vfs_fs := fs'\<rparr>) = get_open_file v1" by (simp add: fun_eq_iff get_open_file_def)
  have w: "write_inode_at i 0 data (vfs_fs v1) = (Inr (length data), fs')"
    using i m by (simp add: write_inode_at_def node_Inr [THEN iffD2])
  obtain v2 where v2: "set_offset fd (length data) (v1\<lparr>vfs_fs := fs'\<rparr>) = (Inr (), v2)" "vfs_fs v2 = fs'"
    "\<exists>f. get_open_file v2 fd = Inr f" "\<forall>k. k \<noteq> fd \<longrightarrow> get_open_file v2 k = get_open_file v1 k"
    using set_offset_ok [of "v1\<lparr>vfs_fs := fs'\<rparr>" fd] i(5) unfolding g by fastforce
  have wr: "vfs_write fd data v1 = (Inr (length data), v2)" using i(5) w v2 by (simp add: vfs_write_def)
  obtain v3 where v3: "close_fd fd v2 = (Inr (), v3)" "vfs_fs v3 = fs'" "isl (get_open_file v3 fd)"
    "\<forall>k. k \<noteq> fd \<longrightarrow> get_open_file v3 k = get_open_file v2 k" using close_fd_ok v2 by metis
  have v': "v' = v3" using W o wr v3 by (simp add: open_use_close_def vfs_close_def)
  have "get_open_file v3 k = get_open_file v k" for k
    using v3 v2 i(6,7) isl_get_open_file by (cases "k = fd") metis+
  moreover have "vfs_inv v2" using shaped.files_write [OF I1, of fd data] wr by simp
  then have "vfs_inv v3" using shaped.files_close [of v2 fd] v3 by simp
  moreover have "overwrite 0 data [] = data" by (simp add: overwrite_def)
  ultimately show ?thesis unfolding v' v3(2) using keep i np by (auto simp: fun_eq_iff)
qed

lemma read_path_data:
  assumes I: "vfs_inv v" and R: "resolve (vfs_fs v) path = Inr i" "nmap (vfs_fs v) i = Some n" "n_kind n = File"
    and L: "length (n_data n) < 2 ^ 64" and A: "normalized_path (vfs_fs v) path = Some a"
  shows "\<exists>v'. open_use_close path read_only (\<lambda>fd. vfs_read fd (2 ^ 64 - 1)) v = Some (Inr (n_data n), v')
    \<and> vfs_fs v' = vfs_fs v \<and> get_open_file v' = get_open_file v"
proof -
  have "\<exists>fd v1. vfs_open path read_only v = Some (Inr fd, v1)"
    using A R by (simp add: vfs_open_def read_only_def open_inode_def node_Inr [THEN iffD2] split: prod.split)
  then obtain fd v1 where o: "vfs_open path read_only v = Some (Inr fd, v1)" by blast
  have i: "vfs_fs v1 = vfs_fs v"
    "get_open_file v1 fd = Inr \<lparr>of_inode = i, of_offset = 0, of_readable = True, of_writable = False, of_append = False\<rparr>"
    "isl (get_open_file v fd)" "\<forall>k. k \<noteq> fd \<longrightarrow> get_open_file v1 k = get_open_file v k"
    using vfs_open_ok [OF I o] R by (auto simp: read_only_def)
  have rd: "read_inode_range (vfs_fs v1) i 0 (2 ^ 64 - 1) = Inr (n_data n)"
    using R L i(1) by (simp add: read_inode_range_def node_Inr [THEN iffD2])
  obtain v2 where v2: "set_offset fd (length (n_data n)) v1 = (Inr (), v2)" "vfs_fs v2 = vfs_fs v"
    "\<exists>f. get_open_file v2 fd = Inr f" "\<forall>k. k \<noteq> fd \<longrightarrow> get_open_file v2 k = get_open_file v1 k"
    using set_offset_ok [OF i(2), of "length (n_data n)"] i(1) by fastforce
  have re: "vfs_read fd (2 ^ 64 - 1) v1 = (Inr (n_data n), v2)" using i(2) rd v2 unfolding vfs_read_def by simp
  obtain v3 where v3: "close_fd fd v2 = (Inr (), v3)" "vfs_fs v3 = vfs_fs v" "isl (get_open_file v3 fd)"
    "\<forall>k. k \<noteq> fd \<longrightarrow> get_open_file v3 k = get_open_file v2 k" using close_fd_ok v2 by metis
  have "open_use_close path read_only (\<lambda>fd. vfs_read fd (2 ^ 64 - 1)) v = Some (Inr (n_data n), v3)"
    using o re v3 unfolding open_use_close_def vfs_close_def by simp
  moreover have "get_open_file v3 k = get_open_file v k" for k
    using v3 v2 i(3,4) isl_get_open_file by (cases "k = fd") metis+
  ultimately show ?thesis using v3(2) by (auto simp: fun_eq_iff)
qed

lemma write_then_read_path:
  assumes "vfs_inv v" and "normalized_path (vfs_fs v) path = Some a" and "\<not> is_sys_path a"
    and "\<not> storage_backed E s a" and "length data < 2 ^ 64"
    and "vfs_write_path E path data v s = Some (Inr (), v1, s1)"
  shows "\<exists>v2. vfs_read_path E path v1 s1 = Some (Inr data, v2, s1) \<and> vfs_fs v2 = vfs_fs v1 \<and> vfs_inv v1
    \<and> s1 = s \<and> get_open_file v2 = get_open_file v"
proof -
  obtain k v' where w: "open_use_close path write_only_create (\<lambda>fd. vfs_write fd data) v = Some (Inr k, v')"
    and out: "v1 = v'" "s1 = s"
  proof -
    obtain r v' where o: "open_use_close path write_only_create (\<lambda>fd. vfs_write fd data) v = Some (r, v')"
      using assms(2,4,6) by (auto simp: vfs_write_path_def)
    with assms(2,4,6) that show thesis by (cases r) (simp_all add: vfs_write_path_def)
  qed
  from write_path_data [OF assms(1) w] obtain i n where
    d: "vfs_inv v'" "resolve (vfs_fs v') path = Inr i" "nmap (vfs_fs v') i = Some n" "n_kind n = File" "n_data n = data"
    "normalized_path (vfs_fs v') = normalized_path (vfs_fs v)" "get_open_file v' = get_open_file v" by blast
  have "normalized_path (vfs_fs v') path = Some a" using d(6) assms(2) by simp
  from read_path_data [OF d(1-4) _ this] assms(5) d(5) obtain v2 where
    "open_use_close path read_only (\<lambda>fd. vfs_read fd (2 ^ 64 - 1)) v' = Some (Inr data, v2)"
    "vfs_fs v2 = vfs_fs v'" "get_open_file v2 = get_open_file v'" by auto
  then show ?thesis using d(1,6,7) assms(2-4) out unfolding vfs_read_path_def by simp
qed

text \<open>C16: writing a file by path and reading it by path.  The normalised path decides.  On a mounted volume the write is exactly the
  driver's write of that path and the state of the layer is unchanged; a later read outside \<open>/sys\<close> is exactly the driver's
  read.  A path under \<open>/sys\<close> that is not on a volume is refused and nothing changes.  For every other path a successful
  write is read back, after both calls every descriptor is as before, and the tree invariant holds.\<close>

theorem vfs_write_read_path:
  assumes "vfs_inv v" and "normalized_path (vfs_fs v) path = Some a" and "length data < 2 ^ 64"
    and "vfs_write_path E path data v s = Some (r, v1, s1)"
  shows "if storage_backed E s a then (r, s1) = storage_write E a data s \<and> v1 = v
      \<and> (\<not> is_sys_path a \<and> storage_backed E s1 a \<longrightarrow> vfs_read_path E path v1 s1 =
           Some (fst (storage_read E a s1), v1, snd (storage_read E a s1)))
    else if is_sys_path a then r = Inl ''read-only virtual path'' \<and> v1 = v \<and> s1 = s
    else s1 = s \<and> (r = Inr () \<longrightarrow> (\<exists>v2. vfs_read_path E path v1 s1 = Some (Inr data, v2, s1) \<and> vfs_fs v2 = vfs_fs v1 \<and> vfs_inv v1
      \<and> get_open_file v2 = get_open_file v))"
proof -
  consider (volume) "storage_backed E s a" | (sys) "\<not> storage_backed E s a" "is_sys_path a"
    | (plain) "\<not> storage_backed E s a" "\<not> is_sys_path a" by blast
  then show ?thesis
  proof cases
    case volume
    then show ?thesis using assms(2,4) by (auto simp: vfs_write_path_def vfs_read_path_def split: prod.splits)
  next
    case sys
    then have "vfs_open path write_only_create v = Some (Inl ''read-only virtual path'', v)"
      using assms(2) by (simp add: vfs_open_def write_only_create_def)
    then show ?thesis using assms(2,4) sys by (auto simp: vfs_write_path_def open_use_close_def)
  next
    case plain
    obtain q v' where "open_use_close path write_only_create (\<lambda>fd. vfs_write fd data) v = Some (q, v')"
      using plain assms(2,4) by (auto simp: vfs_write_path_def)
    then have "s1 = s" using plain assms(2,4) by (cases q) (auto simp: vfs_write_path_def)
    then show ?thesis using plain assms(4) write_then_read_path [OF assms(1,2) plain(2,1) assms(3)] by auto
  qed
qed

theorem vfs_write_read_path_witness:
  "\<exists>v1 v2. vfs_write_path bare_env ''/tmp/a'' [1, 2, 3] vfs_new () = Some (Inr (), v1, ())
    \<and> vfs_read_path bare_env ''/tmp/a'' v1 () = Some (Inr [1, 2, 3], v2, ())"
proof -
  have n: "normalized_path (vfs_fs vfs_new) ''/tmp/a'' = Some ''/tmp/a''" "\<not> is_sys_path ''/tmp/a''" by code_simp+
  have "case open_use_close ''/tmp/a'' write_only_create (\<lambda>fd. vfs_write fd [1, 2, 3]) vfs_new of
      Some (Inr k, v1) \<Rightarrow> True | _ \<Rightarrow> False" by code_simp
  then obtain k v1 where "open_use_close ''/tmp/a'' write_only_create (\<lambda>fd. vfs_write fd [1, 2, 3]) vfs_new = Some (Inr k, v1)"
    by (auto split: option.splits prod.splits sum.splits)
  then have w: "vfs_write_path bare_env ''/tmp/a'' [1, 2, 3] vfs_new () = Some (Inr (), v1, ())"
    using n by (simp add: vfs_write_path_def bare_env_def)
  from vfs_write_read_path [OF vfs_new_inv n(1) _ w] show ?thesis using w n(2) by (auto simp: bare_env_def)
qed

text \<open>After a successful seek the descriptor's offset is the returned position, which never lies beyond the end of
  the file; no other descriptor and no file changes.\<close>

lemma vfs_seek_bounds:
  assumes "vfs_seek fd from v = (Inr p, v')" and "inode_len (vfs_fs v) (of_inode f) = Inr n" and "n < 2 ^ 63"
    and "get_open_file v fd = Inr f"
  shows "p \<le> n \<and> vfs_fs v' = vfs_fs v \<and> get_open_file v' fd = Inr (f\<lparr>of_offset := p\<rparr>)
    \<and> (\<forall>k. k \<noteq> fd \<longrightarrow> get_open_file v' k = get_open_file v k)
    \<and> (\<forall>pos. from = Start pos \<longrightarrow> pos \<le> n \<longrightarrow> p = pos)"
proof -
  have len: "as_isize m = int m" if "m < 2 ^ 63" for m using that by (simp add: as_isize_def)
  define target where "target = (case from of Start pos \<Rightarrow> as_isize pos
    | Current delta \<Rightarrow> isize_saturating_add (as_isize (of_offset f)) delta
    | End delta \<Rightarrow> isize_saturating_add (as_isize n) delta)"
  have t: "vfs_seek fd from v = (case set_offset fd
        (if target < 0 then 0 else if int n < target then n else nat target) v of
      (Inl e, v') \<Rightarrow> (Inl e, v') |
      (Inr _, v') \<Rightarrow> (Inr (if target < 0 then 0 else if int n < target then n else nat target), v'))"
    unfolding vfs_seek_def target_def Let_def assms(2,4) sum.case len [OF assms(3)] nat_int by (rule refl)
  have st: "target = as_isize pos" if "from = Start pos" for pos using that by (simp add: target_def)
  let ?c = "if target < 0 then 0 else if int n < target then n else nat target"
  obtain v2 where v2: "set_offset fd ?c v = (Inr (), v2)" "vfs_fs v2 = vfs_fs v"
    "get_open_file v2 fd = Inr (f\<lparr>of_offset := ?c\<rparr>)" "\<forall>k. k \<noteq> fd \<longrightarrow> get_open_file v2 k = get_open_file v k"
    using set_offset_ok [OF assms(4), of ?c] by blast
  have p: "p = ?c" "v' = v2" using assms(1) unfolding t v2(1) by simp_all
  have "pos \<le> n \<longrightarrow> p = pos" if "from = Start pos" for pos
    using st that len [of pos] assms(3) unfolding p by auto
  then show ?thesis using v2 p by auto
qed

end
