(* ===== verification/Program_Image.thy ===== *)
theory Program_Image
  imports Text
begin

text \<open>
  Program images: the ELF reader and the text format of \<^verbatim>\<open>seed/saios/src/shell/programs.rs\<close>
  (\<open>binary_metadata\<close> and what it calls) and the symbol linker \<^verbatim>\<open>seed/saios/src/kernel/dynamic_linker.rs\<close>.
  File contents are byte lists; the integers read from them are natural numbers below their width, and
  the checked additions of the source are written out.  What is read through SAIFS is the argument \<open>fs\<close>.
  Shown are that reading inverts the little-endian writers, that names found in a dynamic section lie
  inside its string table, and that the linker resolves exactly what is required.
\<close>

section \<open>Constants and data\<close>

abbreviation ELF_MAGIC :: "u8 list" where "ELF_MAGIC \<equiv> [0x7F, 0x45, 0x4C, 0x46]"

abbreviation ELFCLASS64 :: u8 where "ELFCLASS64 \<equiv> 2"

abbreviation ELFDATA2LSB :: u8 where "ELFDATA2LSB \<equiv> 1"

abbreviation EM_X86_64 :: nat where "EM_X86_64 \<equiv> 62"

abbreviation ET_DYN :: nat where "ET_DYN \<equiv> 3"

abbreviation PT_LOAD :: nat where "PT_LOAD \<equiv> 1"

abbreviation PT_DYNAMIC :: nat where "PT_DYNAMIC \<equiv> 2"

abbreviation PT_INTERP :: nat where "PT_INTERP \<equiv> 3"

abbreviation DT_NULL :: int where "DT_NULL \<equiv> 0"

abbreviation DT_NEEDED :: int where "DT_NEEDED \<equiv> 1"

abbreviation DT_STRTAB :: int where "DT_STRTAB \<equiv> 5"

abbreviation DT_STRSZ :: int where "DT_STRSZ \<equiv> 10"

abbreviation DEFAULT_USER_PROGRAM_BASE :: nat where "DEFAULT_USER_PROGRAM_BASE \<equiv> 0x400000"

record BinaryMetadata =
  bm_entry :: string
  bm_pie :: bool
  bm_preferred_base :: nat
  bm_dynamic :: bool
  bm_interpreter :: "string option"
  bm_needed_libraries :: "string list"
  bm_required_symbols :: "string list"

record ElfProgramHeader =
  p_type :: nat
  p_offset :: nat
  p_vaddr :: nat
  p_filesz :: nat

text \<open>The part of SAIFS the loader uses: whether a path opens, its text, its bytes.\<close>

record saifs_view =
  sf_open :: "string \<Rightarrow> bool"
  sf_read_text :: "string \<Rightarrow> string option"
  sf_read :: "string \<Rightarrow> u8 list option"

section \<open>Reading values\<close>

definition parse_u64_value :: "string \<Rightarrow> nat option" where
  "parse_u64_value raw =
     (let trimmed = trim raw
      in case (case strip_prefix trimmed ''0x'' of Some h \<Rightarrow> Some h | None \<Rightarrow> strip_prefix trimmed ''0X'') of
           Some hex \<Rightarrow> parse_radix 16 (2 ^ 64) hex
         | None \<Rightarrow> parse_radix 10 (2 ^ 64) trimmed)"

definition parse_csv_values :: "string \<Rightarrow> string list" where
  "parse_csv_values raw = filter (\<lambda>v. v \<noteq> []) (map trim (split_char (CHR '','') raw))"

fun le_value :: "u8 list \<Rightarrow> nat" where
  "le_value [] = 0"
| "le_value (b # bs) = unat b + 256 * le_value bs"

text \<open>\<open>read_u16_le\<close>, \<open>read_u32_le\<close> and \<open>read_u64_le\<close> differ in the number of bytes.\<close>

definition read_le :: "nat \<Rightarrow> u8 list \<Rightarrow> nat \<Rightarrow> nat option" where
  "read_le k bytes offset =
     (if offset + k < 2 ^ 64 \<and> offset + k \<le> length bytes then Some (le_value (take k (drop offset bytes))) else None)"

definition read_u16_le :: "u8 list \<Rightarrow> nat \<Rightarrow> nat option" where
  "read_u16_le = read_le 2"

definition read_u32_le :: "u8 list \<Rightarrow> nat \<Rightarrow> nat option" where
  "read_u32_le = read_le 4"

definition read_u64_le :: "u8 list \<Rightarrow> nat \<Rightarrow> nat option" where
  "read_u64_le = read_le 8"

definition read_i64_le :: "u8 list \<Rightarrow> nat \<Rightarrow> int option" where
  "read_i64_le bytes offset =
     map_option (\<lambda>v. if v < 2 ^ 63 then int v else int v - 2 ^ 64) (read_u64_le bytes offset)"

definition read_cstring :: "u8 list \<Rightarrow> nat \<Rightarrow> string option" where
  "read_cstring bytes start =
     (if length bytes < start then None
      else Some (utf8_lossy (takeWhile (\<lambda>b. b \<noteq> 0) (drop start bytes))))"

definition path_basename :: "string \<Rightarrow> string" where
  "path_basename path = last (split_char (CHR ''/'') path)"

section \<open>ELF files\<close>

definition parse_program_header :: "u8 list \<Rightarrow> nat \<Rightarrow> ElfProgramHeader option" where
  "parse_program_header bytes off =
     (if 2 ^ 64 \<le> off + 56 \<or> length bytes < off + 56 then None
      else
        case (read_u32_le bytes off, read_u64_le bytes (off + 8), read_u64_le bytes (off + 16), read_u64_le bytes (off + 32)) of
          (Some t, Some o', Some v, Some z) \<Rightarrow> Some \<lparr>p_type = t, p_offset = o', p_vaddr = v, p_filesz = z\<rparr>
        | _ \<Rightarrow> None)"

fun program_header_loop :: "u8 list \<Rightarrow> nat \<Rightarrow> nat \<Rightarrow> nat list \<Rightarrow> ElfProgramHeader list option" where
  "program_header_loop bytes phoff phentsize [] = Some []"
| "program_header_loop bytes phoff phentsize (i # is) =
     (if 2 ^ 64 \<le> phoff + i * phentsize then None
      else
        case parse_program_header bytes (phoff + i * phentsize) of
          None \<Rightarrow> None
        | Some h \<Rightarrow> (case program_header_loop bytes phoff phentsize is of None \<Rightarrow> None | Some hs \<Rightarrow> Some (h # hs)))"

definition parse_elf_program_headers :: "u8 list \<Rightarrow> ElfProgramHeader list option" where
  "parse_elf_program_headers bytes =
     (if length bytes < 64 \<or> take 4 bytes \<noteq> ELF_MAGIC then None
      else if bytes ! 4 \<noteq> ELFCLASS64 \<or> bytes ! 5 \<noteq> ELFDATA2LSB then None
      else if read_u16_le bytes 18 \<noteq> Some EM_X86_64 then None
      else
        case (read_u64_le bytes 32, read_u16_le bytes 54, read_u16_le bytes 56) of
          (Some phoff, Some phentsize, Some phnum) \<Rightarrow>
            if phentsize < 56 then None else program_header_loop bytes phoff phentsize [0..<phnum]
        | _ \<Rightarrow> None)"

fun vaddr_to_file_offset :: "ElfProgramHeader list \<Rightarrow> nat \<Rightarrow> nat option" where
  "vaddr_to_file_offset [] vaddr = None"
| "vaddr_to_file_offset (ph # phs) vaddr =
     (if p_type ph \<noteq> PT_LOAD then vaddr_to_file_offset phs vaddr
      else if 2 ^ 64 \<le> p_vaddr ph + p_filesz ph then None
      else if p_vaddr ph \<le> vaddr \<and> vaddr < p_vaddr ph + p_filesz ph then
        (let file = p_offset ph + (vaddr - p_vaddr ph) in if 2 ^ 64 \<le> file then None else Some file)
      else vaddr_to_file_offset phs vaddr)"

text \<open>The entries of the dynamic section that matter, and the loop over it.\<close>

record dyn_info =
  strtab_vaddr :: "nat option"
  strtab_size :: "nat option"
  needed_offsets :: "nat list"

function dyn_loop :: "u8 list \<Rightarrow> nat \<Rightarrow> nat \<Rightarrow> dyn_info \<Rightarrow> dyn_info option" where
  "dyn_loop bytes cursor dyn_end d =
     (if cursor + 16 \<le> dyn_end then
        (case (read_i64_le bytes cursor, read_u64_le bytes (cursor + 8)) of
           (Some d_tag, Some d_val) \<Rightarrow>
             if d_tag = DT_NULL then Some d
             else dyn_loop bytes (cursor + 16) dyn_end
                    (if d_tag = DT_NEEDED then d\<lparr>needed_offsets := needed_offsets d @ [d_val]\<rparr>
                     else if d_tag = DT_STRTAB then d\<lparr>strtab_vaddr := Some d_val\<rparr>
                     else if d_tag = DT_STRSZ then d\<lparr>strtab_size := Some d_val\<rparr>
                     else d)
         | _ \<Rightarrow> None)
      else Some d)"
  by pat_completeness auto
termination
  by (relation "measure (\<lambda>(bytes, cursor, dyn_end, d). dyn_end - cursor)") auto

declare dyn_loop.simps [simp del]

text \<open>The name at an offset of the string table: empty when the offset lies outside.\<close>

definition strtab_name :: "u8 list \<Rightarrow> nat \<Rightarrow> nat \<Rightarrow> u8 list" where
  "strtab_name bytes strtab_end start = takeWhile (\<lambda>b. b \<noteq> 0) (take (strtab_end - start) (drop start bytes))"

fun needed_loop :: "u8 list \<Rightarrow> nat \<Rightarrow> nat \<Rightarrow> nat list \<Rightarrow> string list option" where
  "needed_loop bytes strtab_off strtab_end [] = Some []"
| "needed_loop bytes strtab_off strtab_end (needed # rest) =
     (if 2 ^ 64 \<le> strtab_off + needed then None
      else
        case needed_loop bytes strtab_off strtab_end rest of
          None \<Rightarrow> None
        | Some ns \<Rightarrow>
            let name = strtab_name bytes strtab_end (strtab_off + needed)
            in Some (if strtab_end \<le> strtab_off + needed \<or> name = [] then ns else utf8_lossy name # ns))"

definition needed_names :: "u8 list \<Rightarrow> ElfProgramHeader list \<Rightarrow> dyn_info \<Rightarrow> string list option" where
  "needed_names bytes phs d =
     (case (strtab_vaddr d, strtab_size d) of
        (Some addr, Some sz) \<Rightarrow>
          (case vaddr_to_file_offset phs addr of
             None \<Rightarrow> Some []
           | Some off \<Rightarrow> needed_loop bytes off (min (off + sz) (length bytes)) (needed_offsets d))
      | _ \<Rightarrow> Some [])"

text \<open>The loop over the program headers; the accumulator is (dynamic, interpreter, needed libraries).\<close>

fun segment_loop ::
  "u8 list \<Rightarrow> ElfProgramHeader list \<Rightarrow> ElfProgramHeader list \<Rightarrow> bool \<times> string option \<times> string list
     \<Rightarrow> (bool \<times> string option \<times> string list) option" where
  "segment_loop bytes all [] acc = Some acc"
| "segment_loop bytes all (ph # phs) (dyn, interp, needed) =
     (if p_type ph = PT_INTERP then
        (if length bytes \<le> p_offset ph then None
         else segment_loop bytes all phs (dyn, read_cstring bytes (p_offset ph), needed))
      else if p_type ph = PT_DYNAMIC then
        (if 2 ^ 64 \<le> p_offset ph + p_filesz ph \<or> length bytes < p_offset ph + p_filesz ph then None
         else
           case dyn_loop bytes (p_offset ph) (p_offset ph + p_filesz ph)
                  \<lparr>strtab_vaddr = None, strtab_size = None, needed_offsets = []\<rparr> of
             None \<Rightarrow> None
           | Some d \<Rightarrow>
               (case needed_names bytes all d of
                  None \<Rightarrow> None
                | Some ns \<Rightarrow> segment_loop bytes all phs (True, interp, needed @ ns)))
      else segment_loop bytes all phs (dyn, interp, needed))"

definition parse_elf_metadata :: "string \<Rightarrow> u8 list \<Rightarrow> BinaryMetadata option" where
  "parse_elf_metadata path bytes =
     (case parse_elf_program_headers bytes of
        None \<Rightarrow> None
      | Some phs \<Rightarrow>
          (case (read_u16_le bytes 16, read_u64_le bytes 24, segment_loop bytes phs phs (False, None, [])) of
             (Some e_type, Some entry_addr, Some (dyn, interp, needed)) \<Rightarrow>
               Some \<lparr>bm_entry = path_basename path, bm_pie = (e_type = ET_DYN),
                 bm_preferred_base = (if e_type = ET_DYN then DEFAULT_USER_PROGRAM_BASE else entry_addr div 4096 * 4096),
                 bm_dynamic = dyn, bm_interpreter = interp, bm_needed_libraries = needed, bm_required_symbols = []\<rparr>
           | _ \<Rightarrow> None))"

section \<open>The text format\<close>

record bin_state =
  bs_entry :: "string option"
  bs_pie :: bool
  bs_base :: nat
  bs_dynamic :: bool
  bs_interp :: "string option"
  bs_needed :: "string list"
  bs_required :: "string list"

definition bin_line :: "string \<Rightarrow> bin_state \<Rightarrow> bin_state" where
  "bin_line line st =
     (case strip_prefix line ''entry='' of
        Some raw \<Rightarrow> if trim raw \<noteq> [] then st\<lparr>bs_entry := Some (trim raw)\<rparr> else st
      | None \<Rightarrow>
     (case strip_prefix line ''type='' of
        Some raw \<Rightarrow> if eq_ignore_ascii_case (trim raw) ''pie'' then st\<lparr>bs_pie := True\<rparr> else st
      | None \<Rightarrow>
     (case strip_prefix line ''dynamic='' of
        Some raw \<Rightarrow> st\<lparr>bs_dynamic := eq_ignore_ascii_case (trim raw) ''true''\<rparr>
      | None \<Rightarrow>
     (case strip_prefix line ''interp='' of
        Some raw \<Rightarrow> if trim raw \<noteq> [] then st\<lparr>bs_interp := Some (trim raw)\<rparr> else st
      | None \<Rightarrow>
     (case strip_prefix line ''needed='' of
        Some raw \<Rightarrow> st\<lparr>bs_needed := parse_csv_values raw\<rparr>
      | None \<Rightarrow>
     (case strip_prefix line ''required='' of
        Some raw \<Rightarrow> st\<lparr>bs_required := parse_csv_values raw\<rparr>
      | None \<Rightarrow>
     (case strip_prefix line ''preferred_base='' of
        Some raw \<Rightarrow> (case parse_u64_value raw of Some b \<Rightarrow> st\<lparr>bs_base := b\<rparr> | None \<Rightarrow> st)
      | None \<Rightarrow> st)))))))"

definition parse_text_metadata :: "string \<Rightarrow> BinaryMetadata option" where
  "parse_text_metadata text =
     (let st = fold bin_line (lines text)
                 \<lparr>bs_entry = None, bs_pie = False, bs_base = DEFAULT_USER_PROGRAM_BASE, bs_dynamic = False,
                  bs_interp = None, bs_needed = [], bs_required = []\<rparr>
      in map_option (\<lambda>entry. \<lparr>bm_entry = entry, bm_pie = bs_pie st, bm_preferred_base = bs_base st,
           bm_dynamic = bs_dynamic st, bm_interpreter = bs_interp st, bm_needed_libraries = bs_needed st,
           bm_required_symbols = bs_required st\<rparr>) (bs_entry st))"

definition binary_metadata :: "saifs_view \<Rightarrow> string \<Rightarrow> BinaryMetadata option" where
  "binary_metadata fs path =
     (case sf_read_text fs path of
        None \<Rightarrow> None
      | Some text \<Rightarrow>
          if starts_with text ''SAIOS_BIN_V1'' then parse_text_metadata text
          else if \<not> sf_open fs path then None
          else (case sf_read fs path of None \<Rightarrow> None | Some bytes \<Rightarrow> parse_elf_metadata path bytes))"

section \<open>The dynamic linker\<close>

record LinkReport =
  lr_interpreter :: string
  lr_libraries :: "string list"
  lr_resolved_symbols :: "string list"

record SharedLibraryInfo =
  sl_soname :: string
  sl_exports :: "string list"

definition library_path_candidates :: "string \<Rightarrow> string list" where
  "library_path_candidates name = [''/lib/'' @ name, ''/usr/lib/'' @ name]"

definition resolve_library_path :: "saifs_view \<Rightarrow> string \<Rightarrow> string option" where
  "resolve_library_path fs name = find (sf_open fs) (library_path_candidates name)"

definition so_line :: "string \<Rightarrow> string option \<times> string list \<Rightarrow> string option \<times> string list" where
  "so_line line = (\<lambda>(soname, exports).
     case strip_prefix line ''soname='' of
       Some raw \<Rightarrow> (if trim raw \<noteq> [] then Some (trim raw) else soname, exports)
     | None \<Rightarrow> (case strip_prefix line ''exports='' of Some raw \<Rightarrow> (soname, parse_csv_values raw) | None \<Rightarrow> (soname, exports)))"

definition parse_library_text :: "string \<Rightarrow> SharedLibraryInfo res" where
  "parse_library_text text =
     (if \<not> starts_with text ''SAIOS_SO_V1'' then Inl ''ld: invalid shared library format''
      else
        case fold so_line (lines text) (None, []) of
          (None, exports) \<Rightarrow> Inl ''ld: missing soname''
        | (Some soname, exports) \<Rightarrow> Inr \<lparr>sl_soname = soname, sl_exports = exports\<rparr>)"

definition parse_library :: "saifs_view \<Rightarrow> string \<Rightarrow> SharedLibraryInfo res" where
  "parse_library fs path =
     (case sf_read_text fs path of
        None \<Rightarrow> Inl ''ld: shared library read failed''
      | Some text \<Rightarrow> parse_library_text text)"

definition add_export :: "string \<Rightarrow> string list \<Rightarrow> string list" where
  "add_export symbol symbols = (if symbol \<in> set symbols then symbols else symbols @ [symbol])"

fun link_libraries :: "saifs_view \<Rightarrow> string list \<Rightarrow> string list \<times> string list \<Rightarrow> (string list \<times> string list) res" where
  "link_libraries fs [] acc = Inr acc"
| "link_libraries fs (needed # rest) (libraries, symbols) =
     (case resolve_library_path fs needed of
        None \<Rightarrow> Inl ''ld: needed library missing''
      | Some path \<Rightarrow>
          (case parse_library fs path of
             Inl e \<Rightarrow> Inl e
           | Inr info \<Rightarrow> link_libraries fs rest (libraries @ [sl_soname info], fold add_export (sl_exports info) symbols)))"

fun resolve_symbols :: "string list \<Rightarrow> string list \<Rightarrow> string list res" where
  "resolve_symbols exported [] = Inr []"
| "resolve_symbols exported (required # rest) =
     (if required \<notin> set exported then Inl ''ld: unresolved symbol''
      else case resolve_symbols exported rest of Inl e \<Rightarrow> Inl e | Inr rs \<Rightarrow> Inr (required # rs))"

definition link_image :: "saifs_view \<Rightarrow> BinaryMetadata \<Rightarrow> LinkReport res" where
  "link_image fs meta =
     (if \<not> bm_dynamic meta then Inr \<lparr>lr_interpreter = ''-'', lr_libraries = [], lr_resolved_symbols = []\<rparr>
      else
        let interpreter = (case bm_interpreter meta of Some i \<Rightarrow> i | None \<Rightarrow> ''/lib/ld-saios.so'')
        in if \<not> sf_open fs interpreter then Inl ''ld: interpreter missing''
           else
             case link_libraries fs (bm_needed_libraries meta) ([], []) of
               Inl e \<Rightarrow> Inl e
             | Inr (libraries, symbols) \<Rightarrow>
                 (case resolve_symbols symbols (bm_required_symbols meta) of
                    Inl e \<Rightarrow> Inl e
                  | Inr resolved \<Rightarrow>
                      Inr \<lparr>lr_interpreter = interpreter, lr_libraries = libraries, lr_resolved_symbols = resolved\<rparr>))"

section \<open>The images of the default package\<close>

text \<open>\<open>to_le_bytes\<close> and the three writers of \<open>write_binary\<close> in \<^verbatim>\<open>kernel/package_image.rs\<close>.\<close>

definition to_le :: "nat \<Rightarrow> nat \<Rightarrow> u8 list" where
  "to_le k v = map (\<lambda>i. of_nat (v div 256 ^ i)) [0..<k]"

definition put_le :: "nat \<Rightarrow> nat \<Rightarrow> nat \<Rightarrow> u8 list \<Rightarrow> u8 list" where
  "put_le k off v buf = take off buf @ to_le k v @ drop (off + k) buf"

definition put16 :: "nat \<Rightarrow> nat \<Rightarrow> u8 list \<Rightarrow> u8 list" where
  "put16 = put_le 2"

definition put32 :: "nat \<Rightarrow> nat \<Rightarrow> u8 list \<Rightarrow> u8 list" where
  "put32 = put_le 4"

definition put64 :: "nat \<Rightarrow> nat \<Rightarrow> u8 list \<Rightarrow> u8 list" where
  "put64 = put_le 8"

definition e_ident :: "u8 list \<Rightarrow> u8 list" where
  "e_ident elf = elf[0 := 0x7F, 1 := 0x45, 2 := 0x4C, 3 := 0x46, 4 := 2, 5 := 1, 6 := 1]"

definition elf_header_fields :: "u8 list \<Rightarrow> u8 list" where
  "elf_header_fields elf =
     (put16 62 0 \<circ> put16 60 0 \<circ> put16 58 0 \<circ> put16 56 1 \<circ> put16 54 56 \<circ> put16 52 64 \<circ> put32 48 0 \<circ> put64 40 0
       \<circ> put64 32 64 \<circ> put64 24 0x401000 \<circ> put32 20 1 \<circ> put16 18 62 \<circ> put16 16 2) elf"

definition program_header_fields :: "u8 list \<Rightarrow> u8 list" where
  "program_header_fields elf =
     (put64 112 0x1000 \<circ> put64 104 120 \<circ> put64 96 120 \<circ> put64 88 0x400000 \<circ> put64 80 0x400000 \<circ> put64 72 0
       \<circ> put32 68 5 \<circ> put32 64 1) elf"

definition elf_image :: "u8 list" where
  "elf_image = program_header_fields (elf_header_fields (e_ident (replicate 120 0)))"

definition shared_library_text :: "string \<Rightarrow> string \<Rightarrow> string" where
  "shared_library_text soname exports =
     ''SAIOS_SO_V1'' @ [CHR 0x0A] @ ''soname='' @ soname @ [CHR 0x0A] @ ''exports='' @ exports @ [CHR 0x0A]"

lemma le_value_to_le: "le_value (to_le k v) = v mod 256 ^ k"
proof (induction k arbitrary: v)
  case (Suc k)
  have "to_le (Suc k) v = of_nat v # to_le k (v div 256)"
    by (simp add: to_le_def map_upt_Suc div_mult2_eq [symmetric] del: upt_Suc)
  moreover have "unat (of_nat v :: u8) = v mod 256" by (simp add: unat_of_nat)
  ultimately show ?case using Suc [of "v div 256"] mod_mult2_eq [of v 256 "256 ^ k"] by simp
qed (simp add: to_le_def)

lemma length_to_le [simp]: "length (to_le k v) = k"
  by (simp add: to_le_def)

lemma length_put_le: "off + k \<le> length buf \<Longrightarrow> length (put_le k off v buf) = length buf"
  by (simp add: put_le_def)

lemma read_put_same:
  "off + k \<le> length buf \<Longrightarrow> length buf < 2 ^ 64 \<Longrightarrow> read_le k (put_le k off v buf) off = Some (v mod 256 ^ k)"
  by (simp add: read_le_def length_put_le) (simp add: put_le_def le_value_to_le)

lemma take_drop_put:
  assumes "off + k \<le> length buf" "o2 + k2 \<le> off \<or> off + k \<le> o2"
  shows "take k2 (drop o2 (put_le k off v buf)) = take k2 (drop o2 buf)"
proof (cases "o2 + k2 \<le> off")
  case True
  have "length (take off buf) = off" using assms(1) by simp
  then have "drop o2 (put_le k off v buf) = drop o2 (take off buf) @ to_le k v @ drop (off + k) buf"
    using True by (simp add: put_le_def)
  moreover have "length (drop o2 (take off buf)) = off - o2" using assms(1) by simp
  ultimately have "take k2 (drop o2 (put_le k off v buf)) = take k2 (drop o2 (take off buf))" using True by simp
  also have "\<dots> = take k2 (drop o2 buf)" using True by (simp add: drop_take min_def)
  finally show ?thesis .
next
  case False
  then have le: "off + k \<le> o2" using assms(2) by simp
  then have "drop o2 (put_le k off v buf) = drop (o2 - off - k) (drop (off + k) buf)"
    using assms(1) by (simp add: put_le_def)
  also have "\<dots> = drop o2 buf" using le by simp
  finally show ?thesis by simp
qed

lemma read_put_other:
  "off + k \<le> length buf \<Longrightarrow> o2 + k2 \<le> off \<or> off + k \<le> o2 \<Longrightarrow> read_le k2 (put_le k off v buf) o2 = read_le k2 buf o2"
  by (simp add: read_le_def take_drop_put length_put_le)

lemma nth_put_before: "i < off \<Longrightarrow> off + k \<le> length buf \<Longrightarrow> put_le k off v buf ! i = buf ! i"
  by (simp add: put_le_def nth_append)

lemma take_put_before: "n \<le> off \<Longrightarrow> off + k \<le> length buf \<Longrightarrow> take n (put_le k off v buf) = take n buf"
  by (simp add: put_le_def)

lemmas put_defs = put16_def put32_def put64_def read_u16_le_def read_u32_le_def read_u64_le_def

text \<open>The rules above for an image of 120 bytes, in a form in which the length is computed once per writer.\<close>

lemma image_rules:
  assumes "length buf = 120" "off + k \<le> 120"
  shows "length (put_le k off v buf) = 120"
    "read_le k (put_le k off v buf) off = Some (v mod 256 ^ k)"
    "o2 + k2 \<le> off \<or> off + k \<le> o2 \<Longrightarrow> read_le k2 (put_le k off v buf) o2 = read_le k2 buf o2"
    "n \<le> off \<Longrightarrow> take n (put_le k off v buf) = take n buf"
    "i < off \<Longrightarrow> put_le k off v buf ! i = buf ! i"
  using assms length_put_le [of off k buf v] read_put_same [of off k buf v] read_put_other [of off k buf o2 k2 v]
    take_put_before [of n off k buf v] nth_put_before [of i off k buf v] by simp_all

lemma length_e_ident: "length (e_ident (replicate 120 0)) = 120"
  by (simp add: e_ident_def)

lemmas elf_image_simps = elf_image_def program_header_fields_def elf_header_fields_def put_defs comp_def
  image_rules length_e_ident

lemma length_elf_image: "length elf_image = 120"
  by (simp add: elf_image_simps)

lemma elf_image_reads:
  "read_u16_le elf_image 16 = Some 2" "read_u16_le elf_image 18 = Some 62" "read_u64_le elf_image 24 = Some 0x401000"
  "read_u64_le elf_image 32 = Some 64" "read_u16_le elf_image 54 = Some 56" "read_u16_le elf_image 56 = Some 1"
  "read_u32_le elf_image 64 = Some 1" "read_u64_le elf_image 72 = Some 0" "read_u64_le elf_image 80 = Some 0x400000"
  "read_u64_le elf_image 96 = Some 120"
  by (simp_all add: elf_image_simps)

lemma elf_image_ident: "take 4 elf_image = ELF_MAGIC" "elf_image ! 4 = ELFCLASS64" "elf_image ! 5 = ELFDATA2LSB"
  by (simp_all add: elf_image_simps   )
    (simp_all add: e_ident_def take_update_swap, simp add: eval_nat_numeral)

lemma elf_image_parses:
  "parse_elf_metadata path elf_image = Some \<lparr>bm_entry = path_basename path, bm_pie = False, bm_preferred_base = 0x401000,
     bm_dynamic = False, bm_interpreter = None, bm_needed_libraries = [], bm_required_symbols = []\<rparr>"
proof -
  have "parse_elf_program_headers elf_image = Some [\<lparr>p_type = 1, p_offset = 0, p_vaddr = 0x400000, p_filesz = 120\<rparr>]"
    by (simp add: parse_elf_program_headers_def elf_image_ident elf_image_reads length_elf_image 
        parse_program_header_def)
  then show ?thesis
    by (simp add: parse_elf_metadata_def elf_image_reads   )
qed

section \<open>What the reader takes from a file\<close>

text \<open>A name found in a file: a non-empty piece of it without zero bytes.\<close>

definition file_name_in :: "u8 list \<Rightarrow> string \<Rightarrow> bool" where
  "file_name_in bytes name \<longleftrightarrow> (\<exists>i n. 0 < n \<and> i + n \<le> length bytes \<and> 0 \<notin> set (take n (drop i bytes))
     \<and> name = utf8_lossy (take n (drop i bytes)))"

lemma takeWhile_take_drop:
  assumes "start \<le> length bytes"
  shows "\<exists>n. takeWhile P (take m (drop start bytes)) = take n (drop start bytes) \<and> start + n \<le> length bytes
    \<and> n = length (takeWhile P (take m (drop start bytes)))"
proof -
  let ?t = "takeWhile P (take m (drop start bytes))"
  have "?t = take (length ?t) (take m (drop start bytes))" by (rule takeWhile_eq_take)
  moreover have "length ?t \<le> m" using length_takeWhile_le [of P "take m (drop start bytes)"] by simp
  ultimately have "?t = take (length ?t) (drop start bytes)" by (metis min.absorb1 take_take)
  moreover have "start + length ?t \<le> length bytes"
    using length_takeWhile_le [of P "take m (drop start bytes)"] assms by (simp del: length_takeWhile_le, linarith)
  ultimately show ?thesis by blast
qed

lemma strtab_name_in:
  assumes "strtab_name bytes e start \<noteq> []" "start < e" "e \<le> length bytes"
  shows "file_name_in bytes (utf8_lossy (strtab_name bytes e start))"
proof -
  obtain n where n: "strtab_name bytes e start = take n (drop start bytes)" "start + n \<le> length bytes"
    "n = length (strtab_name bytes e start)"
    using takeWhile_take_drop [of start bytes "\<lambda>b. b \<noteq> 0" "e - start"] assms by (auto simp: strtab_name_def)
  have "0 \<notin> set (strtab_name bytes e start)" by (auto simp: strtab_name_def dest: set_takeWhileD)
  with n assms(1) show ?thesis unfolding file_name_in_def by (metis length_greater_0_conv)
qed

lemma needed_loop_names:
  "needed_loop bytes off e offs = Some ns \<Longrightarrow> e \<le> length bytes \<Longrightarrow> name \<in> set ns \<Longrightarrow> file_name_in bytes name"
proof (induction offs arbitrary: ns)
  case (Cons x offs)
  obtain ns' where ns': "needed_loop bytes off e offs = Some ns'" using Cons.prems(1) by (auto split: if_splits option.splits)
  have "name \<in> set ns' \<or> (\<not> e \<le> off + x \<and> strtab_name bytes e (off + x) \<noteq> [] \<and> name = utf8_lossy (strtab_name bytes e (off + x)))"
    using Cons.prems(1,3) ns' by (auto simp: Let_def split: if_splits)
  then show ?case using Cons.IH [OF ns' Cons.prems(2)] strtab_name_in [of bytes e "off + x"] Cons.prems(2) by auto
qed simp

lemma needed_names_in:
  assumes "needed_names bytes phs d = Some ns" "name \<in> set ns"
  shows "file_name_in bytes name"
  using assms needed_loop_names [of bytes _ _ "needed_offsets d" ns name]
  by (auto simp: needed_names_def split: option.splits)

lemma segment_loop_names:
  "segment_loop bytes all phs (dyn, interp, needed) = Some (dyn', interp', needed') \<Longrightarrow> name \<in> set needed' \<Longrightarrow>
     name \<in> set needed \<or> file_name_in bytes name"
proof (induction phs arbitrary: dyn interp needed)
  case (Cons ph phs)
  consider (interp) "p_type ph = PT_INTERP" | (dyn) "p_type ph = PT_DYNAMIC" | (other) "p_type ph \<noteq> PT_INTERP" "p_type ph \<noteq> PT_DYNAMIC"
    by blast
  then show ?case
  proof cases
    case interp
    then show ?thesis using Cons.prems Cons.IH by (auto split: if_splits)
  next
    case dyn
    then obtain d ns where "needed_names bytes all d = Some ns"
      "segment_loop bytes all phs (True, interp, needed @ ns) = Some (dyn', interp', needed')"
      using Cons.prems(1) by (auto simp:   split: if_splits option.splits)
    then show ?thesis using Cons.IH [of True interp "needed @ ns"] Cons.prems(2) needed_names_in by fastforce
  next
    case other
    then show ?thesis using Cons.prems Cons.IH by auto
  qed
qed simp

lemma program_header_loop_in:
  "program_header_loop bytes phoff sz is = Some hs \<Longrightarrow> i \<in> set is \<Longrightarrow> phoff + i * sz + 56 \<le> length bytes"
  by (induction "is" arbitrary: hs) (auto simp: parse_program_header_def split: if_splits option.splits)

section \<open>Linking\<close>

definition lib_info :: "saifs_view \<Rightarrow> string \<Rightarrow> SharedLibraryInfo option" where
  "lib_info fs lib = (case resolve_library_path fs lib of None \<Rightarrow> None | Some path \<Rightarrow>
     (case parse_library fs path of Inl e \<Rightarrow> None | Inr info \<Rightarrow> Some info))"

definition image_interpreter :: "BinaryMetadata \<Rightarrow> string" where
  "image_interpreter meta = (case bm_interpreter meta of Some i \<Rightarrow> i | None \<Rightarrow> ''/lib/ld-saios.so'')"

lemma set_add_export [simp]: "set (fold add_export xs ys) = set ys \<union> set xs"
  by (induction xs arbitrary: ys) (auto simp: add_export_def)

lemma link_libraries_step:
  "link_libraries fs (lib # needed) (libs, syms) = (case lib_info fs lib of
     Some info \<Rightarrow> link_libraries fs needed (libs @ [sl_soname info], fold add_export (sl_exports info) syms)
   | None \<Rightarrow> Inl (case resolve_library_path fs lib of None \<Rightarrow> ''ld: needed library missing'' | Some path \<Rightarrow> projl (parse_library fs path)))"
  by (simp add: lib_info_def split: option.split sum.split)

lemma link_libraries_ok:
  "\<forall>lib\<in>set needed. lib_info fs lib \<noteq> None \<Longrightarrow> link_libraries fs needed (libs, syms) =
     Inr (libs @ map (\<lambda>lib. sl_soname (the (lib_info fs lib))) needed,
          fold (\<lambda>lib. fold add_export (sl_exports (the (lib_info fs lib)))) needed syms)"
  by (induction needed arbitrary: libs syms) (auto simp: link_libraries_step simp del: link_libraries.simps(2))

lemma link_libraries_fails:
  "\<not> (\<forall>lib\<in>set needed. lib_info fs lib \<noteq> None) \<Longrightarrow> \<exists>e. link_libraries fs needed (libs, syms) = Inl e
     \<and> e \<noteq> ''ld: interpreter missing'' \<and> e \<noteq> ''ld: unresolved symbol''"
proof (induction needed arbitrary: libs syms)
  case (Cons lib needed)
  show ?case
  proof (cases "lib_info fs lib")
    case None
    then show ?thesis
      by (auto simp: lib_info_def parse_library_def parse_library_text_def split: option.splits sum.splits if_splits prod.splits)
  next
    case (Some info)
    then show ?thesis using Cons by (auto simp: link_libraries_step simp del: link_libraries.simps(2))
  qed
qed simp

lemma exported_set:
  "set (fold (\<lambda>lib. fold add_export (f lib)) needed syms) = set syms \<union> (\<Union>lib\<in>set needed. set (f lib))"
  by (induction needed arbitrary: syms) auto

lemma resolve_symbols_eq: "resolve_symbols exported required = (if set required \<subseteq> set exported then Inr required
    else Inl ''ld: unresolved symbol'')"
  by (induction required) auto

section \<open>Library files\<close>

definition clean :: "string \<Rightarrow> bool" where
  "clean s \<longleftrightarrow> s \<noteq> [] \<and> (\<forall>c\<in>set s. \<not> is_whitespace c \<and> c \<noteq> CHR '','')"

lemma trim_clean: "clean s \<Longrightarrow> trim s = s"
  by (rule trim_idem) (auto simp: clean_def)

lemma clean_no_lf: "clean s \<Longrightarrow> CHR 0x0A \<notin> set s \<and> last s \<noteq> CHR 0x0D"
  by (auto simp: clean_def is_whitespace_def dest: last_in_set)

lemma lines_of_lines:
  assumes "\<forall>l\<in>set ls. CHR 0x0A \<notin> set l \<and> (l = [] \<or> last l \<noteq> CHR 0x0D)"
  shows "lines (concat (map (\<lambda>l. l @ [CHR 0x0A]) ls)) = ls"
proof -
  have join: "concat (map (\<lambda>l. l @ [CHR 0x0A]) ls) = join_char (CHR 0x0A) (ls @ [[]])"
  proof (induction ls)
    case (Cons l ls)
    then show ?case by (cases ls) simp_all
  qed simp
  have "split_char (CHR 0x0A) (join_char (CHR 0x0A) (ls @ [[]])) = ls @ [[]]" using assms by (intro split_join) auto
  moreover have "(case strip_suffix l [CHR 0x0D] of Some q \<Rightarrow> q | None \<Rightarrow> l) = l" if "l \<in> set ls" for l
  proof (cases "l = []")
    case False
    then obtain xs x where l: "l = xs @ [x]" by (metis rev_exhaust)
    with assms that show ?thesis by (auto simp: strip_suffix_def)
  qed (simp add: strip_suffix_def)
  ultimately show ?thesis unfolding join lines_def by (simp add: map_idI)
qed

lemma parse_csv_join:
  assumes "\<forall>s\<in>set names. clean s"
  shows "parse_csv_values (join_char (CHR '','') names) = names"
proof (cases "names = []")
  case False
  then have "split_char (CHR '','') (join_char (CHR '','') names) = names"
    using assms by (intro split_join) (auto simp: clean_def)
  moreover have "map trim names = names" using assms by (intro map_idI) (auto intro: trim_clean)
  moreover have "filter (\<lambda>v. v \<noteq> []) names = names" using assms by (auto simp: clean_def)
  ultimately show ?thesis by (simp add: parse_csv_values_def)
qed (simp add: parse_csv_values_def trim_def trim_start_def trim_end_def)

lemma join_clean_last:
  assumes "\<forall>s\<in>set names. clean s"
  shows "CHR 0x0A \<notin> set (join_char (CHR '','') names) \<and> (join_char (CHR '','') names = [] \<or> last (join_char (CHR '','') names) \<noteq> CHR 0x0D)"
  using assms
proof (induction "CHR '',''" names rule: join_char.induct)
  case (3 p q ps)
  then show ?case by (auto simp: clean_no_lf)
qed (auto simp: clean_no_lf)

text \<open>A file view that holds the C library of the default package.\<close>

definition demo_view :: saifs_view where
  "demo_view = \<lparr>sf_open = \<lambda>p. p = ''/lib/ld-saios.so'' \<or> p = ''/lib/libc.so'',
     sf_read_text = \<lambda>p. if p = ''/lib/libc.so'' then Some (shared_library_text ''libc.so'' ''malloc,free,printf'') else None,
     sf_read = \<lambda>p. None\<rparr>"

definition demo_program :: BinaryMetadata where
  "demo_program = \<lparr>bm_entry = ''hello'', bm_pie = True, bm_preferred_base = 0x400000, bm_dynamic = True,
     bm_interpreter = None, bm_needed_libraries = [''libc.so''], bm_required_symbols = [''printf'']\<rparr>"

section \<open>Properties\<close>

text \<open>C27: linking.  A dynamic image links exactly when its interpreter opens, each needed library is found and well
  formed, and each required symbol is exported by one of the needed libraries.  The report of a successful link names
  the interpreter, the libraries in their order and all the required symbols; an interpreter that does not open and,
  when all libraries are found, a symbol that none exports are reported as such.\<close>

theorem link_image_succeeds_iff:
  assumes "bm_dynamic meta"
  shows "((\<exists>report. link_image fs meta = Inr report) \<longleftrightarrow> sf_open fs (image_interpreter meta)
      \<and> (\<forall>lib\<in>set (bm_needed_libraries meta). lib_info fs lib \<noteq> None)
      \<and> (\<forall>sym\<in>set (bm_required_symbols meta). \<exists>lib\<in>set (bm_needed_libraries meta). sym \<in> set (sl_exports (the (lib_info fs lib)))))
    \<and> (\<forall>report. link_image fs meta = Inr report \<longrightarrow>
        report = \<lparr>lr_interpreter = image_interpreter meta, lr_libraries = map (\<lambda>lib. sl_soname (the (lib_info fs lib))) (bm_needed_libraries meta),
           lr_resolved_symbols = bm_required_symbols meta\<rparr>)
    \<and> (link_image fs meta = Inl ''ld: interpreter missing'' \<longleftrightarrow> \<not> sf_open fs (image_interpreter meta))
    \<and> (link_image fs meta = Inl ''ld: unresolved symbol'' \<longleftrightarrow> sf_open fs (image_interpreter meta)
        \<and> (\<forall>lib\<in>set (bm_needed_libraries meta). lib_info fs lib \<noteq> None)
        \<and> (\<exists>sym\<in>set (bm_required_symbols meta). \<forall>lib\<in>set (bm_needed_libraries meta). sym \<notin> set (sl_exports (the (lib_info fs lib)))))"
proof -
  let ?needed = "bm_needed_libraries meta"
  show ?thesis
  proof (cases "\<forall>lib\<in>set ?needed. lib_info fs lib \<noteq> None")
    case True
    then have "link_libraries fs ?needed ([], []) = Inr (map (\<lambda>lib. sl_soname (the (lib_info fs lib))) ?needed,
        fold (\<lambda>lib. fold add_export (sl_exports (the (lib_info fs lib)))) ?needed [])"
      by (simp only: link_libraries_ok append_Nil)
    then have run: "link_image fs meta = (if \<not> sf_open fs (image_interpreter meta) then Inl ''ld: interpreter missing''
       else if set (bm_required_symbols meta) \<subseteq> (\<Union>lib\<in>set ?needed. set (sl_exports (the (lib_info fs lib))))
       then Inr \<lparr>lr_interpreter = image_interpreter meta, lr_libraries = map (\<lambda>lib. sl_soname (the (lib_info fs lib))) ?needed,
           lr_resolved_symbols = bm_required_symbols meta\<rparr>
       else Inl ''ld: unresolved symbol'')"
      using assms by (simp add: link_image_def Let_def resolve_symbols_eq exported_set image_interpreter_def)
    show ?thesis unfolding run using True by (simp add: subset_iff) blast
  next
    case False
    then obtain e where "link_libraries fs ?needed ([], []) = Inl e" "e \<noteq> ''ld: interpreter missing''" "e \<noteq> ''ld: unresolved symbol''"
      using link_libraries_fails by blast
    then have "link_image fs meta = (if \<not> sf_open fs (image_interpreter meta) then Inl ''ld: interpreter missing'' else Inl e)"
      "e \<noteq> ''ld: interpreter missing'' \<and> e \<noteq> ''ld: unresolved symbol''"
      using assms by (simp_all add: link_image_def Let_def image_interpreter_def)
    then show ?thesis using False by (cases "sf_open fs (image_interpreter meta)") auto
  qed
qed

theorem link_image_succeeds_iff_witness:
  "link_image demo_view demo_program = Inr \<lparr>lr_interpreter = ''/lib/ld-saios.so'', lr_libraries = [''libc.so''],
     lr_resolved_symbols = [''printf'']\<rparr>"
proof -
  have lib: "lib_info demo_view ''libc.so'' = Some \<lparr>sl_soname = ''libc.so'', sl_exports = [''malloc'', ''free'', ''printf'']\<rparr>"
    by code_simp
  then have "\<exists>report. link_image demo_view demo_program = Inr report"
    using link_image_succeeds_iff [of demo_program demo_view] by (simp add: demo_program_def demo_view_def image_interpreter_def)
  then obtain report where r: "link_image demo_view demo_program = Inr report" by blast
  have "bm_dynamic demo_program" by (simp add: demo_program_def)
  then have "report = \<lparr>lr_interpreter = image_interpreter demo_program,
      lr_libraries = map (\<lambda>lib. sl_soname (the (lib_info demo_view lib))) (bm_needed_libraries demo_program),
      lr_resolved_symbols = bm_required_symbols demo_program\<rparr>"
    using link_image_succeeds_iff [of demo_program demo_view] r by blast
  then show ?thesis using r lib by (simp add: demo_program_def image_interpreter_def)
qed

text \<open>The ELF reader stays inside the file.  When it accepts an image, the program header table lies inside the file, every
  needed library name is a non-empty, zero-free piece of the file, and the load base is page aligned.\<close>

lemma parse_elf_metadata_in_file:
  assumes "parse_elf_metadata path bytes = Some m"
  shows "(\<forall>name\<in>set (bm_needed_libraries m). file_name_in bytes name)
    \<and> 4096 dvd bm_preferred_base m
    \<and> (\<exists>phoff phentsize phnum. read_u64_le bytes 32 = Some phoff \<and> read_u16_le bytes 54 = Some phentsize
         \<and> read_u16_le bytes 56 = Some phnum \<and> (\<forall>i<phnum. phoff + i * phentsize + 56 \<le> length bytes))"
proof -
  obtain phs e_type entry dyn interp needed where P: "parse_elf_program_headers bytes = Some phs"
    "segment_loop bytes phs phs (False, None, []) = Some (dyn, interp, needed)"
    "m = \<lparr>bm_entry = path_basename path, bm_pie = (e_type = ET_DYN),
       bm_preferred_base = (if e_type = ET_DYN then DEFAULT_USER_PROGRAM_BASE else entry div 4096 * 4096),
       bm_dynamic = dyn, bm_interpreter = interp, bm_needed_libraries = needed, bm_required_symbols = []\<rparr>"
    using assms by (auto simp: parse_elf_metadata_def split: option.splits)
  obtain phoff phentsize phnum where H: "read_u64_le bytes 32 = Some phoff" "read_u16_le bytes 54 = Some phentsize"
    "read_u16_le bytes 56 = Some phnum" "program_header_loop bytes phoff phentsize [0..<phnum] = Some phs"
    using P(1) by (auto simp: parse_elf_program_headers_def split: option.splits if_splits)
  have "\<forall>i<phnum. phoff + i * phentsize + 56 \<le> length bytes" using program_header_loop_in [OF H(4)] by simp
  moreover have "file_name_in bytes name" if "name \<in> set needed" for name using segment_loop_names [OF P(2) that] by simp
  moreover have "4096 dvd bm_preferred_base m" by (simp add: P(3) )
  ultimately show ?thesis using H(1-3) P(3) by auto
qed

text \<open>The shared library files that the default package writes read back: the linker finds the same name and the same
  list of exported symbols, for names without white space and commas.\<close>

lemma shared_library_roundtrip:
  assumes "clean soname" and "\<forall>s\<in>set exports. clean s"
  shows "parse_library_text (shared_library_text soname (join_char (CHR '','') exports)) =
    Inr \<lparr>sl_soname = soname, sl_exports = exports\<rparr>"
proof -
  let ?e = "join_char (CHR '','') exports"
  have txt_eq: "shared_library_text soname ?e =
      concat (map (\<lambda>l. l @ [CHR 0x0A]) [''SAIOS_SO_V1'', ''soname='' @ soname, ''exports='' @ ?e])"
    by (simp add: shared_library_text_def)
  have "lines (shared_library_text soname ?e) = [''SAIOS_SO_V1'', ''soname='' @ soname, ''exports='' @ ?e]"
    unfolding txt_eq using clean_no_lf [OF assms(1)] join_clean_last [OF assms(2)] assms(1)
    by (intro lines_of_lines) (auto simp: clean_def)
  moreover have "starts_with (shared_library_text soname ?e) ''SAIOS_SO_V1''"
    by (simp add: starts_with_def shared_library_text_def)
  ultimately show ?thesis
    using trim_clean [OF assms(1)] parse_csv_join [OF assms(2)] assms(1)
    by (simp add: parse_library_text_def so_line_def strip_prefix_def starts_with_def clean_def)
qed

end
