(* ===== verification/Package.thy ===== *)
theory Package
  imports Vfs Program_Image
begin

text \<open>
  The default package image, \<^verbatim>\<open>seed/saios/src/kernel/package_image.rs\<close>: directories, shared libraries,
  program images and the manifest are written through the virtual file system.  The bytes of a program
  image and the text of a library are in theory \<open>Program_Image\<close>.  Shown is that a program written this
  way is read back and accepted by the loader.
\<close>

definition PROFILE :: string where "PROFILE = ''saios-base''"

definition MANIFEST_PATH :: string where "MANIFEST_PATH = ''/boot/package.manifest''"

definition ROOT_DIRS :: "string list" where
  "ROOT_DIRS = [''/boot'', ''/bin'', ''/etc'', ''/home'', ''/proc'', ''/dev'', ''/tmp'', ''/usr'', ''/lib'', ''/system'']"

definition SHARED_LIB_ENTRIES :: "string list" where
  "SHARED_LIB_ENTRIES = [''ld-saios.so'', ''libc.so'', ''libm.so'', ''libshell.so'', ''libui.so'']"

definition BIN_ENTRIES :: "string list" where
  "BIN_ENTRIES = [''hello'', ''calc'', ''editor'', ''shell'', ''ls'', ''cat'', ''cp'', ''mv'', ''rm'', ''mkdir'', ''ps'', ''kill'',
     ''top'', ''uname'', ''stress'', ''cc'', ''taskman'', ''diskpart'']"

text \<open>Sequencing with the error propagation of \<open>?\<close>.\<close>

definition vfs_then :: "('a, 's) vfs_run \<Rightarrow> (VfsState \<Rightarrow> 's \<Rightarrow> ('b, 's) vfs_run) \<Rightarrow> ('b, 's) vfs_run" where
  "vfs_then m k =
     (case m of
        None \<Rightarrow> None
      | Some (Inl e, v, s) \<Rightarrow> Some (Inl e, v, s)
      | Some (Inr _, v, s) \<Rightarrow> k v s)"

fun for_each :: "('a \<Rightarrow> VfsState \<Rightarrow> 's \<Rightarrow> (unit, 's) vfs_run) \<Rightarrow> 'a list \<Rightarrow> VfsState \<Rightarrow> 's \<Rightarrow> (unit, 's) vfs_run" where
  "for_each f [] v s = Some (Inr (), v, s)"
| "for_each f (x # xs) v s = vfs_then (f x v s) (for_each f xs)"

definition accept_existing :: "(unit, 's) vfs_run \<Rightarrow> (unit, 's) vfs_run" where
  "accept_existing m =
     (case m of
        Some (Inl e, v, s) \<Rightarrow> Some (if e = ''already exists'' then Inr () else Inl e, v, s)
      | _ \<Rightarrow> m)"

definition ensure_dir :: "'s env \<Rightarrow> string \<Rightarrow> VfsState \<Rightarrow> 's \<Rightarrow> (unit, 's) vfs_run" where
  "ensure_dir E path v s = accept_existing (vfs_mkdir E path v s)"

definition ensure_file :: "'s env \<Rightarrow> string \<Rightarrow> VfsState \<Rightarrow> 's \<Rightarrow> (unit, 's) vfs_run" where
  "ensure_file E path v s = accept_existing (vfs_touch E path v s)"

definition manifest_text :: string where
  "manifest_text =
     ''profile='' @ PROFILE @ [CHR 0x0A]
     @ concat (map (\<lambda>d. ''dir='' @ d @ [CHR 0x0A]) ROOT_DIRS)
     @ concat (map (\<lambda>b. ''bin=/bin/'' @ b @ [CHR 0x0A]) BIN_ENTRIES)
     @ concat (map (\<lambda>so. ''lib=/lib/'' @ so @ [CHR 0x0A]) SHARED_LIB_ENTRIES)"

definition write_manifest :: "'s env \<Rightarrow> VfsState \<Rightarrow> 's \<Rightarrow> (unit, 's) vfs_run" where
  "write_manifest E v s =
     vfs_then (ensure_file E MANIFEST_PATH v s) (vfs_write_path E MANIFEST_PATH (bytes_of manifest_text))"

definition write_binary :: "'s env \<Rightarrow> string \<Rightarrow> string \<Rightarrow> VfsState \<Rightarrow> 's \<Rightarrow> (unit, 's) vfs_run" where
  "write_binary E path entry = vfs_write_path E path elf_image"

definition write_shared_library :: "'s env \<Rightarrow> string \<Rightarrow> string \<Rightarrow> string \<Rightarrow> VfsState \<Rightarrow> 's \<Rightarrow> (unit, 's) vfs_run" where
  "write_shared_library E path soname exports = vfs_write_path E path (bytes_of (shared_library_text soname exports))"

definition seed_binaries :: "'s env \<Rightarrow> VfsState \<Rightarrow> 's \<Rightarrow> (unit, 's) vfs_run" where
  "seed_binaries E = for_each (\<lambda>b v s.
     vfs_then (ensure_file E (''/bin/'' @ b) v s) (write_binary E (''/bin/'' @ b) b)) BIN_ENTRIES"

definition library_exports :: "string \<Rightarrow> string option" where
  "library_exports so =
     (if so = ''ld-saios.so'' then Some ''dl_open,dl_sym,dl_close''
      else if so = ''libc.so'' then Some ''malloc,free,printf,puts,exit''
      else if so = ''libm.so'' then Some ''sin,cos,tan,sqrt''
      else if so = ''libshell.so'' then Some ''shell_init,shell_run,shell_prompt''
      else if so = ''libui.so'' then Some ''ui_init,ui_draw,text_edit''
      else None)"

definition seed_shared_libraries :: "'s env \<Rightarrow> VfsState \<Rightarrow> 's \<Rightarrow> (unit, 's) vfs_run" where
  "seed_shared_libraries E = for_each (\<lambda>so v s.
     vfs_then (ensure_file E (''/lib/'' @ so) v s) (\<lambda>v s.
       case library_exports so of
         Some exports \<Rightarrow> write_shared_library E (''/lib/'' @ so) so exports v s
       | None \<Rightarrow> Some (Inr (), v, s))) SHARED_LIB_ENTRIES"

text \<open>The result of writing the host name is ignored.  The flag is the static \<open>MOUNTED\<close>.\<close>

definition mount_default :: "'s env \<Rightarrow> VfsState \<Rightarrow> 's \<Rightarrow> (bool, 's) vfs_run" where
  "mount_default E v s =
     vfs_then (for_each (ensure_dir E) ROOT_DIRS v s) (\<lambda>v s.
     vfs_then (seed_shared_libraries E v s) (\<lambda>v s.
     vfs_then (seed_binaries E v s) (\<lambda>v s.
     vfs_then (ensure_file E ''/etc/profile'' v s) (\<lambda>v s.
     vfs_then (ensure_file E ''/etc/hostname'' v s) (\<lambda>v s.
       case vfs_write_path E ''/etc/hostname'' (bytes_of (''saios'' @ [CHR 0x0A])) v s of
         None \<Rightarrow> None
       | Some (_, v, s) \<Rightarrow>
           vfs_then (write_manifest E v s) (\<lambda>v s. Some (Inr True, v, s)))))))"

section \<open>Properties\<close>

text \<open>C19: a program written by the package image loads.  After a successful write to a path of the in-memory file system,
  reading the path gives the image, and the loader accepts it as a static, non-relocatable program named
  after the last component of the path.\<close>

theorem written_program_loads:
  assumes "vfs_inv v" and "normalized_path (vfs_fs v) path = Some a" and "\<not> is_sys_path a" and "\<not> storage_backed E s a"
    and "write_binary E path entry v s = Some (Inr (), v1, s1)"
  shows "\<exists>bytes v2. vfs_read_path E path v1 s1 = Some (Inr bytes, v2, s1)
    \<and> parse_elf_metadata path bytes = Some \<lparr>bm_entry = path_basename path, bm_pie = False, bm_preferred_base = 0x401000,
        bm_dynamic = False, bm_interpreter = None, bm_needed_libraries = [], bm_required_symbols = []\<rparr>"
proof -
  have "length elf_image < 2 ^ 64" by (simp add: length_elf_image)
  from write_then_read_path [OF assms(1-4) this] assms(5) obtain v2 where
    "vfs_read_path E path v1 s1 = Some (Inr elf_image, v2, s1)" unfolding write_binary_def by blast
  then show ?thesis using elf_image_parses by blast
qed

theorem written_program_loads_witness:
  "\<exists>v1 bytes v2. write_binary bare_env ''/bin/ls'' ''ls'' vfs_new () = Some (Inr (), v1, ())
    \<and> vfs_read_path bare_env ''/bin/ls'' v1 () = Some (Inr bytes, v2, ())
    \<and> (\<exists>m. parse_elf_metadata ''/bin/ls'' bytes = Some m \<and> bm_entry m = ''ls'')"
proof -
  have n: "normalized_path (vfs_fs vfs_new) ''/bin/ls'' = Some ''/bin/ls''" "\<not> is_sys_path ''/bin/ls''" by code_simp+
  have "case vfs_open ''/bin/ls'' write_only_create vfs_new of Some (Inr fd, v) \<Rightarrow> True | _ \<Rightarrow> False" by code_simp
  then obtain fd v where "vfs_open ''/bin/ls'' write_only_create vfs_new = Some (Inr fd, v)"
    by (auto split: option.splits prod.splits sum.splits)
  from write_path_succeeds [OF vfs_new_inv this] obtain k v1 where
    "open_use_close ''/bin/ls'' write_only_create (\<lambda>fd. vfs_write fd elf_image) vfs_new = Some (Inr k, v1)" by blast
  then have w: "write_binary bare_env ''/bin/ls'' ''ls'' vfs_new () = Some (Inr (), v1, ())"
    using n by (simp add: write_binary_def vfs_write_path_def bare_env_def)
  have "\<not> storage_backed bare_env () ''/bin/ls''" by (simp add: bare_env_def)
  from written_program_loads [OF vfs_new_inv n this w] obtain bytes v2 where
    "vfs_read_path bare_env ''/bin/ls'' v1 () = Some (Inr bytes, v2, ())" "parse_elf_metadata ''/bin/ls'' bytes =
      Some \<lparr>bm_entry = path_basename ''/bin/ls'', bm_pie = False, bm_preferred_base = 0x401000,
        bm_dynamic = False, bm_interpreter = None, bm_needed_libraries = [], bm_required_symbols = []\<rparr>" by blast
  moreover have "path_basename ''/bin/ls'' = ''ls''" by code_simp
  ultimately show ?thesis using w by (metis BinaryMetadata.select_convs(1))
qed

end
