(* ===== verification/Process.thy ===== *)
theory Process
  imports Event_Bus Program_Image
begin

text \<open>
  The process table, \<^verbatim>\<open>seed/saios/src/kernel/process.rs\<close>, and the start-up block of
  \<^verbatim>\<open>kernel/crt.rs\<close>.  Running a program (\<open>programs::execute_path\<close>) may itself use the process table, for
  example the program \<open>kill\<close>; it is the argument \<open>run\<close>, a function on the table and the event bus.  The
  files are the argument \<open>fs\<close> (theory \<open>Program_Image\<close>) and the tick counter is the argument \<open>ticks\<close>.
  Shown are the invariant of the table, what \<open>exec\<close> returns, and the placement of
  position-independent programs.
\<close>

section \<open>Start-up blocks\<close>

record CrtStartupBlock =
  crt_program :: string
  crt_argc :: nat
  crt_argv :: "string list"
  crt_envp :: "(string \<times> string) list"

definition prepare_startup_block :: "string \<Rightarrow> string list \<Rightarrow> (string \<times> string) list \<Rightarrow> CrtStartupBlock" where
  "prepare_startup_block program args env =
     (let argv = program # args
      in \<lparr>crt_program = program, crt_argc = length argv, crt_argv = argv, crt_envp = env\<rparr>)"

section \<open>The table\<close>

datatype ProcessState = Running | Waiting | Exited

record ProcessRecord =
  pid :: u64
  proc_name :: string
  proc_state :: ProcessState
  thread_count :: nat
  exit_code :: "int option"
  image_base :: u64
  load_bias :: u64
  pie_enabled :: bool
  linked_interpreter :: "string option"
  linked_libraries :: "string list"
  resolved_symbols :: "string list"

record ProcessManager =
  pm_initialized :: bool
  pm_records :: "ProcessRecord list"
  next_pid :: u64
  init_pid :: "u64 option"
  shell_pid :: "u64 option"

definition process_manager_new :: ProcessManager where
  "process_manager_new = \<lparr>pm_initialized = False, pm_records = [], next_pid = 1, init_pid = None, shell_pid = None\<rparr>"

definition new_record :: "u64 \<Rightarrow> string \<Rightarrow> ProcessRecord" where
  "new_record p name = \<lparr>pid = p, proc_name = name, proc_state = Running, thread_count = 1, exit_code = None, image_base = 0,
     load_bias = 0, pie_enabled = False, linked_interpreter = None, linked_libraries = [], resolved_symbols = []\<rparr>"

definition pm_spawn :: "string \<Rightarrow> ProcessManager \<Rightarrow> u64 \<times> ProcessManager" where
  "pm_spawn name m =
     (next_pid m, m\<lparr>next_pid := saturating_add (next_pid m) 1, pm_records := pm_records m @ [new_record (next_pid m) name]\<rparr>)"

text \<open>Change the first record with the given pid; an error message when there is none.\<close>

definition with_record :: "string \<Rightarrow> u64 \<Rightarrow> (ProcessRecord \<Rightarrow> ProcessRecord) \<Rightarrow> ProcessManager \<Rightarrow> unit res \<times> ProcessManager" where
  "with_record err p f m =
     (if \<exists>r\<in>set (pm_records m). pid r = p
      then (Inr (), m\<lparr>pm_records := update_first (\<lambda>r. pid r = p) f (pm_records m)\<rparr>)
      else (Inl err, m))"

definition exited :: "int \<Rightarrow> ProcessRecord \<Rightarrow> ProcessRecord" where
  "exited code r = r\<lparr>proc_state := Exited, exit_code := Some code\<rparr>"

definition pm_exit :: "u64 \<Rightarrow> int \<Rightarrow> ProcessManager \<Rightarrow> unit res \<times> ProcessManager" where
  "pm_exit p code = with_record ''process: pid not found'' p (exited code)"

definition unless_exited :: "ProcessState \<Rightarrow> ProcessRecord \<Rightarrow> ProcessRecord" where
  "unless_exited st r = (if proc_state r \<noteq> Exited then r\<lparr>proc_state := st\<rparr> else r)"

definition set_waiting :: "u64 \<Rightarrow> ProcessManager \<Rightarrow> unit res \<times> ProcessManager" where
  "set_waiting p = with_record ''process: pid not found'' p (unless_exited Waiting)"

definition set_running :: "u64 \<Rightarrow> ProcessManager \<Rightarrow> unit res \<times> ProcessManager" where
  "set_running p = with_record ''process: pid not found'' p (unless_exited Running)"

section \<open>Operations\<close>

definition process_init :: "ProcessManager \<Rightarrow> ProcessManager" where
  "process_init m = (if pm_initialized m then m else m\<lparr>pm_initialized := True\<rparr>)"

definition started_detail :: "u64 \<Rightarrow> string \<Rightarrow> string" where
  "started_detail p name = ''pid='' @ dec_string (unat p) @ '' '' @ name @ '' started''"

definition exit_detail :: "u64 \<Rightarrow> int \<Rightarrow> string" where
  "exit_detail p code = ''pid='' @ dec_string (unat p) @ '' exit='' @ int_string code"

definition start_pid1 :: "string \<Rightarrow> ProcessManager \<times> EventBus \<Rightarrow> u64 \<times> ProcessManager \<times> EventBus" where
  "start_pid1 path = (\<lambda>(m, b).
     case init_pid m of
       Some p \<Rightarrow> (p, m, b)
     | None \<Rightarrow>
         let p = next_pid m;
             m1 = m\<lparr>next_pid := saturating_add (next_pid m) 1, pm_records := pm_records m @ [new_record p path]\<rparr>
         in (p, m1\<lparr>init_pid := Some p\<rparr>, publish ProcessStarted ''process'' (started_detail p path) b))"

definition finish_pid1 :: "int \<Rightarrow> ProcessManager \<times> EventBus \<Rightarrow> unit res \<times> ProcessManager \<times> EventBus" where
  "finish_pid1 code = (\<lambda>(m, b).
     case init_pid m of
       None \<Rightarrow> (Inl ''pid1: not started'', m, b)
     | Some p \<Rightarrow>
         (case pm_exit p code m of
            (Inl e, m1) \<Rightarrow> (Inl e, m1, b)
          | (Inr _, m1) \<Rightarrow> (Inr (), m1, publish ProcessStopped ''process'' (exit_detail p code) b)))"

definition ensure_shell_process :: "string \<Rightarrow> ProcessManager \<times> EventBus \<Rightarrow> u64 \<times> ProcessManager \<times> EventBus" where
  "ensure_shell_process name = (\<lambda>(m, b).
     case shell_pid m of
       Some p \<Rightarrow> (p, m, b)
     | None \<Rightarrow>
         (case pm_spawn name m of
            (p, m1) \<Rightarrow> (p, m1\<lparr>shell_pid := Some p\<rparr>, publish ProcessStarted ''process'' (started_detail p name) b)))"

definition process_kill :: "u64 \<Rightarrow> ProcessManager \<times> EventBus \<Rightarrow> unit res \<times> ProcessManager \<times> EventBus" where
  "process_kill p = (\<lambda>(m, b).
     case with_record ''kill: pid not found'' p (exited 137) m of
       (Inl e, m1) \<Rightarrow> (Inl e, m1, b)
     | (Inr _, m1) \<Rightarrow> (Inr (), m1, publish ProcessStopped ''process'' ''killed'' b))"

definition process_wait :: "u64 \<Rightarrow> ProcessManager \<Rightarrow> int res \<times> ProcessManager" where
  "process_wait p m =
     (let m1 = snd (set_waiting p m)
      in case find (\<lambda>r. pid r = p) (pm_records m1) of
           None \<Rightarrow> (Inl ''wait: pid not found'', m1)
         | Some r \<Rightarrow>
             if proc_state r \<noteq> Exited then (Inl ''wait: process still running'', m1)
             else (Inr (case exit_code r of Some c \<Rightarrow> c | None \<Rightarrow> 0), m1))"

definition process_exit :: "u64 \<Rightarrow> int \<Rightarrow> ProcessManager \<times> EventBus \<Rightarrow> unit res \<times> ProcessManager \<times> EventBus" where
  "process_exit p code = (\<lambda>(m, b).
     case pm_exit p code m of
       (Inl e, m1) \<Rightarrow> (Inl e, m1, b)
     | (Inr _, m1) \<Rightarrow> (Inr (), m1, publish ProcessStopped ''process'' (exit_detail p code) b))"

section \<open>Starting programs\<close>

definition candidate_program_paths :: "string \<Rightarrow> string list" where
  "candidate_program_paths name = (if contains_char name (CHR ''/'') then [name] else [name, ''/bin/'' @ name])"

definition resolve_program_name :: "saifs_view \<Rightarrow> string \<Rightarrow> string res" where
  "resolve_program_name fs name =
     (case find (sf_open fs) (candidate_program_paths name) of
        Some candidate \<Rightarrow> Inr candidate
      | None \<Rightarrow> Inl ''exec: program not found'')"

definition compute_pie_layout :: "u64 \<Rightarrow> u64 \<Rightarrow> u64 \<Rightarrow> u64 \<times> u64" where
  "compute_pie_layout ticks p preferred_base =
     (let aslr_window = 0x1000000;
          granularity = 0x1000;
          entropy = ticks XOR (p * 0x9E3779B97F4A7C15);
          offset = (entropy mod aslr_window) AND NOT (granularity - 1)
      in (saturating_add preferred_base offset, offset))"

definition image_layout :: "u64 \<Rightarrow> u64 \<Rightarrow> BinaryMetadata option \<Rightarrow> u64 \<times> u64 \<times> bool" where
  "image_layout ticks p metadata =
     (case metadata of
        None \<Rightarrow> (0, 0, False)
      | Some meta \<Rightarrow>
          if bm_pie meta
          then (case compute_pie_layout ticks p (of_nat (bm_preferred_base meta)) of (base, bias) \<Rightarrow> (base, bias, True))
          else (of_nat (bm_preferred_base meta), 0, False))"

definition bool_string :: "bool \<Rightarrow> string" where
  "bool_string b = (if b then ''true'' else ''false'')"

definition spawn_detail :: "u64 \<Rightarrow> string \<Rightarrow> CrtStartupBlock \<Rightarrow> u64 \<times> u64 \<times> bool \<Rightarrow> LinkReport \<Rightarrow> string" where
  "spawn_detail p resolved startup layout report =
     (case layout of
        (base, bias, pie) \<Rightarrow>
          ''pid='' @ dec_string (unat p) @ '' '' @ resolved @ '' argc='' @ dec_string (crt_argc startup)
          @ '' envc='' @ dec_string (length (crt_envp startup)) @ '' pie='' @ bool_string pie
          @ '' base=0x'' @ hex_string (unat base) @ '' bias=0x'' @ hex_string (unat bias)
          @ '' libs='' @ dec_string (length (lr_libraries report)))"

type_synonym program_run =
  "string \<Rightarrow> string \<Rightarrow> string list \<Rightarrow> (string \<times> string) list \<Rightarrow> ProcessManager \<times> EventBus \<Rightarrow> int res \<times> ProcessManager \<times> EventBus"

definition update_record :: "u64 \<Rightarrow> (ProcessRecord \<Rightarrow> ProcessRecord) \<Rightarrow> ProcessManager \<Rightarrow> ProcessManager" where
  "update_record p f m = m\<lparr>pm_records := update_first (\<lambda>r. pid r = p) f (pm_records m)\<rparr>"

definition link_report :: "saifs_view \<Rightarrow> BinaryMetadata option \<Rightarrow> LinkReport res" where
  "link_report fs metadata =
     (case metadata of
        Some meta \<Rightarrow> link_image fs meta
      | None \<Rightarrow> Inr \<lparr>lr_interpreter = ''-'', lr_libraries = [], lr_resolved_symbols = []\<rparr>)"

definition spawn_prepare ::
  "saifs_view \<Rightarrow> u64 \<Rightarrow> string \<Rightarrow> string \<Rightarrow> string list \<Rightarrow> (string \<times> string) list \<Rightarrow> ProcessManager \<times> EventBus
     \<Rightarrow> u64 res \<times> ProcessManager \<times> EventBus" where
  "spawn_prepare fs ticks resolved program_name args env = (\<lambda>(m, b).
     let startup = prepare_startup_block program_name args env;
         metadata = binary_metadata fs resolved
     in case pm_spawn resolved m of
          (p, m1) \<Rightarrow>
            (case image_layout ticks p metadata of
               (base, bias, pie) \<Rightarrow>
                 let m2 = update_record p (\<lambda>r. r\<lparr>image_base := base, load_bias := bias, pie_enabled := pie\<rparr>) m1
                 in case link_report fs metadata of
                      Inl e \<Rightarrow>
                        (Inl e, update_record p (exited 127) m2,
                         publish ProcessStopped ''process'' (''pid='' @ dec_string (unat p) @ '' dynamic-link-failed '' @ e) b)
                    | Inr report \<Rightarrow>
                        (Inr p,
                         update_record p (\<lambda>r. (if lr_interpreter report \<noteq> ''-''
                             then r\<lparr>linked_interpreter := Some (lr_interpreter report)\<rparr> else r)
                             \<lparr>linked_libraries := lr_libraries report, resolved_symbols := lr_resolved_symbols report\<rparr>) m2,
                         publish ProcessStarted ''process'' (spawn_detail p resolved startup (base, bias, pie) report) b)))"

definition process_spawn ::
  "saifs_view \<Rightarrow> u64 \<Rightarrow> program_run \<Rightarrow> string \<Rightarrow> string list \<Rightarrow> (string \<times> string) list \<Rightarrow> ProcessManager \<times> EventBus
     \<Rightarrow> u64 res \<times> ProcessManager \<times> EventBus" where
  "process_spawn fs ticks run name args env s =
     (case resolve_program_name fs name of
        Inl e \<Rightarrow> (Inl e, s)
      | Inr resolved \<Rightarrow>
          let program_name = path_basename resolved
          in case spawn_prepare fs ticks resolved program_name args env s of
               (Inl e, s1) \<Rightarrow> (Inl e, s1)
             | (Inr p, s1) \<Rightarrow>
                 (case run resolved program_name args env s1 of
                    (r, m2, b2) \<Rightarrow>
                      let code = (case r of Inr c \<Rightarrow> c | Inl _ \<Rightarrow> 127);
                          m3 = snd (pm_exit p code (snd (set_running p m2)))
                      in (Inr p, m3, publish ProcessStopped ''process'' (exit_detail p code) b2)))"

definition process_exec ::
  "saifs_view \<Rightarrow> u64 \<Rightarrow> program_run \<Rightarrow> string \<Rightarrow> string list \<Rightarrow> (string \<times> string) list \<Rightarrow> ProcessManager \<times> EventBus
     \<Rightarrow> int res \<times> ProcessManager \<times> EventBus" where
  "process_exec fs ticks run name args env s =
     (case process_spawn fs ticks run name args env s of
        (Inl e, s1) \<Rightarrow> (Inl e, s1)
      | (Inr p, m, b) \<Rightarrow>
          (case find (\<lambda>r. pid r = p) (pm_records m) of
             None \<Rightarrow> (Inl ''exec: process did not exit'', m, b)
           | Some r \<Rightarrow> (case exit_code r of None \<Rightarrow> (Inl ''exec: process did not exit'', m, b) | Some c \<Rightarrow> (Inr c, m, b))))"

section \<open>The table as a state machine\<close>

text \<open>One critical section of the process manager.  A process is only created while a pid is left.\<close>

definition pid_room :: "ProcessManager \<Rightarrow> bool" where
  "pid_room m \<longleftrightarrow> next_pid m < - 1"

inductive proc_step :: "ProcessManager \<Rightarrow> ProcessManager \<Rightarrow> bool" where
  initialise: "proc_step m (process_init m)"
| spawn: "pid_room m \<Longrightarrow> proc_step m (snd (pm_spawn name m))"
| pid1: "pid_room m \<Longrightarrow> proc_step m (fst (snd (start_pid1 path (m, b))))"
| shell: "pid_room m \<Longrightarrow> proc_step m (fst (snd (ensure_shell_process name (m, b))))"
| pid1_done: "proc_step m (fst (snd (finish_pid1 code (m, b))))"
| kill: "proc_step m (fst (snd (process_kill p (m, b))))"
| wait: "proc_step m (snd (process_wait p m))"
| terminate: "proc_step m (fst (snd (process_exit p code (m, b))))"
| image: "proc_step m (update_record p (\<lambda>r. r\<lparr>image_base := ib, load_bias := lb, pie_enabled := pie\<rparr>) m)"
| linked: "proc_step m (update_record p (\<lambda>r. (if interp \<noteq> ''-'' then r\<lparr>linked_interpreter := Some interp\<rparr> else r)
             \<lparr>linked_libraries := libs, resolved_symbols := syms\<rparr>) m)"
| link_failed: "proc_step m (update_record p (exited 127) m)"
| resume: "proc_step m (snd (set_running p m))"

section \<open>The invariant of the table\<close>

text \<open>Pids are unique and below the next one, an exited process has an exit code, and the remembered pids exist.\<close>

definition proc_inv :: "ProcessManager \<Rightarrow> bool" where
  "proc_inv m \<longleftrightarrow> distinct (map pid (pm_records m)) \<and> (\<forall>r\<in>set (pm_records m). pid r < next_pid m)
     \<and> (\<forall>r\<in>set (pm_records m). proc_state r = Exited \<longrightarrow> exit_code r \<noteq> None)
     \<and> (\<forall>p. init_pid m = Some p \<or> shell_pid m = Some p \<longrightarrow> p \<in> pid ` set (pm_records m))"

text \<open>How a table develops: processes are only added at the end, keep pid and name, and never leave the exited state.\<close>

definition evolves :: "ProcessManager \<Rightarrow> ProcessManager \<Rightarrow> bool" where
  "evolves m m' \<longleftrightarrow> length (pm_records m) \<le> length (pm_records m') \<and> next_pid m \<le> next_pid m' \<and>
     (\<forall>i<length (pm_records m). pid (pm_records m' ! i) = pid (pm_records m ! i)
        \<and> proc_name (pm_records m' ! i) = proc_name (pm_records m ! i)
        \<and> (proc_state (pm_records m ! i) = Exited \<longrightarrow> proc_state (pm_records m' ! i) = Exited))"

lemma evolves_refl [simp]: "evolves m m"
  by (simp add: evolves_def)

lemma evolves_trans: "evolves m m' \<Longrightarrow> evolves m' m'' \<Longrightarrow> evolves m m''"
  by (auto simp: evolves_def)

lemma evolves_pid:
  assumes "evolves m m'" "p \<in> pid ` set (pm_records m)"
  shows "p \<in> pid ` set (pm_records m')"
proof -
  obtain i where i: "i < length (pm_records m)" "p = pid (pm_records m ! i)"
    using assms(2) by (auto simp: in_set_conv_nth)
  with assms(1) have "i < length (pm_records m')" "pid (pm_records m' ! i) = p" by (auto simp: evolves_def)
  then show ?thesis by (metis image_eqI nth_mem)
qed

definition develops :: "ProcessRecord \<Rightarrow> ProcessRecord \<Rightarrow> bool" where
  "develops r r' \<longleftrightarrow> pid r' = pid r \<and> proc_name r' = proc_name r \<and> (proc_state r = Exited \<longrightarrow> proc_state r' = Exited)
     \<and> ((proc_state r = Exited \<longrightarrow> exit_code r \<noteq> None) \<longrightarrow> proc_state r' = Exited \<longrightarrow> exit_code r' \<noteq> None)"

lemma develops_refl: "develops r r"
  by (simp add: develops_def)

lemma update_first_all2:
  assumes "\<And>x. R x x" "\<And>x. R x (f x)"
  shows "list_all2 R xs (update_first P f xs)"
  by (induction xs) (simp_all add: assms list.rel_refl)

lemma update_record_inv:
  assumes I: "proc_inv m" and K: "\<And>r. develops r (f r)"
  shows "proc_inv (update_record p f m) \<and> evolves m (update_record p f m)"
proof -
  define rs where "rs = pm_records m"
  define rs' where "rs' = update_first (\<lambda>r. pid r = p) f rs"
  have eq: "update_record p f m = m\<lparr>pm_records := rs'\<rparr>" by (simp add: update_record_def rs'_def rs_def)
  have L: "list_all2 develops rs rs'"
    unfolding rs'_def by (rule update_first_all2) (rule develops_refl K)+
  then have len: "length rs' = length rs" by (simp add: list_all2_lengthD)
  have nth: "develops (rs ! i) (rs' ! i)" if "i < length rs" for i
    using L that by (rule list_all2_nthD)
  have pids: "map pid rs' = map pid rs"
    using nth by (intro nth_equalityI) (simp_all add: len develops_def)
  have E: "exit_code r \<noteq> None" if r: "r \<in> set rs'" "proc_state r = Exited" for r
  proof -
    obtain i where i: "i < length rs" "r = rs' ! i" using r(1) unfolding in_set_conv_nth len by blast
    have "proc_state (rs ! i) = Exited \<longrightarrow> exit_code (rs ! i) \<noteq> None"
      using I i(1) unfolding proc_inv_def rs_def by (meson nth_mem)
    then show ?thesis using nth [OF i(1)] r(2) unfolding i(2) develops_def by blast
  qed
  have S: "pid ` set rs' = pid ` set rs" using pids by (metis list.set_map)
  have B: "pid r < next_pid m" if "r \<in> set rs'" for r
  proof -
    have "pid r \<in> pid ` set rs" using that S by blast
    then show ?thesis using I by (auto simp: proc_inv_def rs_def)
  qed
  have "proc_inv (m\<lparr>pm_records := rs'\<rparr>)"
    using I B E S pids by (simp add: proc_inv_def rs_def)
  moreover have "evolves m (m\<lparr>pm_records := rs'\<rparr>)"
    using nth by (simp add: evolves_def len rs_def develops_def)
  ultimately show ?thesis unfolding eq ..
qed

lemma with_record_update: "snd (with_record err p f m) = m \<or> snd (with_record err p f m) = update_record p f m"
  by (simp add: with_record_def update_record_def)

lemma with_record_inv:
  "proc_inv m \<Longrightarrow> (\<And>r. develops r (f r)) \<Longrightarrow> proc_inv (snd (with_record err p f m)) \<and> evolves m (snd (with_record err p f m))"
  using with_record_update [of err p f m] update_record_inv [of m f p] by auto

lemma develops_exited: "develops r (exited code r)"
  by (simp add: develops_def exited_def)

lemma develops_unless: "st \<noteq> Exited \<Longrightarrow> develops r (unless_exited st r)"
  by (simp add: develops_def unless_exited_def)

lemma next_pid_step:
  assumes "pid_room m"
  shows "next_pid m < saturating_add (next_pid m) 1"
proof -
  have "unat (next_pid m) < 2 ^ 64 - 1"
    using assms unat_minus_one_word [where 'a = 64] by (simp add: pid_room_def word_less_nat_alt)
  then show ?thesis by (simp add: word_less_nat_alt unat_saturating_add)
qed

lemma spawn_inv:
  assumes I: "proc_inv m" and R: "pid_room m"
  shows "proc_inv (snd (pm_spawn name m))" "evolves m (snd (pm_spawn name m))"
    "next_pid m \<in> pid ` set (pm_records (snd (pm_spawn name m)))" "next_pid m \<notin> pid ` set (pm_records m)"
proof -
  have new: "\<forall>r\<in>set (pm_records m). pid r \<noteq> next_pid m" using I by (auto simp: proc_inv_def)
  have below: "\<forall>r\<in>set (pm_records m). pid r < saturating_add (next_pid m) 1"
    using I next_pid_step [OF R] by (auto simp: proc_inv_def)
  show "proc_inv (snd (pm_spawn name m))"
    using I new below next_pid_step [OF R] by (auto simp: proc_inv_def pm_spawn_def new_record_def)
  show "evolves m (snd (pm_spawn name m))"
    using next_pid_step [OF R] by (simp add: evolves_def pm_spawn_def nth_append)
  show "next_pid m \<in> pid ` set (pm_records (snd (pm_spawn name m)))" by (simp add: pm_spawn_def new_record_def)
  show "next_pid m \<notin> pid ` set (pm_records m)" using new by force
qed

lemma snd_process_wait: "snd (process_wait p m) = snd (set_waiting p m)"
  by (simp add: process_wait_def Let_def split: option.split)

lemma table_of_exits:
  "fst (snd (process_kill p (m, b))) = snd (with_record ''kill: pid not found'' p (exited 137) m)"
  "fst (snd (process_exit p code (m, b))) = snd (pm_exit p code m)"
  "fst (snd (finish_pid1 code (m, b))) = (case init_pid m of None \<Rightarrow> m | Some q \<Rightarrow> snd (pm_exit q code m))"
  by (simp_all add: process_kill_def process_exit_def finish_pid1_def split: prod.split sum.split option.split)

lemma table_of_starts:
  "init_pid m = None \<Longrightarrow> fst (snd (start_pid1 path (m, b))) = (snd (pm_spawn path m))\<lparr>init_pid := Some (next_pid m)\<rparr>"
  "shell_pid m = None \<Longrightarrow> fst (snd (ensure_shell_process path (m, b))) = (snd (pm_spawn path m))\<lparr>shell_pid := Some (next_pid m)\<rparr>"
  "init_pid m = Some p \<Longrightarrow> fst (snd (start_pid1 path (m, b))) = m"
  "shell_pid m = Some p \<Longrightarrow> fst (snd (ensure_shell_process path (m, b))) = m"
  by (simp_all add: start_pid1_def ensure_shell_process_def pm_spawn_def Let_def)

text \<open>What the manager remembers about its first process and its shell may point to any process of the table.\<close>

lemma remember_inv:
  assumes "proc_inv m" "p \<in> pid ` set (pm_records m)"
  shows "proc_inv (m\<lparr>init_pid := Some p\<rparr>)" "proc_inv (m\<lparr>shell_pid := Some p\<rparr>)"
  using assms by (auto simp: proc_inv_def)

lemma evolves_remember [simp]:
  "evolves m (m'\<lparr>init_pid := x\<rparr>) = evolves m m'" "evolves m (m'\<lparr>shell_pid := x\<rparr>) = evolves m m'"
  by (simp_all add: evolves_def)

lemmas exits_inv = with_record_inv [OF _ develops_exited]

lemma proc_step_inv:
  assumes "proc_step m m'" "proc_inv m"
  shows "proc_inv m' \<and> evolves m m'"
  using assms
proof (induction rule: proc_step.induct)
  case (initialise m)
  then show ?case by (simp add: process_init_def proc_inv_def evolves_def)
next
  case (spawn m name)
  then show ?case by (simp add: spawn_inv)
next
  case (pid1 m path b)
  then show ?case by (cases "init_pid m") (simp_all add: table_of_starts spawn_inv remember_inv)
next
  case (shell m name b)
  then show ?case by (cases "shell_pid m") (simp_all add: table_of_starts spawn_inv remember_inv)
next
  case (pid1_done m code b)
  then show ?case unfolding table_of_exits by (cases "init_pid m") (simp_all add: pm_exit_def exits_inv)
next
  case (kill m p b)
  then show ?case unfolding table_of_exits by (rule exits_inv)
next
  case (wait m p)
  then show ?case unfolding snd_process_wait set_waiting_def by (rule with_record_inv) (simp add: develops_unless)
next
  case (terminate m p code b)
  then show ?case unfolding table_of_exits pm_exit_def by (rule exits_inv)
next
  case (image m p ib lb pie)
  then show ?case by (rule update_record_inv) (simp add: develops_def)
next
  case (linked m p interp libs syms)
  then show ?case by (rule update_record_inv) (simp add: develops_def)
next
  case (link_failed m p)
  then show ?case by (rule update_record_inv) (rule develops_exited)
next
  case (resume m p)
  then show ?case unfolding set_running_def by (rule with_record_inv) (simp add: develops_unless)
qed

lemma proc_steps_inv:
  assumes "proc_step\<^sup>*\<^sup>* m m'" "proc_inv m"
  shows "proc_inv m' \<and> evolves m m'"
  using assms
proof (induction rule: rtranclp_induct)
  case (step y z)
  then show ?case using proc_step_inv [of y z] evolves_trans [of m y z] by simp
qed simp

lemma process_manager_new_inv: "proc_inv process_manager_new"
  by (simp add: process_manager_new_def proc_inv_def)

section \<open>Running a program to its end\<close>

lemma find_in_table: "p \<in> pid ` set (pm_records m) \<Longrightarrow> \<exists>r. find (\<lambda>r. pid r = p) (pm_records m) = Some r \<and> pid r = p"
  by (cases "find (\<lambda>r. pid r = p) (pm_records m)") (auto simp: find_None_iff find_Some_iff)

lemma with_record_in: "p \<in> pid ` set (pm_records m) \<Longrightarrow> with_record err p f m = (Inr (), update_record p f m)"
  by (auto simp: with_record_def update_record_def)

lemma find_update_record:
  "(\<And>r. pid (f r) = pid r) \<Longrightarrow>
    find (\<lambda>r. pid r = p) (pm_records (update_record p f m)) = map_option f (find (\<lambda>r. pid r = p) (pm_records m))"
  by (simp add: update_record_def find_update_first)

lemma spawn_prepare_steps:
  assumes "pid_room m" "spawn_prepare fs ticks resolved program_name args env (m, b) = (r, m1, b1)"
  shows "proc_step\<^sup>*\<^sup>* (snd (pm_spawn resolved m)) m1" "r = Inr p \<Longrightarrow> p = next_pid m"
    "r = Inl e \<longleftrightarrow> link_report fs (binary_metadata fs resolved) = Inl e"
    "r = Inl e \<Longrightarrow> find (\<lambda>r. pid r = next_pid m) (pm_records m1) = Some q \<Longrightarrow> proc_state q = Exited \<and> exit_code q = Some 127"
proof -
  obtain base bias pie where L: "image_layout ticks (next_pid m) (binary_metadata fs resolved) = (base, bias, pie)"
    by (metis prod_cases3)
  define m2 where "m2 = update_record (next_pid m) (\<lambda>r. r\<lparr>image_base := base, load_bias := bias, pie_enabled := pie\<rparr>) (snd (pm_spawn resolved m))"
  have s2: "proc_step (snd (pm_spawn resolved m)) m2" unfolding m2_def by (rule image)
  consider
    (failed) e' where "r = Inl e'" "link_report fs (binary_metadata fs resolved) = Inl e'" "m1 = update_record (next_pid m) (exited 127) m2"
  | (linked) rep interp libs syms where "r = Inr (next_pid m)" "link_report fs (binary_metadata fs resolved) = Inr rep" "m1 = update_record (next_pid m)
       (\<lambda>r. (if interp \<noteq> ''-'' then r\<lparr>linked_interpreter := Some interp\<rparr> else r)
             \<lparr>linked_libraries := libs, resolved_symbols := syms\<rparr>) m2"
    using assms(2) L unfolding spawn_prepare_def m2_def
    by (auto simp: Let_def pm_spawn_def split: sum.splits)
  then have A: "proc_step\<^sup>*\<^sup>* (snd (pm_spawn resolved m)) m1 \<and> (r = Inr p \<longrightarrow> p = next_pid m)
    \<and> (r = Inl e \<longleftrightarrow> link_report fs (binary_metadata fs resolved) = Inl e)
    \<and> (r = Inl e \<longrightarrow> find (\<lambda>r. pid r = next_pid m) (pm_records m1) = Some q \<longrightarrow> proc_state q = Exited \<and> exit_code q = Some 127)"
  proof cases
    case failed
    then have "proc_step m2 m1" by (simp add: link_failed)
    moreover have "find (\<lambda>r. pid r = next_pid m) (pm_records m1) = map_option (exited 127) (find (\<lambda>r. pid r = next_pid m) (pm_records m2))"
      unfolding failed(3) by (rule find_update_record) (simp add: exited_def)
    ultimately show ?thesis using s2 failed(1,2) by (auto simp: exited_def)
  next
    case linked
    then have "proc_step m2 m1" by (simp only: proc_step.linked)
    then show ?thesis using s2 linked(1,2) by auto
  qed
  then show "proc_step\<^sup>*\<^sup>* (snd (pm_spawn resolved m)) m1" by blast
  show "r = Inr p \<Longrightarrow> p = next_pid m" using A by blast
  show "r = Inl e \<longleftrightarrow> link_report fs (binary_metadata fs resolved) = Inl e" using A by blast
  show "r = Inl e \<Longrightarrow> find (\<lambda>r. pid r = next_pid m) (pm_records m1) = Some q \<Longrightarrow> proc_state q = Exited \<and> exit_code q = Some 127" using A by blast
qed

lemma find_evolves:
  assumes I: "proc_inv m'" and E: "evolves m m'" and F: "find (\<lambda>r. pid r = p) (pm_records m) = Some r"
  shows "\<exists>r'. find (\<lambda>r. pid r = p) (pm_records m') = Some r' \<and> proc_name r' = proc_name r"
proof -
  obtain i where i: "i < length (pm_records m)" "pid (pm_records m ! i) = p" "r = pm_records m ! i"
    using F by (auto simp: find_Some_iff)
  have j: "i < length (pm_records m')" "pid (pm_records m' ! i) = p" "proc_name (pm_records m' ! i) = proc_name r"
    using E i by (auto simp: evolves_def)
  have "pid (pm_records m' ! k) \<noteq> p" if "k < i" for k
    using I j(1,2) that distinct_conv_nth [of "map pid (pm_records m')"] by (auto simp: proc_inv_def)
  then show ?thesis using j unfolding find_Some_iff by blast
qed

lemma find_spawned:
  assumes "proc_inv m"
  shows "find (\<lambda>r. pid r = next_pid m) (pm_records (snd (pm_spawn name m))) = Some (new_record (next_pid m) name)"
proof -
  have "\<forall>r\<in>set (pm_records m). pid r \<noteq> next_pid m" using assms by (auto simp: proc_inv_def)
  then have "find (\<lambda>r. pid r = next_pid m) (pm_records m) = None" by (simp add: find_None_iff)
  then show ?thesis by (simp add: pm_spawn_def find_append new_record_def)
qed

lemma pm_exit_found:
  assumes "p \<in> pid ` set (pm_records m)"
  shows "\<exists>r. find (\<lambda>r. pid r = p) (pm_records (snd (pm_exit p code m))) = Some r \<and> proc_state r = Exited \<and> exit_code r = Some code"
proof -
  obtain r where r: "find (\<lambda>r. pid r = p) (pm_records m) = Some r" using find_in_table [OF assms] by blast
  have "find (\<lambda>r. pid r = p) (pm_records (update_record p (exited code) m))
      = map_option (exited code) (find (\<lambda>r. pid r = p) (pm_records m))"
    by (rule find_update_record) (simp add: exited_def)
  then show ?thesis using r by (simp add: pm_exit_def with_record_in [OF assms] exited_def)
qed

text \<open>The end of a spawn: the program has run, and its process is marked exited.\<close>

lemma spawn_finish:
  fixes code :: int
  assumes I: "proc_inv m2" and P: "p \<in> pid ` set (pm_records m2)"
  defines "m3 \<equiv> snd (pm_exit p code (snd (set_running p m2)))"
  shows "proc_inv m3" "evolves m2 m3"
    "\<exists>r. find (\<lambda>r. pid r = p) (pm_records m3) = Some r \<and> proc_state r = Exited \<and> exit_code r = Some code"
proof -
  have 1: "proc_step m2 (snd (set_running p m2))" by (rule resume)
  have 2: "proc_step (snd (set_running p m2)) m3"
    unfolding m3_def using terminate [of "snd (set_running p m2)" p code b for b] by (simp add: table_of_exits)
  have "proc_step\<^sup>*\<^sup>* m2 m3" using 1 2 by simp
  then show "proc_inv m3" "evolves m2 m3" using proc_steps_inv I by blast+
  have "p \<in> pid ` set (pm_records (snd (set_running p m2)))" using evolves_pid proc_step_inv [OF 1 I] P by blast
  then show "\<exists>r. find (\<lambda>r. pid r = p) (pm_records m3) = Some r \<and> proc_state r = Exited \<and> exit_code r = Some code"
    unfolding m3_def by (rule pm_exit_found)
qed

lemma page_floor:
  fixes x :: u64
  shows "4096 dvd unat (x AND NOT 0xFFF)" "unat (x AND NOT 0xFFF) \<le> unat x"
proof -
  have m: "0xFFF = (mask 12 :: u64)" by (simp add: mask_eq_exp_minus_1)
  have "take_bit 12 (x AND NOT (mask 12)) = 0" by (simp add: take_bit_eq_mask and.assoc)
  then have "take_bit 12 (unat (x AND NOT (mask 12))) = 0" by (metis unsigned_take_bit_eq unsigned_0)
  then show "4096 dvd unat (x AND NOT 0xFFF)" unfolding m by (simp add: take_bit_eq_mod dvd_eq_mod_eq_0)
  show "unat (x AND NOT 0xFFF) \<le> unat x" by (metis word_and_le2 word_le_nat_alt)
qed

lemma process_manager_new_room: "pid_room process_manager_new"
  by (simp add: pid_room_def process_manager_new_def word_less_nat_alt unat_minus_one_word)

definition killing_run :: program_run where
  "killing_run path prog args env = (\<lambda>(m, b). (Inr 3, snd (process_kill 1 (m, b))))"

section \<open>Properties\<close>

text \<open>C23: the life of the process table.  In every table the operations reach from the empty one, pids are unique and below the
  next pid, an exited process has an exit code, and the remembered first process and shell exist; from then on
  processes are only added at the end, keep pid and name, and an exited one stays exited.\<close>

theorem process_table_lifecycle:
  assumes "proc_step\<^sup>*\<^sup>* process_manager_new m" "proc_step\<^sup>*\<^sup>* m m'"
  shows "proc_inv m' \<and> evolves m m'"
  using proc_steps_inv [OF assms(1) process_manager_new_inv] proc_steps_inv [OF assms(2)] by simp

theorem process_table_lifecycle_witness:
  "proc_inv (fst (snd (process_kill 1 (snd (pm_spawn ''init'' process_manager_new), bus_new))))
    \<and> evolves (snd (pm_spawn ''init'' process_manager_new)) (fst (snd (process_kill 1 (snd (pm_spawn ''init'' process_manager_new), bus_new))))"
proof -
  have "proc_step process_manager_new (snd (pm_spawn ''init'' process_manager_new))"
    by (rule spawn) (rule process_manager_new_room)
  then show ?thesis by (intro process_table_lifecycle r_into_rtranclp kill)
qed

text \<open>C12: what \<open>exec\<close> reports.  When the name resolves to a program, its new process is in the table afterwards, exited, under
  the program's path.  A failed link is reported with the linker's message and exit code 127; otherwise
  \<open>exec\<close> returns the exit code of the run (127 when the run itself failed), and never "process did not exit".\<close>

theorem process_exec_reports:
  assumes I: "proc_inv m" and R: "pid_room m"
    and run: "\<And>path prog m b. proc_step\<^sup>*\<^sup>* m (fst (snd (run path prog args env (m, b))))"
    and X: "process_exec fs ticks run name args env (m, b) = (res, m', b')"
  shows "case resolve_program_name fs name of
      Inl e \<Rightarrow> res = Inl e \<and> m' = m
    | Inr path \<Rightarrow> proc_inv m' \<and> evolves m m' \<and>
        (\<exists>rec. find (\<lambda>r. pid r = next_pid m) (pm_records m') = Some rec \<and> proc_name rec = path \<and> proc_state rec = Exited \<and>
          (case link_report fs (binary_metadata fs path) of
             Inl e \<Rightarrow> res = Inl e \<and> exit_code rec = Some 127
           | Inr _ \<Rightarrow> \<exists>s r s' c. run path (path_basename path) args env s = (r, s') \<and> c = (case r of Inr c \<Rightarrow> c | Inl _ \<Rightarrow> 127)
               \<and> res = Inr c \<and> exit_code rec = Some c))"
proof (cases "resolve_program_name fs name")
  case (Inl e)
  then show ?thesis using X by (simp add: process_exec_def process_spawn_def)
next
  case (Inr path)
  let ?p = "next_pid m" and ?m0 = "snd (pm_spawn path m)" and ?find = "\<lambda>m'. find (\<lambda>r. pid r = next_pid m) (pm_records m')"
  obtain r1 m1 b1 where S: "spawn_prepare fs ticks path (path_basename path) args env (m, b) = (r1, m1, b1)"
    by (metis prod_cases3)
  note steps = spawn_prepare_steps [OF R S]
  note I0 = spawn_inv(1-3) [OF I R, of path]
  have I1: "proc_inv m1" and E1: "evolves ?m0 m1" using proc_steps_inv [OF steps(1) I0(1)] by blast+
  show ?thesis
  proof (cases r1)
    case (Inl e)
    obtain q where q: "?find m1 = Some q" "proc_name q = path"
      using find_evolves [OF I1 E1 find_spawned [OF I]] by (auto simp: new_record_def)
    have "res = Inl e" "m' = m1" using X Inr Inl S by (simp_all add: process_exec_def process_spawn_def)
    moreover have "link_report fs (binary_metadata fs path) = Inl e" using steps(3) [of e] Inl by blast
    ultimately show ?thesis using Inr I1 evolves_trans [OF I0(2) E1] q steps(4) [OF Inl q(1)] by simp
  next
    case r1: (Inr p)
    have p: "p = ?p" using steps(2) r1 by blast
    obtain r m2 b2 where r: "run path (path_basename path) args env (m1, b1) = (r, m2, b2)" by (metis prod_cases3)
    define c where "c = (case r of Inr c \<Rightarrow> c | Inl _ \<Rightarrow> 127)"
    have "proc_step\<^sup>*\<^sup>* m1 m2" using run [where path = path and m = m1 and b = b1] r by (metis fst_conv snd_conv)
    then have I2: "proc_inv m2" and E2: "evolves m1 m2" using proc_steps_inv I1 by blast+
    have "?p \<in> pid ` set (pm_records m2)" using evolves_pid [OF E2] evolves_pid [OF E1] I0(3) by blast
    note F = spawn_finish [OF I2 this, of c]
    let ?m3 = "snd (pm_exit ?p c (snd (set_running ?p m2)))"
    have E3: "evolves ?m0 ?m3" using evolves_trans [OF evolves_trans [OF E1 E2] F(2)] .
    obtain q where q: "?find ?m3 = Some q" "proc_name q = path"
      using find_evolves [OF F(1) E3 find_spawned [OF I]] by (auto simp: new_record_def)
    then have q': "proc_state q = Exited" "exit_code q = Some c" using F(3) by auto
    have "res = Inr c" "m' = ?m3"
      using X Inr S r1 r q(1) q' by (simp_all add: process_exec_def process_spawn_def Let_def p c_def)
    moreover obtain rep where "link_report fs (binary_metadata fs path) = Inr rep"
      using steps(3) r1 by (metis sum.exhaust Inl_Inr_False)
    moreover have "\<exists>s r s' d. run path (path_basename path) args env s = (r, s') \<and> d = (case r of Inr c \<Rightarrow> c | Inl _ \<Rightarrow> 127)
        \<and> Inr c = (Inr d :: int res) \<and> Some c = Some d"
      using r c_def by blast
    ultimately show ?thesis using Inr F(1) evolves_trans [OF I0(2) E3] q q' by simp
  qed
qed

theorem process_exec_reports_witness:
  "\<exists>m b. process_exec demo_view 7 killing_run ''/lib/libc.so'' [] [] (process_manager_new, bus_new) = (Inr 3, m, b)
    \<and> (\<exists>rec. find (\<lambda>r. pid r = 1) (pm_records m) = Some rec \<and> exit_code rec = Some 3)"
proof -
  obtain res m b where X: "process_exec demo_view 7 killing_run ''/lib/libc.so'' [] [] (process_manager_new, bus_new) = (res, m, b)"
    by (metis prod_cases3)
  have run: "proc_step\<^sup>*\<^sup>* m (fst (snd (killing_run path prog [] [] (m, b))))" for path prog m b
    unfolding killing_run_def by (auto intro: kill)
  have "resolve_program_name demo_view ''/lib/libc.so'' = Inr ''/lib/libc.so''" by code_simp
  moreover have "binary_metadata demo_view ''/lib/libc.so'' = None" by code_simp
  ultimately show ?thesis
    using process_exec_reports [OF process_manager_new_inv process_manager_new_room run X] X
    by (auto simp: link_report_def killing_run_def process_manager_new_def)
qed

text \<open>The placement of position-independent programs.  The offset is a whole number of pages below 16 MiB, and the image is
  placed that far above its preferred base, or at the top of the address space where the sum does not fit.\<close>

lemma pie_layout_bounds:
  "unat (snd (compute_pie_layout ticks p base)) < 0x1000000 \<and> 4096 dvd unat (snd (compute_pie_layout ticks p base))
    \<and> unat (fst (compute_pie_layout ticks p base))
        = min (2 ^ 64 - 1) (unat base + unat (snd (compute_pie_layout ticks p base)))"
proof -
  let ?e = "(ticks XOR (p * 0x9E3779B97F4A7C15)) mod 0x1000000"
  have "unat ?e < 0x1000000" by (simp add: unat_mod)
  then have "unat (?e AND NOT 0xFFF) < 0x1000000" using page_floor(2) [of ?e] by linarith
  then show ?thesis using page_floor(1) [of ?e] by (simp add: compute_pie_layout_def Let_def unat_saturating_add)
qed

end
