(* ===== verification/Saifs.thy ===== *)
theory Saifs
  imports Vfs "HOL-Library.Sublist"
begin

text \<open>
  The name space above the virtual file system, \<^verbatim>\<open>seed/saios/src/saifs.rs\<close>: canonical paths, providers, mounts, handles
  and events.  A provider is a record of functions on the virtual file system and the rest \<open>'s\<close> of the
  system; the default provider calls the operations of theory \<open>Vfs\<close>.  The object manager is the parameter
  \<open>om\<close>.  Running a function may not return (a cyclic directory, see theory \<open>Tmpfs\<close>), hence the option.
  Shown are that canonical paths are well formed, that a path is served by the innermost mount above it,
  and that every path can be resolved in every reachable state.
\<close>

section \<open>Data\<close>

datatype SaifsNodeKind = KFile | KDirectory | KObject | KVirtual

datatype CreateKind = CreateFile | CreateDirectory

datatype SaifsError =
  NotFound | AlreadyExists | InvalidPath | InvalidHandle | UnsupportedOperation | AccessDenied | ProviderUnavailable
| Busy | Corrupt | Internal

type_synonym 'a sres = "SaifsError + 'a"

record LookupResult =
  lk_object_id :: "u64 option"
  lk_kind :: SaifsNodeKind

record DirEntry =
  de_name :: string
  de_kind :: SaifsNodeKind

record MountPoint =
  mp_path :: string
  mp_provider :: u64
  mp_read_only :: bool

record ResolvedPath =
  rp_input_path :: string
  rp_absolute_path :: string
  rp_provider_path :: string
  rp_mount_path :: string
  rp_provider :: u64
  rp_read_only :: bool

datatype EventType =
  ObjectCreated | ObjectRemoved | PropertyChanged | HealthChanged | Mounted | Unmounted | DriverLoaded | DeviceAttached
| MemoryAllocated

record Event =
  ev_id :: u64
  ev_type :: EventType
  ev_object :: "u64 option"
  ev_payload :: string

type_synonym ('a, 's) provider_run = "VfsState \<Rightarrow> 's \<Rightarrow> ('a sres \<times> VfsState \<times> 's) option"

record 's NamespaceProvider =
  np_name :: string
  np_lookup :: "string \<Rightarrow> (LookupResult, 's) provider_run"
  np_enumerate :: "string \<Rightarrow> (DirEntry list, 's) provider_run"
  np_create :: "string \<Rightarrow> CreateKind \<Rightarrow> (u64, 's) provider_run"
  np_remove :: "string \<Rightarrow> (unit, 's) provider_run"

record 's SaifsState =
  sf_initialized :: bool
  next_provider_id :: u64
  next_handle_id :: u64
  next_event_id :: u64
  next_subscription_id :: u64
  sf_providers :: "(u64 \<times> 's NamespaceProvider) list"
  sf_mounts :: "MountPoint list"
  sf_events :: "Event list"
  subscriptions :: "u64 list"

definition saifs_new :: "'s SaifsState" where
  "saifs_new = \<lparr>sf_initialized = False, next_provider_id = 1, next_handle_id = 1, next_event_id = 1,
     next_subscription_id = 1, sf_providers = [], sf_mounts = [], sf_events = [], subscriptions = []\<rparr>"

definition alloc_provider_id :: "'s SaifsState \<Rightarrow> u64 \<times> 's SaifsState" where
  "alloc_provider_id st = (next_provider_id st, st\<lparr>next_provider_id := next_provider_id st + 1\<rparr>)"

definition alloc_handle_id :: "'s SaifsState \<Rightarrow> u64 \<times> 's SaifsState" where
  "alloc_handle_id st = (next_handle_id st, st\<lparr>next_handle_id := next_handle_id st + 1\<rparr>)"

definition alloc_event_id :: "'s SaifsState \<Rightarrow> u64 \<times> 's SaifsState" where
  "alloc_event_id st = (next_event_id st, st\<lparr>next_event_id := next_event_id st + 1\<rparr>)"

definition alloc_subscription_id :: "'s SaifsState \<Rightarrow> u64 \<times> 's SaifsState" where
  "alloc_subscription_id st = (next_subscription_id st, st\<lparr>next_subscription_id := next_subscription_id st + 1\<rparr>)"

text \<open>The object manager.\<close>

datatype Health = Healthy | Warning | Critical | HOffline

record Property =
  prop_key :: string
  prop_value :: string

record om_object =
  mo_id :: u64
  mo_health :: Health
  mo_properties :: "Property list"
  mo_children :: "u64 list"

record 's om =
  om_init :: "'s \<Rightarrow> 's"
  om_metadata :: "'s \<Rightarrow> string \<Rightarrow> om_object option"
  om_lookup_by_id :: "'s \<Rightarrow> u64 \<Rightarrow> string option"

section \<open>Paths\<close>

fun canonical_parts :: "string list \<Rightarrow> string list \<Rightarrow> string list" where
  "canonical_parts parts [] = parts"
| "canonical_parts parts (p # ps) =
     (if p = [] \<or> p = ''.'' then canonical_parts parts ps
      else if p = ''..'' then canonical_parts (butlast parts) ps
      else canonical_parts (parts @ [p]) ps)"

definition path_of :: "string list \<Rightarrow> string" where
  "path_of parts = (if parts = [] then ''/'' else CHR ''/'' # join_char (CHR ''/'') parts)"

definition canonicalize_path :: "string \<Rightarrow> string sres" where
  "canonicalize_path path =
     (if CHR 0x00 \<in> set path then Inl InvalidPath
      else if path = [] \<or> path = ''/'' then Inr ''/''
      else let source = (if starts_with path ''/'' then path else CHR ''/'' # path)
           in Inr (path_of (canonical_parts [] (split_char (CHR ''/'') source))))"

definition normalize_path :: "string \<Rightarrow> string" where
  "normalize_path path = (case canonicalize_path path of Inr p \<Rightarrow> p | Inl _ \<Rightarrow> ''/'')"

definition path_in_mount :: "string \<Rightarrow> string \<Rightarrow> bool" where
  "path_in_mount mount_path path \<longleftrightarrow> mount_path = ''/'' \<or> path = mount_path
     \<or> (starts_with path mount_path \<and> length mount_path < length path \<and> path ! length mount_path = CHR ''/'')"

definition provider_path_from_mount :: "string \<Rightarrow> string \<Rightarrow> string" where
  "provider_path_from_mount mount_path absolute_path =
     (if mount_path = ''/'' then absolute_path
      else if absolute_path = mount_path then ''/''
      else let tail = drop (length mount_path) absolute_path
           in if starts_with tail ''/'' then tail else CHR ''/'' # tail)"

definition map_str_err :: "string \<Rightarrow> SaifsError" where
  "map_str_err err =
     (if err = ''path not found'' \<or> err = ''node missing'' then NotFound
      else if err = ''already exists'' then AlreadyExists
      else if err = ''invalid name'' \<or> err = ''missing name'' then InvalidPath
      else if err = ''not a file'' \<or> err = ''not a directory'' \<or> err = ''parent is not a directory'' then UnsupportedOperation
      else if err = ''cannot remove root'' \<or> err = ''directory not empty'' then Busy
      else if err = ''invalid inode'' then Corrupt
      else if err = ''read-only virtual path'' then AccessDenied
      else Internal)"

definition map_err :: "'a res \<Rightarrow> 'a sres" where
  "map_err r = (case r of Inl e \<Rightarrow> Inl (map_str_err e) | Inr x \<Rightarrow> Inr x)"

section \<open>The default provider\<close>

definition default_lookup :: "'s env \<Rightarrow> 's om \<Rightarrow> string \<Rightarrow> (LookupResult, 's) provider_run" where
  "default_lookup E om path0 v s =
     (let path = normalize_path path0;
          through_vfs = (\<lambda>s. map_option (\<lambda>out. case out of
              (Inl e, s') \<Rightarrow> (Inl (map_str_err e), v, s')
            | (Inr (_, _, kind), s') \<Rightarrow>
                (Inr \<lparr>lk_object_id = map_option mo_id (om_metadata om s' path),
                   lk_kind = (case kind of File \<Rightarrow> KFile | Directory \<Rightarrow> KDirectory)\<rparr>, v, s'))
            (vfs_open_node E path v s))
      in if path = ''/sys'' \<or> starts_with path ''/sys/''
         then (case om_metadata om s path of
                 Some m \<Rightarrow> Some (Inr \<lparr>lk_object_id = Some (mo_id m), lk_kind = KObject\<rparr>, v, s)
               | None \<Rightarrow>
                   (case sys_readdir E path s of
                      (Some _, s1) \<Rightarrow> Some (Inr \<lparr>lk_object_id = None, lk_kind = KVirtual\<rparr>, v, s1)
                    | (None, s1) \<Rightarrow>
                        (case sys_read E path s1 of
                           (Some _, s2) \<Rightarrow> Some (Inr \<lparr>lk_object_id = None, lk_kind = KVirtual\<rparr>, v, s2)
                         | (None, s2) \<Rightarrow> through_vfs s2)))
         else through_vfs s)"

definition default_enumerate :: "'s env \<Rightarrow> string \<Rightarrow> (DirEntry list, 's) provider_run" where
  "default_enumerate E path v s =
     map_option (\<lambda>out. case out of
         (Inl e, v', s') \<Rightarrow> (Inl (map_str_err e), v', s')
       | (Inr names, v', s') \<Rightarrow> (Inr (map (\<lambda>n. \<lparr>de_name = n, de_kind = KVirtual\<rparr>) names), v', s'))
     (vfs_ls E (Some (normalize_path path)) v s)"

definition default_create :: "'s env \<Rightarrow> 's om \<Rightarrow> string \<Rightarrow> CreateKind \<Rightarrow> (u64, 's) provider_run" where
  "default_create E om path0 kind v s =
     (let path = normalize_path path0
      in map_option (\<lambda>out. case out of
           (Inl e, v', s') \<Rightarrow> (Inl (map_str_err e), v', s')
         | (Inr _, v', s') \<Rightarrow> (Inr (case om_metadata om s' path of Some m \<Rightarrow> mo_id m | None \<Rightarrow> 0), v', s'))
       (case kind of CreateFile \<Rightarrow> vfs_touch E path v s | CreateDirectory \<Rightarrow> vfs_mkdir E path v s))"

definition default_remove :: "'s env \<Rightarrow> string \<Rightarrow> (unit, 's) provider_run" where
  "default_remove E path v s =
     map_option (\<lambda>(r, v', s'). (map_err r, v', s')) (vfs_unlink E (normalize_path path) v s)"

definition default_vfs_provider :: "'s env \<Rightarrow> 's om \<Rightarrow> 's NamespaceProvider" where
  "default_vfs_provider E om = \<lparr>np_name = ''vfs'', np_lookup = default_lookup E om, np_enumerate = default_enumerate E,
     np_create = default_create E om, np_remove = default_remove E\<rparr>"

section \<open>Providers and mounts\<close>

definition register_provider_internal :: "'s NamespaceProvider \<Rightarrow> 's SaifsState \<Rightarrow> u64 \<times> 's SaifsState" where
  "register_provider_internal provider st =
     (case find (\<lambda>(_, p). np_name p = np_name provider) (sf_providers st) of
        Some (i, _) \<Rightarrow> (i, st)
      | None \<Rightarrow>
          (case alloc_provider_id st of (i, st1) \<Rightarrow> (i, st1\<lparr>sf_providers := sf_providers st1 @ [(i, provider)]\<rparr>)))"

definition better_mount :: "string \<Rightarrow> MountPoint \<Rightarrow> MountPoint option \<times> nat \<Rightarrow> MountPoint option \<times> nat" where
  "better_mount path mount = (\<lambda>(best, best_score).
     let mount_path = (if mp_path mount = [] then ''/'' else mp_path mount)
     in if path_in_mount mount_path path
        then let score = length mount_path
             in if best = None \<or> best_score \<le> score then (Some mount, score) else (best, best_score)
        else (best, best_score))"

definition resolve_mount_internal :: "'s SaifsState \<Rightarrow> string \<Rightarrow> MountPoint option" where
  "resolve_mount_internal st path = fst (fold (better_mount path) (sf_mounts st) (None, 0))"

definition resolve_provider_internal :: "'s SaifsState \<Rightarrow> string \<Rightarrow> u64 option" where
  "resolve_provider_internal st path = map_option mp_provider (resolve_mount_internal st path)"

definition resolve_path_internal :: "'s SaifsState \<Rightarrow> string \<Rightarrow> ResolvedPath sres" where
  "resolve_path_internal st path =
     (case canonicalize_path path of
        Inl e \<Rightarrow> Inl e
      | Inr absolute_path \<Rightarrow>
          (case resolve_mount_internal st absolute_path of
             None \<Rightarrow> Inl ProviderUnavailable
           | Some mount \<Rightarrow>
               Inr \<lparr>rp_input_path = path, rp_absolute_path = absolute_path,
                 rp_provider_path = provider_path_from_mount (mp_path mount) absolute_path, rp_mount_path = mp_path mount,
                 rp_provider = mp_provider mount, rp_read_only = mp_read_only mount\<rparr>))"

definition provider_by_id_internal :: "'s SaifsState \<Rightarrow> u64 \<Rightarrow> 's NamespaceProvider option" where
  "provider_by_id_internal st i = map_option snd (find (\<lambda>(j, _). j = i) (sf_providers st))"

definition push_saifs_event :: "EventType \<Rightarrow> u64 option \<Rightarrow> string \<Rightarrow> 's SaifsState \<Rightarrow> 's SaifsState" where
  "push_saifs_event ty obj payload st =
     (case alloc_event_id st of
        (i, st1) \<Rightarrow> st1\<lparr>sf_events := sf_events st1 @ [\<lparr>ev_id = i, ev_type = ty, ev_object = obj, ev_payload = payload\<rparr>]\<rparr>)"

section \<open>Start-up\<close>

type_synonym 's saifs_world = "'s SaifsState \<times> VfsState \<times> 's"

definition init_state :: "'s NamespaceProvider \<Rightarrow> 's SaifsState \<Rightarrow> 's SaifsState" where
  "init_state provider st =
     (if sf_initialized st then st
      else
        case register_provider_internal provider st of
          (i, st1) \<Rightarrow>
            (push_saifs_event Mounted None ''mounted / -> vfs''
               (st1\<lparr>sf_mounts := sf_mounts st1 @ [\<lparr>mp_path = ''/'', mp_provider = i, mp_read_only = False\<rparr>]\<rparr>))
            \<lparr>sf_initialized := True\<rparr>)"

definition saifs_init :: "'s env \<Rightarrow> 's om \<Rightarrow> 's saifs_world \<Rightarrow> 's saifs_world" where
  "saifs_init E om = (\<lambda>(st, v, s). (init_state (default_vfs_provider E om) st, v, om_init om s))"

definition is_initialized :: "'s saifs_world \<Rightarrow> bool" where
  "is_initialized = (\<lambda>(st, v, s). sf_initialized st)"

section \<open>Registry and mounts\<close>

definition provider_register :: "'s env \<Rightarrow> 's om \<Rightarrow> 's NamespaceProvider \<Rightarrow> 's saifs_world \<Rightarrow> u64 sres \<times> 's saifs_world" where
  "provider_register E om provider w =
     (case saifs_init E om w of
        (st, v, s) \<Rightarrow> (case register_provider_internal provider st of (i, st1) \<Rightarrow> (Inr i, st1, v, s)))"

definition mount_state :: "string \<Rightarrow> u64 \<Rightarrow> bool \<Rightarrow> 's SaifsState \<Rightarrow> unit sres \<times> 's SaifsState" where
  "mount_state path provider ro st =
     (if provider_by_id_internal st provider = None then (Inl ProviderUnavailable, st)
      else if \<exists>m\<in>set (sf_mounts st). mp_path m = path then (Inl AlreadyExists, st)
      else (Inr (), push_saifs_event Mounted None (''mounted '' @ path)
              (st\<lparr>sf_mounts := sf_mounts st @ [\<lparr>mp_path = path, mp_provider = provider, mp_read_only = ro\<rparr>]\<rparr>)))"

definition saifs_mount :: "'s env \<Rightarrow> 's om \<Rightarrow> string \<Rightarrow> u64 \<Rightarrow> bool \<Rightarrow> 's saifs_world \<Rightarrow> unit sres \<times> 's saifs_world" where
  "saifs_mount E om path provider ro w =
     (case saifs_init E om w of
        (st, v, s) \<Rightarrow>
          (case canonicalize_path path of
             Inl e \<Rightarrow> (Inl e, st, v, s)
           | Inr path' \<Rightarrow> (case mount_state path' provider ro st of (r, st1) \<Rightarrow> (r, st1, v, s))))"

definition unmount_state :: "string \<Rightarrow> 's SaifsState \<Rightarrow> unit sres \<times> 's SaifsState" where
  "unmount_state path st =
     (let kept = filter (\<lambda>m. mp_path m \<noteq> path) (sf_mounts st); st1 = st\<lparr>sf_mounts := kept\<rparr>
      in if length kept = length (sf_mounts st) then (Inl NotFound, st1)
         else (Inr (), push_saifs_event Unmounted None (''unmounted '' @ path) st1))"

definition saifs_unmount :: "'s env \<Rightarrow> 's om \<Rightarrow> string \<Rightarrow> 's saifs_world \<Rightarrow> unit sres \<times> 's saifs_world" where
  "saifs_unmount E om path w =
     (case saifs_init E om w of
        (st, v, s) \<Rightarrow>
          (case canonicalize_path path of
             Inl e \<Rightarrow> (Inl e, st, v, s)
           | Inr path' \<Rightarrow>
               if path' = ''/'' then (Inl Busy, st, v, s)
               else (case unmount_state path' st of (r, st1) \<Rightarrow> (r, st1, v, s))))"

definition resolve_provider :: "'s env \<Rightarrow> 's om \<Rightarrow> string \<Rightarrow> 's saifs_world \<Rightarrow> u64 sres \<times> 's saifs_world" where
  "resolve_provider E om path w =
     (case saifs_init E om w of
        (st, v, s) \<Rightarrow>
          (case canonicalize_path path of
             Inl e \<Rightarrow> (Inl e, st, v, s)
           | Inr path' \<Rightarrow>
               (case resolve_provider_internal st path' of
                  None \<Rightarrow> (Inl ProviderUnavailable, st, v, s)
                | Some i \<Rightarrow> (Inr i, st, v, s))))"

definition saifs_resolve :: "'s env \<Rightarrow> 's om \<Rightarrow> string \<Rightarrow> 's saifs_world \<Rightarrow> ResolvedPath sres \<times> 's saifs_world" where
  "saifs_resolve E om path w =
     (case saifs_init E om w of (st, v, s) \<Rightarrow> (resolve_path_internal st path, st, v, s))"

section \<open>Operations on names\<close>

text \<open>Resolve the path and call the provider of its mount; \<open>writes\<close> operations are refused on a read-only mount.\<close>

definition with_provider ::
  "'s env \<Rightarrow> 's om \<Rightarrow> bool \<Rightarrow> string \<Rightarrow> ('s NamespaceProvider \<Rightarrow> string \<Rightarrow> ('a, 's) provider_run) \<Rightarrow> 's saifs_world
     \<Rightarrow> ('a sres \<times> 's saifs_world) option" where
  "with_provider E om writes path call w =
     (case saifs_resolve E om path (saifs_init E om w) of
        (Inl e, w1) \<Rightarrow> Some (Inl e, w1)
      | (Inr resolved, st, v, s) \<Rightarrow>
          if writes \<and> rp_read_only resolved then Some (Inl AccessDenied, st, v, s)
          else
            case provider_by_id_internal st (rp_provider resolved) of
              None \<Rightarrow> Some (Inl ProviderUnavailable, st, v, s)
            | Some provider \<Rightarrow>
                map_option (\<lambda>(r, v', s'). (r, st, v', s')) (call provider (rp_provider_path resolved) v s))"

definition ns_lookup :: "'s env \<Rightarrow> 's om \<Rightarrow> string \<Rightarrow> 's saifs_world \<Rightarrow> (LookupResult sres \<times> 's saifs_world) option" where
  "ns_lookup E om path = with_provider E om False path np_lookup"

definition ns_enumerate :: "'s env \<Rightarrow> 's om \<Rightarrow> string \<Rightarrow> 's saifs_world \<Rightarrow> (DirEntry list sres \<times> 's saifs_world) option" where
  "ns_enumerate E om path = with_provider E om False path np_enumerate"

definition ns_create :: "'s env \<Rightarrow> 's om \<Rightarrow> string \<Rightarrow> CreateKind \<Rightarrow> 's saifs_world \<Rightarrow> (u64 sres \<times> 's saifs_world) option" where
  "ns_create E om path kind = with_provider E om True path (\<lambda>p q. np_create p q kind)"

definition ns_remove :: "'s env \<Rightarrow> 's om \<Rightarrow> string \<Rightarrow> 's saifs_world \<Rightarrow> (unit sres \<times> 's saifs_world) option" where
  "ns_remove E om path = with_provider E om True path np_remove"

definition map_run :: "('a \<Rightarrow> 'b) \<Rightarrow> ('a sres \<times> 'w) option \<Rightarrow> ('b sres \<times> 'w) option" where
  "map_run f = map_option (\<lambda>(r, w). (case r of Inl e \<Rightarrow> Inl e | Inr x \<Rightarrow> Inr (f x), w))"

definition saifs_list :: "'s env \<Rightarrow> 's om \<Rightarrow> string \<Rightarrow> 's saifs_world \<Rightarrow> (string list sres \<times> 's saifs_world) option" where
  "saifs_list E om path w = map_run (\<lambda>es. sort_strings (map de_name es)) (ns_enumerate E om path w)"

definition saifs_mkdir :: "'s env \<Rightarrow> 's om \<Rightarrow> string \<Rightarrow> 's saifs_world \<Rightarrow> (unit sres \<times> 's saifs_world) option" where
  "saifs_mkdir E om path w = map_run (\<lambda>_. ()) (ns_create E om path CreateDirectory w)"

definition saifs_touch :: "'s env \<Rightarrow> 's om \<Rightarrow> string \<Rightarrow> 's saifs_world \<Rightarrow> (unit sres \<times> 's saifs_world) option" where
  "saifs_touch E om path w = map_run (\<lambda>_. ()) (ns_create E om path CreateFile w)"

definition saifs_remove :: "'s env \<Rightarrow> 's om \<Rightarrow> string \<Rightarrow> 's saifs_world \<Rightarrow> (unit sres \<times> 's saifs_world) option" where
  "saifs_remove E om path w = ns_remove E om path w"

definition saifs_cd :: "'s env \<Rightarrow> 's om \<Rightarrow> string \<Rightarrow> 's saifs_world \<Rightarrow> unit sres \<times> 's saifs_world" where
  "saifs_cd E om path w =
     (case saifs_init E om w of
        (st, v, s) \<Rightarrow> (case vfs_cd (normalize_path path) v of (r, v') \<Rightarrow> (map_err r, st, v', s)))"

definition saifs_pwd :: "'s env \<Rightarrow> 's om \<Rightarrow> 's saifs_world \<Rightarrow> (string \<times> 's saifs_world) option" where
  "saifs_pwd E om w = (case saifs_init E om w of (st, v, s) \<Rightarrow> map_option (\<lambda>p. (p, st, v, s)) (vfs_pwd v))"

section \<open>Handles\<close>

record SaifsHandle =
  h_id :: u64
  h_path :: string
  h_provider_path :: string
  h_object_id :: "u64 option"
  h_provider_id :: u64
  h_kind :: SaifsNodeKind
  h_offset :: nat

definition saifs_open :: "'s env \<Rightarrow> 's om \<Rightarrow> string \<Rightarrow> 's saifs_world \<Rightarrow> (SaifsHandle sres \<times> 's saifs_world) option" where
  "saifs_open E om path w =
     (case saifs_resolve E om path (saifs_init E om w) of
        (Inl e, w1) \<Rightarrow> Some (Inl e, w1)
      | (Inr resolved, w1) \<Rightarrow>
          (case ns_lookup E om (rp_absolute_path resolved) w1 of
             None \<Rightarrow> None
           | Some (Inl e, w2) \<Rightarrow> Some (Inl e, w2)
           | Some (Inr lookup, st, v, s) \<Rightarrow>
               (case alloc_handle_id st of
                  (i, st1) \<Rightarrow>
                    Some (Inr \<lparr>h_id = i, h_path = rp_absolute_path resolved, h_provider_path = rp_provider_path resolved,
                      h_object_id = lk_object_id lookup, h_provider_id = rp_provider resolved, h_kind = lk_kind lookup,
                      h_offset = 0\<rparr>, st1, v, s))))"

definition handle_read :: "'s env \<Rightarrow> SaifsHandle \<Rightarrow> 's saifs_world \<Rightarrow> (u8 list sres \<times> 's saifs_world) option" where
  "handle_read E h = (\<lambda>(st, v, s).
     map_option (\<lambda>(r, v', s'). (map_err r, st, v', s')) (vfs_read_path E (h_path h) v s))"

text \<open>Open, seek to the handle's offset, write, close; the handle's offset moves past the bytes written.\<close>

definition seek_write :: "nat \<Rightarrow> u8 list \<Rightarrow> nat \<Rightarrow> VfsState \<Rightarrow> nat res \<times> VfsState" where
  "seek_write offset data fd v =
     (case vfs_seek fd (Start offset) v of
        (Inl e, v1) \<Rightarrow> (Inl e, v1)
      | (Inr _, v1) \<Rightarrow> vfs_write fd data v1)"

definition handle_write ::
  "SaifsHandle \<Rightarrow> u8 list \<Rightarrow> 's saifs_world \<Rightarrow> (nat sres \<times> SaifsHandle \<times> 's saifs_world) option" where
  "handle_write h data = (\<lambda>(st, v, s).
     map_option (\<lambda>(r, v'). case r of
         Inl e \<Rightarrow> (Inl (map_str_err e), h, st, v', s)
       | Inr written \<Rightarrow> (Inr written, h\<lparr>h_offset := min (2 ^ 64 - 1) (h_offset h + written)\<rparr>, st, v', s))
     (open_use_close (h_path h) read_write_create (seek_write (h_offset h) data) v))"

definition sorted_names :: "DirEntry list \<Rightarrow> string list" where
  "sorted_names es = sort_strings (map de_name es)"

definition provider_children :: "SaifsHandle \<Rightarrow> 's saifs_world \<Rightarrow> (string list sres \<times> 's saifs_world) option" where
  "provider_children h = (\<lambda>(st, v, s).
     case provider_by_id_internal st (h_provider_id h) of
       None \<Rightarrow> Some (Inl ProviderUnavailable, st, v, s)
     | Some provider \<Rightarrow> map_run sorted_names
         (map_option (\<lambda>(r, v', s'). (r, st, v', s')) (np_enumerate provider (h_provider_path h) v s)))"

definition handle_children :: "'s om \<Rightarrow> SaifsHandle \<Rightarrow> 's saifs_world \<Rightarrow> (string list sres \<times> 's saifs_world) option" where
  "handle_children om h w =
     (case h_kind h of
        KFile \<Rightarrow> Some (Inl UnsupportedOperation, w)
      | KDirectory \<Rightarrow> provider_children h w
      | KVirtual \<Rightarrow> provider_children h w
      | KObject \<Rightarrow>
          (case om_metadata om (snd (snd w)) (h_path h) of
             Some meta \<Rightarrow>
               Some (Inr (sort_strings (List.map_filter (om_lookup_by_id om (snd (snd w))) (mo_children meta))), w)
           | None \<Rightarrow> provider_children h w))"

definition handle_properties :: "'s env \<Rightarrow> 's om \<Rightarrow> SaifsHandle \<Rightarrow> 's saifs_world \<Rightarrow> (Property list sres \<times> 's saifs_world) option" where
  "handle_properties E om h w =
     (case om_metadata om (snd (snd w)) (h_path h) of
        Some meta \<Rightarrow> Some (Inr (mo_properties meta), w)
      | None \<Rightarrow>
          (case h_kind h of
             KFile \<Rightarrow> map_run (\<lambda>data. [\<lparr>prop_key = ''type'', prop_value = ''file''\<rparr>,
                 \<lparr>prop_key = ''size'', prop_value = dec_string (length (utf8_lossy data))\<rparr>]) (handle_read E h w)
           | KDirectory \<Rightarrow> map_run (\<lambda>cs. [\<lparr>prop_key = ''type'', prop_value = ''directory''\<rparr>,
                 \<lparr>prop_key = ''children'', prop_value = dec_string (length cs)\<rparr>]) (handle_children om h w)
           | KObject \<Rightarrow> Some (Inr [], w)
           | KVirtual \<Rightarrow> Some (Inr [], w)))"

definition handle_query :: "'s env \<Rightarrow> 's om \<Rightarrow> SaifsHandle \<Rightarrow> string \<Rightarrow> 's saifs_world \<Rightarrow> (Property sres \<times> 's saifs_world) option" where
  "handle_query E om h key w =
     map_option (\<lambda>(r, w'). (case r of
         Inl e \<Rightarrow> Inl e
       | Inr ps \<Rightarrow> (case find (\<lambda>p. prop_key p = key) ps of Some p \<Rightarrow> Inr p | None \<Rightarrow> Inl NotFound), w'))
     (handle_properties E om h w)"

definition handle_health :: "'s om \<Rightarrow> SaifsHandle \<Rightarrow> 's \<Rightarrow> Health sres" where
  "handle_health om h s =
     (case om_metadata om s (h_path h) of
        Some meta \<Rightarrow> Inr (mo_health meta)
      | None \<Rightarrow> if h_kind h = KFile \<or> h_kind h = KDirectory then Inr Healthy else Inl UnsupportedOperation)"

definition saifs_read_text :: "'s env \<Rightarrow> 's om \<Rightarrow> string \<Rightarrow> 's saifs_world \<Rightarrow> (string sres \<times> 's saifs_world) option" where
  "saifs_read_text E om path w =
     (case saifs_open E om path w of
        None \<Rightarrow> None
      | Some (Inl e, w1) \<Rightarrow> Some (Inl e, w1)
      | Some (Inr h, w1) \<Rightarrow> map_run utf8_lossy (handle_read E h w1))"

section \<open>Events and subscriptions\<close>

definition saifs_events :: "nat \<Rightarrow> 's SaifsState \<Rightarrow> Event list" where
  "saifs_events limit st = drop (length (sf_events st) - max limit 1) (sf_events st)"

definition publish_event :: "EventType \<Rightarrow> u64 option \<Rightarrow> string \<Rightarrow> 's SaifsState \<Rightarrow> 's SaifsState" where
  "publish_event ty obj payload st =
     (let st1 = push_saifs_event ty obj payload st
      in if 256 < length (sf_events st1)
         then st1\<lparr>sf_events := drop (length (sf_events st1) - 256) (sf_events st1)\<rparr> else st1)"

definition subscribe :: "'s SaifsState \<Rightarrow> u64 sres \<times> 's SaifsState" where
  "subscribe st = (case alloc_subscription_id st of (i, st1) \<Rightarrow> (Inr i, st1\<lparr>subscriptions := subscriptions st1 @ [i]\<rparr>))"

definition unsubscribe :: "u64 \<Rightarrow> 's SaifsState \<Rightarrow> unit sres \<times> 's SaifsState" where
  "unsubscribe i st =
     (let kept = filter (\<lambda>j. j \<noteq> i) (subscriptions st); st1 = st\<lparr>subscriptions := kept\<rparr>
      in if length kept = length (subscriptions st) then (Inl NotFound, st1) else (Inr (), st1))"

definition saifs_verify :: "'s SaifsState \<Rightarrow> bool list" where
  "saifs_verify st = [sf_initialized st, \<exists>m\<in>set (sf_mounts st). mp_path m = ''/'', sf_providers st \<noteq> []]"

section \<open>Canonical paths\<close>

definition component :: "string \<Rightarrow> bool" where
  "component p \<longleftrightarrow> p \<noteq> [] \<and> p \<noteq> ''.'' \<and> p \<noteq> ''..'' \<and> CHR ''/'' \<notin> set p \<and> CHR 0x00 \<notin> set p"

definition canonical :: "string list \<Rightarrow> bool" where
  "canonical ps \<longleftrightarrow> (\<forall>p\<in>set ps. component p)"

lemma canonical_simps [simp]:
  "canonical []" "canonical (p # ps) \<longleftrightarrow> component p \<and> canonical ps" "canonical (ps @ qs) \<longleftrightarrow> canonical ps \<and> canonical qs"
  by (auto simp: canonical_def)

lemma canonical_butlast: "canonical ps \<Longrightarrow> canonical (butlast ps)"
  by (auto simp: canonical_def dest: in_set_butlastD)

lemma canonical_parts_ok:
  assumes "canonical acc" "\<forall>p\<in>set ps. CHR ''/'' \<notin> set p \<and> CHR 0x00 \<notin> set p"
  shows "canonical (canonical_parts acc ps)"
  using assms by (induction acc ps rule: canonical_parts.induct) (auto simp: canonical_butlast component_def)

lemma canonical_parts_id:
  assumes "canonical ps"
  shows "canonical_parts acc ps = acc @ ps"
  using assms by (induction ps arbitrary: acc) (auto simp: component_def)

lemma set_split_char: "p \<in> set (split_char c s) \<Longrightarrow> set p \<subseteq> set s"
proof (induction s arbitrary: p)
  case (Cons x s)
  then show ?case by (cases "split_char c s") (fastforce split: if_splits)+
qed simp

text \<open>The text of a canonical path: every component with a slash in front.\<close>

definition slash_text :: "string list \<Rightarrow> string" where
  "slash_text ps = concat (map (\<lambda>p. CHR ''/'' # p) ps)"

lemma slash_text_simps [simp]:
  "slash_text [] = []" "slash_text (p # ps) = CHR ''/'' # p @ slash_text ps" "slash_text (ps @ qs) = slash_text ps @ slash_text qs"
  by (simp_all add: slash_text_def)

lemma slash_text_join: "ps \<noteq> [] \<Longrightarrow> CHR ''/'' # join_char (CHR ''/'') ps = slash_text ps"
  by (induction "CHR ''/''" ps rule: join_char.induct) auto

lemma path_of_eq: "path_of ps = (if ps = [] then ''/'' else slash_text ps)"
  by (simp add: path_of_def slash_text_join)

lemma path_parts_path_of: "canonical ps \<Longrightarrow> path_parts (path_of ps) = ps"
  by (cases "ps = []") (simp_all add: path_of_def path_parts_join canonical_def component_def, simp add: path_parts_def)

lemma path_of_inj: "canonical ps \<Longrightarrow> canonical qs \<Longrightarrow> path_of ps = path_of qs \<longleftrightarrow> ps = qs"
  by (metis path_parts_path_of)

lemma set_path_of: "canonical ps \<Longrightarrow> CHR 0x00 \<notin> set (path_of ps)"
  unfolding path_of_eq by (induction ps) (auto simp: component_def split: if_splits)

lemma split_path_of: "canonical ps \<Longrightarrow> ps \<noteq> [] \<Longrightarrow> split_char (CHR ''/'') (path_of ps) = [] # ps"
  by (simp add: path_of_def split_join canonical_def component_def)

lemma canonicalize_path_of: "canonical ps \<Longrightarrow> canonicalize_path (path_of ps) = Inr (path_of ps)"
proof (cases "ps = []")
  case True
  then show ?thesis by (simp add: path_of_def canonicalize_path_def)
next
  case False
  assume c: "canonical ps"
  have "starts_with (path_of ps) ''/''" using False by (simp add: path_of_def starts_with_def)
  then show ?thesis using False set_path_of [OF c] split_path_of [OF c] canonical_parts_id [OF c]
    by (auto simp: canonicalize_path_def path_of_def)
qed

lemma canonicalize_Inr:
  assumes "canonicalize_path path = Inr p"
  obtains ps where "canonical ps" "p = path_of ps"
proof (cases "path = [] \<or> path = ''/''")
  case True
  then show ?thesis using assms that [of "[]"] by (auto simp: canonicalize_path_def path_of_def split: if_splits)
next
  case False
  let ?source = "if starts_with path ''/'' then path else CHR ''/'' # path"
  have 0: "CHR 0x00 \<notin> set path" and p: "p = path_of (canonical_parts [] (split_char (CHR ''/'') ?source))"
    using assms False by (auto simp: canonicalize_path_def Let_def split: if_splits)
  have "CHR 0x00 \<notin> set ?source" using 0 by simp
  then have "canonical (canonical_parts [] (split_char (CHR ''/'') ?source))"
    using set_split_char split_no_sep by (intro canonical_parts_ok) (fastforce)+
  then show ?thesis using p that by blast
qed

text \<open>The reference for canonical paths: walk from the root along the components, where dot and empty components stay and
  dot-dot goes up.\<close>

definition walk :: "string \<Rightarrow> string list" where
  "walk path = fold (\<lambda>p at. if p = [] \<or> p = ''.'' then at else if p = ''..'' then butlast at else at @ [p])
     (split_char (CHR ''/'') path) []"

lemma canonical_parts_walk:
  "canonical_parts acc ps = fold (\<lambda>p at. if p = [] \<or> p = ''.'' then at else if p = ''..'' then butlast at else at @ [p]) ps acc"
  by (induction acc ps rule: canonical_parts.induct) simp_all

lemma canonicalize_walk: "CHR 0x00 \<notin> set path \<Longrightarrow> canonicalize_path path = Inr (path_of (walk path)) \<and> canonical (walk path)"
proof -
  assume z: "CHR 0x00 \<notin> set path"
  have c: "canonical (walk path)"
    unfolding walk_def canonical_parts_walk [symmetric]
    using z set_split_char split_no_sep by (intro canonical_parts_ok) (fastforce)+
  have "canonicalize_path path = Inr (path_of (walk path))"
    using z by (auto simp: canonicalize_path_def walk_def canonical_parts_walk path_of_def Let_def)
  with c show ?thesis by simp
qed

section \<open>Mounts by components\<close>

lemma slash_free_takeWhile:
  assumes "CHR ''/'' \<notin> set p" "r = [] \<or> hd r = CHR ''/''"
  shows "takeWhile (\<lambda>c. c \<noteq> CHR ''/'') (p @ r) = p" "dropWhile (\<lambda>c. c \<noteq> CHR ''/'') (p @ r) = r"
proof -
  have "takeWhile (\<lambda>c. c \<noteq> CHR ''/'') r = []" "dropWhile (\<lambda>c. c \<noteq> CHR ''/'') r = r"
    using assms(2) by (cases r; simp)+
  moreover have "\<forall>c\<in>set p. c \<noteq> CHR ''/''" using assms(1) by blast
  ultimately show "takeWhile (\<lambda>c. c \<noteq> CHR ''/'') (p @ r) = p" "dropWhile (\<lambda>c. c \<noteq> CHR ''/'') (p @ r) = r"
    by (simp_all add: takeWhile_append2 dropWhile_append2)
qed

lemma hd_slash_text: "slash_text ps = [] \<or> hd (slash_text ps) = CHR ''/''"
  by (cases ps) simp_all

lemma slash_text_append:
  assumes "canonical ps" "canonical ms" "slash_text ps = slash_text ms @ r" "r = [] \<or> hd r = CHR ''/''"
  shows "\<exists>qs. ps = ms @ qs \<and> r = slash_text qs"
  using assms
proof (induction ms arbitrary: ps)
  case (Cons m ms)
  obtain q qs where ps: "ps = q # qs" using Cons.prems(3) by (cases ps) simp_all
  have free: "CHR ''/'' \<notin> set q" "CHR ''/'' \<notin> set m" using Cons.prems(1,2) ps by (auto simp: component_def)
  have tail: "slash_text ms @ r = [] \<or> hd (slash_text ms @ r) = CHR ''/''"
    using Cons.prems(4) hd_slash_text [of ms] by (cases "slash_text ms") auto
  have eq: "q @ slash_text qs = m @ (slash_text ms @ r)" using Cons.prems(3) ps by simp
  have "q = m" "slash_text qs = slash_text ms @ r"
    using slash_free_takeWhile [OF free(1) hd_slash_text [of qs]] slash_free_takeWhile [OF free(2) tail] unfolding eq by simp_all
  then show ?case using Cons.IH [of qs] Cons.prems ps by auto
qed simp

lemma path_in_mount_iff:
  assumes "canonical ms" "canonical ps"
  shows "path_in_mount (path_of ms) (path_of ps) \<longleftrightarrow> prefix ms ps"
proof (cases "ms = []")
  case True
  then show ?thesis by (simp add: path_in_mount_def path_of_eq)
next
  case ms: False
  then have m: "path_of ms = slash_text ms" "path_of ms \<noteq> ''/''"
    using path_of_inj [OF assms(1), of "[]"] by (auto simp: path_of_eq)
  show ?thesis
  proof (cases "ps = []")
    case True
    have "\<not> path_in_mount (path_of ms) ''/''"
      using m ms by (cases ms) (auto simp: path_in_mount_def starts_with_def path_of_eq)
    then show ?thesis using True ms by (simp add: path_of_eq)
  next
    case False
    then have p: "path_of ps = slash_text ps" by (simp add: path_of_eq)
    show ?thesis
    proof
      assume "path_in_mount (path_of ms) (path_of ps)"
      then consider "path_of ps = path_of ms" | r where "slash_text ps = slash_text ms @ r" "r \<noteq> []" "hd r = CHR ''/''"
        using m p by (auto simp: path_in_mount_def starts_with_iff nth_append hd_conv_nth)
      then show "prefix ms ps"
        using path_of_inj [OF assms(2,1)] slash_text_append [OF assms(2,1)] by cases (auto simp: prefix_def)
    next
      assume "prefix ms ps"
      then obtain qs where "ps = ms @ qs" by (auto simp: prefix_def)
      then show "path_in_mount (path_of ms) (path_of ps)"
        using m p by (cases qs) (auto simp: path_in_mount_def starts_with_iff nth_append)
    qed
  qed
qed

lemma provider_path_eq:
  assumes "canonical ms" "canonical qs"
  shows "provider_path_from_mount (path_of ms) (path_of (ms @ qs)) = path_of qs"
proof (cases "ms = []")
  case True
  then show ?thesis by (simp add: provider_path_from_mount_def path_of_eq)
next
  case False
  have "path_of ms \<noteq> ''/''" using path_of_inj [OF assms(1), of "[]"] False by (simp add: path_of_eq)
  moreover have "path_of (ms @ qs) = path_of ms \<longleftrightarrow> qs = []" using path_of_inj [of "ms @ qs" ms] assms by simp
  ultimately show ?thesis using False by (cases qs) (simp_all add: provider_path_from_mount_def path_of_eq starts_with_def)
qed

section \<open>The innermost mount\<close>

definition mount_ok :: "MountPoint \<Rightarrow> bool" where
  "mount_ok m \<longleftrightarrow> (\<exists>ms. canonical ms \<and> mp_path m = path_of ms)"

abbreviation mount_parts :: "MountPoint \<Rightarrow> string list" where
  "mount_parts m \<equiv> path_parts (mp_path m)"

lemma mount_okD:
  assumes "mount_ok m"
  shows "canonical (mount_parts m)" "mp_path m = path_of (mount_parts m)" "mp_path m \<noteq> []"
proof -
  obtain ms where "canonical ms" "mp_path m = path_of ms" using assms by (auto simp: mount_ok_def)
  then show "canonical (mount_parts m)" "mp_path m = path_of (mount_parts m)" "mp_path m \<noteq> []"
    by (simp_all add: path_parts_path_of, simp add: path_of_def)
qed

lemma length_path_of_mono:
  assumes "prefix ms ps" "prefix ns ps" "length (path_of ns) \<le> length (path_of ms)" "canonical ps"
  shows "prefix ns ms"
proof (rule ccontr)
  assume n: "\<not> prefix ns ms"
  have "prefix ms ns" using prefix_same_cases [OF assms(1,2)] n by blast
  then obtain q qs where ns: "ns = ms @ q # qs" using n by (cases "ms = ns") (auto simp: prefix_def neq_Nil_conv)
  have "q \<noteq> []" using assms(2,4) ns by (auto simp: prefix_def component_def)
  then have "length (path_of ms) < length (path_of ns)" unfolding ns path_of_eq by (cases q) auto
  then show False using assms(3) by simp
qed

text \<open>What the loop over the mounts has found.\<close>

definition best_so_far :: "string list \<Rightarrow> MountPoint list \<Rightarrow> MountPoint option \<times> nat \<Rightarrow> bool" where
  "best_so_far ps seen = (\<lambda>(best, score).
     case best of
       None \<Rightarrow> \<forall>m\<in>set seen. \<not> prefix (mount_parts m) ps
     | Some m \<Rightarrow> m \<in> set seen \<and> prefix (mount_parts m) ps \<and> score = length (mp_path m)
         \<and> (\<forall>m'\<in>set seen. prefix (mount_parts m') ps \<longrightarrow> length (mp_path m') \<le> length (mp_path m)))"

lemma better_mount_step:
  assumes "canonical ps" "mount_ok m" "best_so_far ps seen b"
  shows "best_so_far ps (seen @ [m]) (better_mount (path_of ps) m b)"
proof -
  obtain best score where b: "b = (best, score)" by force
  have p: "path_in_mount (mp_path m) (path_of ps) \<longleftrightarrow> prefix (mount_parts m) ps"
    using path_in_mount_iff [OF mount_okD(1) [OF assms(2)] assms(1)] mount_okD(2) [OF assms(2)] by simp
  show ?thesis using assms(3) mount_okD(3) [OF assms(2)]
    by (cases best) (auto simp: b better_mount_def best_so_far_def p Let_def)
qed

lemma best_mount_fold:
  assumes "canonical ps" "\<forall>m\<in>set ms. mount_ok m" "best_so_far ps seen b"
  shows "best_so_far ps (seen @ ms) (fold (better_mount (path_of ps)) ms b)"
  using assms(2,3)
proof (induction ms arbitrary: seen b)
  case (Cons m ms)
  have "best_so_far ps (seen @ [m]) (better_mount (path_of ps) m b)"
    using better_mount_step [OF assms(1)] Cons.prems by simp
  then show ?case using Cons.IH [of "seen @ [m]"] Cons.prems by simp
qed simp

lemma resolve_mount_best:
  assumes "canonical ps" "\<forall>m\<in>set (sf_mounts st). mount_ok m"
  shows "case resolve_mount_internal st (path_of ps) of
      None \<Rightarrow> \<forall>m\<in>set (sf_mounts st). \<not> prefix (mount_parts m) ps
    | Some m \<Rightarrow> m \<in> set (sf_mounts st) \<and> prefix (mount_parts m) ps
        \<and> (\<forall>m'\<in>set (sf_mounts st). prefix (mount_parts m') ps \<longrightarrow> prefix (mount_parts m') (mount_parts m))"
proof -
  have "best_so_far ps (sf_mounts st) (fold (better_mount (path_of ps)) (sf_mounts st) (None, 0))"
    using best_mount_fold [OF assms, of "[]" "(None, 0)"] by (simp add: best_so_far_def)
  moreover have "prefix (mount_parts m') (mount_parts m)"
    if "m \<in> set (sf_mounts st)" "m' \<in> set (sf_mounts st)" "prefix (mount_parts m) ps" "prefix (mount_parts m') ps"
      "length (mp_path m') \<le> length (mp_path m)" for m m'
    using length_path_of_mono [OF that(3,4) _ assms(1)] that(5) mount_okD(2) assms(2) that(1,2) by metis
  ultimately show ?thesis
    unfolding resolve_mount_internal_def best_so_far_def by (auto split: prod.splits option.splits)
qed

section \<open>The reachable states\<close>

definition saifs_inv :: "'s SaifsState \<Rightarrow> bool" where
  "saifs_inv st \<longleftrightarrow> (\<forall>m\<in>set (sf_mounts st). mount_ok m \<and> provider_by_id_internal st (mp_provider m) \<noteq> None)
     \<and> distinct (map mp_path (sf_mounts st))
     \<and> (if sf_initialized st then \<exists>m\<in>set (sf_mounts st). mp_path m = ''/'' else sf_mounts st = [])"

text \<open>One critical section of the name space; every public function runs \<open>init\<close> first.\<close>

inductive saifs_step :: "'s SaifsState \<Rightarrow> 's SaifsState \<Rightarrow> bool" where
  step_init: "saifs_step st (init_state provider st)"
| step_register: "sf_initialized st \<Longrightarrow> saifs_step st (snd (register_provider_internal provider st))"
| step_mount: "sf_initialized st \<Longrightarrow> canonicalize_path path = Inr p \<Longrightarrow> saifs_step st (snd (mount_state p i ro st))"
| step_unmount: "sf_initialized st \<Longrightarrow> canonicalize_path path = Inr p \<Longrightarrow> p \<noteq> ''/'' \<Longrightarrow> saifs_step st (snd (unmount_state p st))"
| step_handle: "sf_initialized st \<Longrightarrow> saifs_step st (snd (alloc_handle_id st))"
| step_event: "sf_initialized st \<Longrightarrow> saifs_step st (publish_event ty obj payload st)"
| step_subscribe: "sf_initialized st \<Longrightarrow> saifs_step st (snd (subscribe st))"
| step_unsubscribe: "sf_initialized st \<Longrightarrow> saifs_step st (snd (unsubscribe i st))"

lemma provider_by_id_frame [simp]:
  "provider_by_id_internal (st\<lparr>sf_mounts := ms\<rparr>) = provider_by_id_internal st"
  "provider_by_id_internal (st\<lparr>sf_events := es\<rparr>) = provider_by_id_internal st"
  "provider_by_id_internal (st\<lparr>next_event_id := n\<rparr>) = provider_by_id_internal st"
  "provider_by_id_internal (st\<lparr>next_handle_id := n\<rparr>) = provider_by_id_internal st"
  "provider_by_id_internal (st\<lparr>next_subscription_id := n\<rparr>) = provider_by_id_internal st"
  "provider_by_id_internal (st\<lparr>subscriptions := xs\<rparr>) = provider_by_id_internal st"
  "provider_by_id_internal (st\<lparr>sf_initialized := b\<rparr>) = provider_by_id_internal st"
  by (simp_all add: provider_by_id_internal_def fun_eq_iff)

lemma provider_by_id_iff: "provider_by_id_internal st i \<noteq> None \<longleftrightarrow> i \<in> fst ` set (sf_providers st)"
  by (force simp: provider_by_id_internal_def find_None_iff)

lemma register_spec:
  assumes "register_provider_internal provider st = (i, st1)"
  shows "provider_by_id_internal st1 i \<noteq> None" "sf_mounts st1 = sf_mounts st" "sf_initialized st1 = sf_initialized st"
    "provider_by_id_internal st j \<noteq> None \<Longrightarrow> provider_by_id_internal st1 j \<noteq> None"
  using assms unfolding provider_by_id_iff
  by (auto simp: register_provider_internal_def alloc_provider_id_def find_Some_iff split: option.splits)
     (metis fst_conv image_eqI nth_mem)

lemma push_saifs_event_frame [simp]:
  "provider_by_id_internal (push_saifs_event ty obj payload st) = provider_by_id_internal st"
  "sf_mounts (push_saifs_event ty obj payload st) = sf_mounts st"
  "sf_initialized (push_saifs_event ty obj payload st) = sf_initialized st"
  by (simp_all add: push_saifs_event_def alloc_event_id_def)

lemma root_mount_ok: "mp_path m = ''/'' \<Longrightarrow> mount_ok m"
  unfolding mount_ok_def by (rule exI [of _ "[]"]) (simp add: path_of_def)

lemma saifs_step_inv:
  assumes "saifs_step st st'" "saifs_inv st"
  shows "saifs_inv st'"
  using assms
proof (induction rule: saifs_step.induct)
  case (step_init st provider)
  obtain i st1 where r: "register_provider_internal provider st = (i, st1)" by force
  show ?case using step_init register_spec [OF r]
    by (auto simp: init_state_def r saifs_inv_def root_mount_ok)
next
  case (step_register st provider)
  obtain i st1 where r: "register_provider_internal provider st = (i, st1)" by force
  show ?case using step_register register_spec [OF r] by (auto simp: r saifs_inv_def)
next
  case (step_mount st path p i ro)
  have "mount_ok \<lparr>mp_path = p, mp_provider = i, mp_read_only = ro\<rparr>"
    using canonicalize_Inr [OF step_mount(2)] by (auto simp: mount_ok_def)
  then show ?case using step_mount by (auto simp: mount_state_def saifs_inv_def)
next
  case (step_unmount st path p)
  then show ?case by (auto simp: unmount_state_def saifs_inv_def Let_def distinct_map_filter)
next
  case (step_unsubscribe st i)
  then show ?case by (auto simp: unsubscribe_def saifs_inv_def Let_def)
qed (auto simp: saifs_inv_def alloc_handle_id_def publish_event_def subscribe_def alloc_subscription_id_def Let_def)

lemma saifs_reach_inv: "saifs_step\<^sup>*\<^sup>* saifs_new st \<Longrightarrow> saifs_inv st"
  by (induction rule: rtranclp_induct) (auto simp: saifs_step_inv, simp add: saifs_inv_def saifs_new_def)

section \<open>Canonical paths in the virtual file system\<close>

lemma normalize_parts_canonical: "canonical ps \<Longrightarrow> normalize_parts acc ps = acc @ ps"
  by (induction ps arbitrary: acc) (auto simp: component_def)

lemma normalized_path_canonical: "canonical ps \<Longrightarrow> normalized_path fs (path_of ps) = Some (path_of ps)"
proof -
  assume c: "canonical ps"
  have "starts_with (path_of ps) ''/''" by (simp add: path_of_def starts_with_def)
  then show ?thesis using normalize_parts_canonical [OF c, of "[]"]
    by (simp add: normalized_path_def path_parts_path_of [OF c]) (simp add: path_of_def)
qed

lemma resolve_innermost:
  assumes I: "saifs_inv st" and init: "sf_initialized st" and ps: "canonical ps"
  obtains m where "resolve_mount_internal st (path_of ps) = Some m" "m \<in> set (sf_mounts st)" "prefix (mount_parts m) ps"
    "\<forall>m'\<in>set (sf_mounts st). prefix (mount_parts m') ps \<longrightarrow> prefix (mount_parts m') (mount_parts m)"
    "provider_by_id_internal st (mp_provider m) \<noteq> None"
    "provider_path_from_mount (mp_path m) (path_of ps) = path_of (drop (length (mount_parts m)) ps)"
proof -
  have ok: "\<forall>m\<in>set (sf_mounts st). mount_ok m" using I by (simp add: saifs_inv_def)
  obtain root where r: "root \<in> set (sf_mounts st)" "mp_path root = ''/''" using I init by (auto simp: saifs_inv_def)
  have "prefix (mount_parts root) ps" unfolding r(2) by (simp add: path_parts_def)
  then obtain m where m: "resolve_mount_internal st (path_of ps) = Some m"
    using resolve_mount_best [OF ps ok] r(1) by (cases "resolve_mount_internal st (path_of ps)") auto
  then have b: "m \<in> set (sf_mounts st)" "prefix (mount_parts m) ps"
    "\<forall>m'\<in>set (sf_mounts st). prefix (mount_parts m') ps \<longrightarrow> prefix (mount_parts m') (mount_parts m)"
    using resolve_mount_best [OF ps ok] by simp_all
  obtain qs where qs: "ps = mount_parts m @ qs" using b(2) by (auto simp: prefix_def)
  have "provider_path_from_mount (mp_path m) (path_of ps) = path_of (drop (length (mount_parts m)) ps)"
    using provider_path_eq [of "mount_parts m" qs] mount_okD(1,2) [of m] ok b(1) ps qs
    by (metis append_eq_conv_conj canonical_simps(3))
  moreover have "provider_by_id_internal st (mp_provider m) \<noteq> None" using I b(1) by (simp add: saifs_inv_def)
  ultimately show ?thesis using that m b by blast
qed

text \<open>A write through a handle succeeds whenever the file can be opened.\<close>

lemma handle_write_succeeds:
  assumes I: "vfs_inv v" and o: "vfs_open (h_path h) read_write_create v = Some (Inr fd, v1)"
  shows "\<exists>n h' v'. handle_write h data (st, v, s) = Some (Inr n, h', st, v', s)"
proof -
  obtain i n where i: "nmap (vfs_fs v1) i = Some n" "n_kind n = File"
    "get_open_file v1 fd = Inr \<lparr>of_inode = i, of_offset = 0, of_readable = True, of_writable = True, of_append = False\<rparr>"
    using vfs_open_ok [OF I o] by (auto simp: read_write_create_def)
  have len: "inode_len (vfs_fs v1) i = Inr (length (n_data n))" using i by (simp add: inode_len_def node_Inr [THEN iffD2])
  obtain p v2 where s2: "vfs_seek fd (Start (h_offset h)) v1 = (Inr p, v2)"
    using vfs_seek_succeeds [OF i(3)] len by fastforce
  have v2: "vfs_fs v2 = vfs_fs v1"
    "get_open_file v2 fd = Inr \<lparr>of_inode = i, of_offset = p, of_readable = True, of_writable = True, of_append = False\<rparr>"
    using s2 i(3) len set_offset_ok [OF i(3)] by (auto simp: vfs_seek_def Let_def split: prod.splits sum.splits) (metis fst_conv snd_conv)+
  obtain fs' where w: "write_inode_at i p data (vfs_fs v2) = (Inr (length data), fs')"
    using i v2(1) by (simp add: write_inode_at_def node_Inr [THEN iffD2])
  have "get_open_file (v2\<lparr>vfs_fs := fs'\<rparr>) fd = get_open_file v2 fd" by (simp add: get_open_file_def)
  with v2(2) obtain v3 f where v3: "set_offset fd (p + length data) (v2\<lparr>vfs_fs := fs'\<rparr>) = (Inr (), v3)" "get_open_file v3 fd = Inr f"
    using set_offset_ok [of "v2\<lparr>vfs_fs := fs'\<rparr>" fd _ "p + length data"] by (metis (no_types, lifting))
  obtain v4 where "close_fd fd v3 = (Inr (), v4)" using close_fd_ok [OF v3(2)] by blast
  moreover have "seek_write (h_offset h) data fd v1 = (Inr (length data), v3)"
    using s2 v2(2) w v3 by (simp add: seek_write_def vfs_write_def)
  ultimately show ?thesis using o by (simp add: handle_write_def open_use_close_def vfs_close_def)
qed

definition demo_volume :: "unit env" where
  "demo_volume = bare_env\<lparr>storage_backed := \<lambda>_ p. starts_with p ''/mnt/'', storage_read := \<lambda>_ _. (Inr [7], ())\<rparr>"

definition demo_handle :: SaifsHandle where
  "demo_handle = \<lparr>h_id = 1, h_path = ''/mnt/f'', h_provider_path = ''/mnt/f'', h_object_id = None, h_provider_id = 1,
     h_kind = KFile, h_offset = 0\<rparr>"

definition demo_saifs :: "unit SaifsState" where
  "demo_saifs = snd (mount_state ''/mnt/a'' 1 True (init_state (default_vfs_provider bare_env
     \<lparr>om_init = \<lambda>s. s, om_metadata = \<lambda>_ _. None, om_lookup_by_id = \<lambda>_ _. None\<rparr>) saifs_new))"

section \<open>Properties\<close>

text \<open>C30: canonical paths are well formed.  Only a path with a zero byte is refused.  The result of every other path starts at the
  root, has no empty, dot or dot-dot component, and is its own canonical form.\<close>

theorem canonicalize_well_formed:
  "case canonicalize_path path of
     Inl e \<Rightarrow> e = InvalidPath \<and> CHR 0x00 \<in> set path
   | Inr p \<Rightarrow> CHR 0x00 \<notin> set path \<and> (\<exists>ps. canonical ps \<and> p = path_of ps) \<and> canonicalize_path p = Inr p"
proof (cases "canonicalize_path path")
  case (Inl e)
  then show ?thesis by (auto simp: canonicalize_path_def Let_def split: if_splits)
next
  case (Inr p)
  then have "CHR 0x00 \<notin> set path" by (auto simp: canonicalize_path_def Let_def split: if_splits)
  moreover obtain ps where "canonical ps" "p = path_of ps" using canonicalize_Inr [OF Inr] by blast
  ultimately show ?thesis using Inr canonicalize_path_of [of ps] by auto
qed

text \<open>C8: every path is served by the innermost mount above it.  In every reachable initialised state a path without a
  zero byte, walked from the root component by component, resolves to a mount on the way to it, below all other such
  mounts; the result names that mount, its provider, which is registered, its read-only flag, and the rest of the
  path for the provider.\<close>

theorem paths_resolve_innermost:
  assumes "saifs_step\<^sup>*\<^sup>* saifs_new st" "sf_initialized st" "CHR 0x00 \<notin> set path"
  shows "\<exists>m\<in>set (sf_mounts st). prefix (mount_parts m) (walk path)
    \<and> (\<forall>m'\<in>set (sf_mounts st). prefix (mount_parts m') (walk path) \<longrightarrow> prefix (mount_parts m') (mount_parts m))
    \<and> provider_by_id_internal st (mp_provider m) \<noteq> None
    \<and> resolve_path_internal st path = Inr \<lparr>rp_input_path = path, rp_absolute_path = path_of (walk path),
        rp_provider_path = path_of (drop (length (mount_parts m)) (walk path)), rp_mount_path = mp_path m,
        rp_provider = mp_provider m, rp_read_only = mp_read_only m\<rparr>"
proof -
  have ps: "canonicalize_path path = Inr (path_of (walk path))" "canonical (walk path)"
    using canonicalize_walk [OF assms(3)] by simp_all
  obtain m where m: "resolve_mount_internal st (path_of (walk path)) = Some m" "m \<in> set (sf_mounts st)" "prefix (mount_parts m) (walk path)"
    "\<forall>m'\<in>set (sf_mounts st). prefix (mount_parts m') (walk path) \<longrightarrow> prefix (mount_parts m') (mount_parts m)"
    "provider_by_id_internal st (mp_provider m) \<noteq> None"
    "provider_path_from_mount (mp_path m) (path_of (walk path)) = path_of (drop (length (mount_parts m)) (walk path))"
    by (rule resolve_innermost [OF saifs_reach_inv [OF assms(1)] assms(2) ps(2)])
  show ?thesis using ps m by (intro bexI [of _ m]) (simp_all add: resolve_path_internal_def)
qed

theorem paths_resolve_innermost_witness:
  "\<exists>r. resolve_path_internal demo_saifs ''/mnt/../mnt/a//b'' = Inr r \<and> rp_provider_path r = ''/b'' \<and> rp_read_only r
    \<and> provider_by_id_internal demo_saifs (rp_provider r) \<noteq> None"
proof -
  let ?init = "init_state (default_vfs_provider bare_env
     \<lparr>om_init = \<lambda>s. s, om_metadata = \<lambda>_ _. None, om_lookup_by_id = \<lambda>_ _. None\<rparr>) saifs_new"
  have i: "saifs_step saifs_new ?init" by (rule step_init)
  have "sf_initialized ?init" by (simp add: init_state_def saifs_new_def register_provider_internal_def alloc_provider_id_def)
  moreover have "canonicalize_path ''/mnt/a'' = Inr ''/mnt/a''" by code_simp
  ultimately have "saifs_step ?init demo_saifs" unfolding demo_saifs_def by (rule step_mount)
  with i have reach: "saifs_step\<^sup>*\<^sup>* saifs_new demo_saifs" by (meson r_into_rtranclp rtranclp_trans)
  have d: "sf_initialized demo_saifs"
    "sf_mounts demo_saifs = [\<lparr>mp_path = ''/'', mp_provider = 1, mp_read_only = False\<rparr>, \<lparr>mp_path = ''/mnt/a'', mp_provider = 1, mp_read_only = True\<rparr>]"
    by (simp_all add: demo_saifs_def mount_state_def init_state_def saifs_new_def register_provider_internal_def
        alloc_provider_id_def provider_by_id_internal_def)
  have c: "path_parts ''/mnt/a/b'' = [''mnt'', ''a'', ''b'']" "path_parts ''/mnt/a'' = [''mnt'', ''a'']" "path_parts ''/'' = []" "path_of [''b''] = ''/b''" by code_simp+
  have "CHR 0x00 \<notin> set ''/mnt/../mnt/a//b''" by simp
  from paths_resolve_innermost [OF reach d(1) this] obtain m where m: "m \<in> set (sf_mounts demo_saifs)"
    "\<forall>m'\<in>set (sf_mounts demo_saifs). prefix (mount_parts m') (walk ''/mnt/../mnt/a//b'') \<longrightarrow> prefix (mount_parts m') (mount_parts m)"
    "provider_by_id_internal demo_saifs (mp_provider m) \<noteq> None"
    "resolve_path_internal demo_saifs ''/mnt/../mnt/a//b'' = Inr \<lparr>rp_input_path = ''/mnt/../mnt/a//b'',
        rp_absolute_path = path_of (walk ''/mnt/../mnt/a//b''),
        rp_provider_path = path_of (drop (length (mount_parts m)) (walk ''/mnt/../mnt/a//b'')), rp_mount_path = mp_path m,
        rp_provider = mp_provider m, rp_read_only = mp_read_only m\<rparr>" by blast
  have w: "walk ''/mnt/../mnt/a//b'' = [''mnt'', ''a'', ''b'']" by code_simp
  then have "mp_path m = ''/mnt/a'' \<and> mp_read_only m" using m(1,2) d(2) c(2,3) by auto
  then show ?thesis using m w c by auto
qed

text \<open>C31: writing through a handle misses mounted volumes.  For a file on a mounted volume, reading it after a successful write
  through the handle gives what reading it before the write would have given: the bytes went to the in-memory tree.\<close>

theorem handle_write_misses_volume:
  assumes "canonical ps" "h_path h = path_of ps" "\<not> is_sys_path (path_of ps)" "storage_backed E s (path_of ps)"
    and "handle_write h data (st, v, s) = Some (Inr n, h', st', v', s')"
  shows "map_option fst (handle_read E h' (st', v', s')) = map_option fst (handle_read E h (st, v, s))"
proof -
  obtain r v1 where o: "open_use_close (h_path h) read_write_create (seek_write (h_offset h) data) v = Some (r, v1)"
    using assms(5) by (auto simp: handle_write_def)
  have h: "h_path h' = h_path h" "s' = s" using assms(5) o by (cases r; auto simp: handle_write_def)+
  show ?thesis using assms(1-4) h
    by (simp add: handle_read_def vfs_read_path_def normalized_path_canonical split: prod.split)
qed

theorem handle_write_misses_volume_witness:
  "\<exists>n h v. handle_write demo_handle [1, 2] (demo_saifs, vfs_new, ()) = Some (Inr n, h, demo_saifs, v, ())
    \<and> map_option fst (handle_read demo_volume h (demo_saifs, v, ())) = Some (Inr [7])"
proof -
  have "case vfs_open ''/mnt/f'' read_write_create vfs_new of Some (Inr fd, v) \<Rightarrow> True | _ \<Rightarrow> False" by code_simp
  then obtain fd v1 where "vfs_open ''/mnt/f'' read_write_create vfs_new = Some (Inr fd, v1)"
    by (auto split: option.splits prod.splits sum.splits)
  then have o: "vfs_open (h_path demo_handle) read_write_create vfs_new = Some (Inr fd, v1)" by (simp add: demo_handle_def)
  obtain n h v where w: "handle_write demo_handle [1, 2] (demo_saifs, vfs_new, ()) = Some (Inr n, h, demo_saifs, v, ())"
    using handle_write_succeeds [OF vfs_new_inv o, of "[1, 2]" demo_saifs "()"] by blast
  have p: "canonical [''mnt'', ''f'']" "h_path demo_handle = path_of [''mnt'', ''f'']" "path_of [''mnt'', ''f''] = ''/mnt/f''"
    by (simp_all add: canonical_def component_def demo_handle_def path_of_def)
  have "\<not> is_sys_path (path_of [''mnt'', ''f''])" "storage_backed demo_volume () (path_of [''mnt'', ''f''])"
    unfolding p(3) by (simp_all add: is_sys_path_def starts_with_def demo_volume_def)
  from handle_write_misses_volume [OF p(1,2) this w]
  have "map_option fst (handle_read demo_volume h (demo_saifs, v, ())) = map_option fst (handle_read demo_volume demo_handle (demo_saifs, vfs_new, ()))" .
  also have "\<dots> = Some (Inr [7])"
    using normalized_path_canonical [OF p(1), of "vfs_fs vfs_new"] unfolding p(3)
    by (simp add: handle_read_def vfs_read_path_def demo_handle_def is_sys_path_def starts_with_def demo_volume_def map_err_def)
  finally show ?thesis using w by blast
qed

end
