(* ===== verification/Shell_Regex.thy ===== *)
theory Shell_Regex
  imports Text "HOL-Library.Char_ord" "HOL-Library.Sublist"
begin

text \<open>
  The regular expressions of the shell's \<^verbatim>\<open>grep\<close>, \<^verbatim>\<open>seed/saios/src/shell/regex.rs\<close>: a back-tracking matcher that
  works directly on the pattern text.  Patterns and texts are byte strings.  The matcher is shown to
  compute the declarative meaning of the pattern: a pattern is compiled to a list of atoms with
  quantifiers and two anchors, whose language is a set of strings, and \<open>is_match\<close> tells whether a piece of
  the text at the anchors is in that language.
\<close>

section \<open>Character classes\<close>

datatype Atom = Byte char | Any | Class bool string

definition parse_class_char :: "string \<Rightarrow> nat \<Rightarrow> (char \<times> nat) option" where
  "parse_class_char body at =
     (if length body \<le> at then None
      else if body ! at = CHR 0x5C
      then (if at + 1 < length body then Some (body ! (at + 1), 2) else None)
      else Some (body ! at, 1))"

lemma parse_class_char_step: "parse_class_char body at = Some (c, n) \<Longrightarrow> 1 \<le> n \<and> at + n \<le> length body"
  by (auto simp: parse_class_char_def split: if_splits)

function class_loop :: "string \<Rightarrow> char \<Rightarrow> nat \<Rightarrow> bool" where
  "class_loop body ch i =
     (if i < length body
      then (case parse_class_char body i of
              None \<Rightarrow> False
            | Some (first, first_len) \<Rightarrow>
                let i = i + first_len
                in if i + 1 < length body \<and> body ! i = CHR ''-''
                   then (case parse_class_char body (i + 1) of
                           None \<Rightarrow> False
                         | Some (final, last_len) \<Rightarrow>
                             let lo = min first final; hi = max first final
                             in if lo \<le> ch \<and> ch \<le> hi then True else class_loop body ch (i + (1 + last_len)))
                   else if ch = first then True
                   else class_loop body ch i)
      else False)"
  by pat_completeness auto
termination
  by (relation "measure (\<lambda>(body, ch, i). length body - i)") (auto dest: parse_class_char_step)

declare class_loop.simps [simp del]

definition class_contains :: "string \<Rightarrow> char \<Rightarrow> bool" where
  "class_contains body ch = class_loop body ch 0"

fun atom_matches :: "Atom \<Rightarrow> char \<Rightarrow> bool" where
  "atom_matches (Byte b) ch = (b = ch)"
| "atom_matches Any ch = True"
| "atom_matches (Class neg bd) ch = (let contains = class_contains bd ch in if neg then \<not> contains else contains)"

section \<open>Reading a pattern\<close>

definition is_quantifier :: "char \<Rightarrow> bool" where
  "is_quantifier ch = (ch = CHR ''*'' \<or> ch = CHR ''+'' \<or> ch = CHR ''?'')"

function class_scan :: "string \<Rightarrow> nat \<Rightarrow> nat \<Rightarrow> bool \<Rightarrow> (string \<times> nat) option" where
  "class_scan pattern body_start i has_member =
     (if i < length pattern
      then if pattern ! i = CHR 0x5C
           then (if length pattern \<le> i + 1 then None else class_scan pattern body_start (i + 2) True)
           else if pattern ! i = CHR '']''
           then (if \<not> has_member then None else Some (take (i - body_start) (drop body_start pattern), i + 1))
           else class_scan pattern body_start (i + 1) True
      else None)"
  by pat_completeness auto
termination
  by (relation "measure (\<lambda>(pattern, body_start, i, has_member). length pattern - i)") auto

declare class_scan.simps [simp del]

definition parse_class :: "string \<Rightarrow> (bool \<times> string \<times> nat) option" where
  "parse_class pattern =
     (if pattern = [] \<or> hd pattern \<noteq> CHR ''['' then None
      else let neg = (1 < length pattern \<and> pattern ! 1 = CHR ''^'');
               body_start = (if neg then 2 else 1)
           in case class_scan pattern body_start body_start False of
                None \<Rightarrow> None
              | Some (bd, len) \<Rightarrow> Some (neg, bd, len))"

definition parse_atom :: "string \<Rightarrow> (Atom \<times> nat) option" where
  "parse_atom pattern =
     (case pattern of
        [] \<Rightarrow> None
      | first # _ \<Rightarrow>
          if first = CHR ''.'' then Some (Any, 1)
          else if first = CHR 0x5C then (if 1 < length pattern then Some (Byte (pattern ! 1), 2) else None)
          else if first = CHR ''['' then (case parse_class pattern of None \<Rightarrow> None | Some (neg, bd, len) \<Rightarrow> Some (Class neg bd, len))
          else if first = CHR ''*'' \<or> first = CHR ''+'' \<or> first = CHR ''?'' then None
          else Some (Byte first, 1))"

lemma class_scan_step: "class_scan pattern s i h = Some (bd, n) \<Longrightarrow> i < n \<and> n \<le> length pattern"
proof (induction pattern s i h rule: class_scan.induct)
  case (1 pattern s i h)
  from "1.prems" show ?case
    by (subst (asm) class_scan.simps) (use "1.IH" in \<open>auto split: if_splits\<close>)
qed

lemma parse_atom_step: "parse_atom pattern = Some (a, n) \<Longrightarrow> 1 \<le> n \<and> n \<le> length pattern"
  by (auto simp: parse_atom_def parse_class_def Let_def Suc_le_eq split: list.splits if_splits option.splits dest: class_scan_step)

function validate_loop :: "string \<Rightarrow> nat \<Rightarrow> bool \<Rightarrow> unit res" where
  "validate_loop p i prev_was_atom =
     (if i < length p
      then if p ! i = CHR ''$'' \<and> i + 1 = length p then Inr ()
           else if is_quantifier (p ! i)
           then (if \<not> prev_was_atom then Inl ''grep: invalid regex (quantifier without atom)''
                 else validate_loop p (i + 1) False)
           else (case parse_atom (drop i p) of
                   None \<Rightarrow> Inl ''grep: invalid regex (bad atom)''
                 | Some (_, atom_len) \<Rightarrow> validate_loop p (i + atom_len) True)
      else Inr ())"
  by pat_completeness auto
termination
  by (relation "measure (\<lambda>(p, i, prev). length p - i)") (auto dest: parse_atom_step)

declare validate_loop.simps [simp del]

definition validate_pattern :: "string \<Rightarrow> unit res" where
  "validate_pattern p = validate_loop p (if p \<noteq> [] \<and> hd p = CHR ''^'' then 1 else 0) False"

section \<open>Matching\<close>

function take_min :: "Atom \<Rightarrow> nat \<Rightarrow> string \<Rightarrow> nat \<Rightarrow> nat option" where
  "take_min a min_count text consumed =
     (if consumed < min_count
      then if length text \<le> consumed \<or> \<not> atom_matches a (text ! consumed) then None
           else take_min a min_count text (consumed + 1)
      else Some consumed)"
  by pat_completeness auto
termination
  by (relation "measure (\<lambda>(a, min_count, text, consumed). min_count - consumed)") auto

function take_max :: "Atom \<Rightarrow> string \<Rightarrow> nat \<Rightarrow> nat" where
  "take_max a text i = (if i < length text \<and> atom_matches a (text ! i) then take_max a text (i + 1) else i)"
  by pat_completeness auto
termination
  by (relation "measure (\<lambda>(a, text, i). length text - i)") auto

declare take_min.simps [simp del] take_max.simps [simp del]

function match_here :: "string \<Rightarrow> string \<Rightarrow> bool"
  and match_repeat :: "Atom \<Rightarrow> nat \<Rightarrow> string \<Rightarrow> string \<Rightarrow> bool"
  and repeat_loop :: "string \<Rightarrow> string \<Rightarrow> nat \<Rightarrow> nat \<Rightarrow> bool" where
  "match_here pattern text =
     (if pattern = [] then True
      else if hd pattern = CHR ''$'' \<and> length pattern = 1 then text = []
      else case parse_atom pattern of
             None \<Rightarrow> False
           | Some (a, atom_len) \<Rightarrow>
               let rest = drop atom_len pattern
               in if rest \<noteq> [] \<and> is_quantifier (hd rest)
                  then let q = hd rest; after = tl rest
                       in if q = CHR ''*'' then match_repeat a 0 after text
                          else if q = CHR ''+'' then match_repeat a 1 after text
                          else if q = CHR ''?''
                          then (if match_here after text then True
                                else if text \<noteq> [] \<and> atom_matches a (hd text) then match_here after (tl text)
                                else False)
                          else False
                  else if text \<noteq> [] \<and> atom_matches a (hd text) then match_here rest (tl text)
                  else False)"
| "match_repeat a min_count rest text =
     (case take_min a min_count text 0 of
        None \<Rightarrow> False
      | Some consumed \<Rightarrow> repeat_loop rest text consumed (take_max a text consumed))"
| "repeat_loop rest text consumed i =
     (if i < consumed then False
      else if match_here rest (drop i text) then True
      else if i = 0 then False
      else repeat_loop rest text consumed (i - 1))"
  by pat_completeness auto
termination
  by (relation "inv_image (less_than <*lex*> less_than <*lex*> less_than)
        (\<lambda>x. case x of Inl (pattern, text) \<Rightarrow> (length pattern, 0, 0)
           | Inr (Inl (a, n, rest, text)) \<Rightarrow> (length rest, 2, 0)
           | Inr (Inr (rest, text, consumed, i)) \<Rightarrow> (length rest, 1, i))")
     (auto dest: parse_atom_step)

declare match_here.simps [simp del] match_repeat.simps [simp del] repeat_loop.simps [simp del]

function search :: "string \<Rightarrow> string \<Rightarrow> nat \<Rightarrow> bool" where
  "search p t idx =
     (if match_here p (drop idx t) then True
      else if length t \<le> idx then False
      else search p t (idx + 1))"
  by pat_completeness auto
termination
  by (relation "measure (\<lambda>(p, t, idx). length t - idx)") auto

declare search.simps [simp del]

definition is_match :: "string \<Rightarrow> string \<Rightarrow> bool res" where
  "is_match p t =
     (case validate_pattern p of
        Inl e \<Rightarrow> Inl e
      | Inr _ \<Rightarrow> (case strip_prefix p ''^'' of Some rest \<Rightarrow> Inr (match_here rest t) | None \<Rightarrow> Inr (search p t 0)))"

section \<open>The meaning of a pattern\<close>

datatype Quantifier = Once | Optionally | Star | Plus

definition quantifier_of :: "char \<Rightarrow> Quantifier" where
  "quantifier_of q = (if q = CHR ''*'' then Star else if q = CHR ''+'' then Plus else Optionally)"

text \<open>A class is a list of ranges; a single character is a range of its own.\<close>

fun take_class :: "string \<Rightarrow> (char \<times> string) option" where
  "take_class [] = None"
| "take_class (c # cs) =
     (if c = CHR 0x5C then (case cs of [] \<Rightarrow> None | d # ds \<Rightarrow> Some (d, ds)) else Some (c, cs))"

lemma take_class_length: "take_class s = Some (c, rest) \<Longrightarrow> length rest < length s"
  by (cases s) (auto split: if_splits list.splits)

function class_ranges :: "string \<Rightarrow> (char \<times> char) list" where
  "class_ranges s =
     (case take_class s of
        None \<Rightarrow> []
      | Some (c, rest) \<Rightarrow>
          if 1 < length rest \<and> hd rest = CHR ''-''
          then (case take_class (tl rest) of None \<Rightarrow> [] | Some (d, rest') \<Rightarrow> (min c d, max c d) # class_ranges rest')
          else (c, c) # class_ranges rest)"
  by pat_completeness auto
termination
  by (relation "measure length") (auto dest!: take_class_length)

declare class_ranges.simps [simp del]

fun atom_set :: "Atom \<Rightarrow> char set" where
  "atom_set (Byte b) = {b}"
| "atom_set Any = UNIV"
| "atom_set (Class neg bd) =
     (let members = (\<Union>r\<in>set (class_ranges bd). {fst r..snd r}) in if neg then - members else members)"

fun item_lang :: "Atom \<times> Quantifier \<Rightarrow> string set" where
  "item_lang (a, Once) = {[c] | c. c \<in> atom_set a}"
| "item_lang (a, Optionally) = {[]} \<union> {[c] | c. c \<in> atom_set a}"
| "item_lang (a, Star) = {u. \<forall>c\<in>set u. c \<in> atom_set a}"
| "item_lang (a, Plus) = {u. u \<noteq> [] \<and> (\<forall>c\<in>set u. c \<in> atom_set a)}"

fun rx_lang :: "(Atom \<times> Quantifier) list \<Rightarrow> string set" where
  "rx_lang [] = {[]}"
| "rx_lang (x # xs) = {u @ v | u v. u \<in> item_lang x \<and> v \<in> rx_lang xs}"

text \<open>The items of a pattern after the leading anchor, and whether it ends with an anchor.\<close>

function rx_compile :: "string \<Rightarrow> ((Atom \<times> Quantifier) list \<times> bool) option" where
  "rx_compile p =
     (if p = [] then Some ([], False)
      else if p = ''$'' then Some ([], True)
      else case parse_atom p of
             None \<Rightarrow> None
           | Some (a, n) \<Rightarrow>
               let rest = drop n p
               in if rest \<noteq> [] \<and> is_quantifier (hd rest)
                  then map_option (\<lambda>(xs, e). ((a, quantifier_of (hd rest)) # xs, e)) (rx_compile (tl rest))
                  else map_option (\<lambda>(xs, e). ((a, Once) # xs, e)) (rx_compile rest))"
  by pat_completeness auto
termination
  by (relation "measure length") (auto dest: parse_atom_step)

declare rx_compile.simps [simp del]

definition rx_here :: "(Atom \<times> Quantifier) list \<times> bool \<Rightarrow> string \<Rightarrow> bool" where
  "rx_here r t \<longleftrightarrow> (\<exists>u v. t = u @ v \<and> u \<in> rx_lang (fst r) \<and> (snd r \<longrightarrow> v = []))"

section \<open>Lemmas\<close>

lemma parse_class_char_drop:
  "parse_class_char body i = (case take_class (drop i body) of None \<Rightarrow> None | Some (c, rest) \<Rightarrow> Some (c, length (drop i body) - length rest))"
proof (cases "i < length body")
  case True
  then have "drop i body = body ! i # drop (i + 1) body" by (simp add: Cons_nth_drop_Suc)
  moreover have "drop (i + 1) body = body ! (i + 1) # drop (i + 2) body" if "i + 1 < length body"
    using that by (simp add: Cons_nth_drop_Suc)
  ultimately show ?thesis using True by (auto simp: parse_class_char_def split: list.split)
qed (simp add: parse_class_char_def)

lemma take_class_drop: "take_class s = Some (c, rest) \<Longrightarrow> rest = drop (length s - length rest) s"
  by (cases s) (auto split: if_splits list.splits)

lemma tl_drop_Suc: "tl (drop j xs) = drop (Suc j) xs"
  by (simp add: tl_drop drop_Suc)

lemma take_class_position:
  assumes "take_class (drop i body) = Some (c, rest)"
  obtains j where "i < j" "parse_class_char body i = Some (c, j - i)" "rest = drop j body"
proof
  let ?j = "i + (length (drop i body) - length rest)"
  show "i < ?j" using take_class_length [OF assms] by simp
  show "parse_class_char body i = Some (c, ?j - i)" using assms by (simp add: parse_class_char_drop)
  show "rest = drop ?j body" using take_class_drop [OF assms] by (simp add: add.commute)
qed

lemma class_loop_iff: "class_loop body ch i \<longleftrightarrow> (\<exists>r\<in>set (class_ranges (drop i body)). fst r \<le> ch \<and> ch \<le> snd r)"
proof (induction body ch i rule: class_loop.induct)
  case (1 body ch i)
  show ?case
  proof (cases "take_class (drop i body)")
    case None
    then show ?thesis by (simp add: class_loop.simps [of body ch i] class_ranges.simps [of "drop i body"] parse_class_char_drop)
  next
    case (Some x)
    obtain c rest where x: "take_class (drop i body) = Some (c, rest)" using Some by (cases x) simp
    have i: "i < length body" using Some by (cases "i < length body") simp_all
    obtain j where j: "i < j" and pc: "parse_class_char body i = Some (c, j - i)" and r: "rest = drop j body"
      by (rule take_class_position [OF x])
    have ij: "i + (j - i) = j" using j by simp
    have range: "1 < length rest \<and> hd rest = CHR ''-'' \<longleftrightarrow> j + 1 < length body \<and> body ! j = CHR ''-''"
      unfolding r by (auto simp: hd_drop_conv_nth)
    consider (bad) "j + 1 < length body" "body ! j = CHR ''-''" "take_class (drop (j + 1) body) = None"
      | (range) d rest' where "j + 1 < length body" "body ! j = CHR ''-''" "take_class (drop (j + 1) body) = Some (d, rest')"
      | (single) "\<not> (j + 1 < length body \<and> body ! j = CHR ''-'')" by (cases "take_class (drop (j + 1) body)") auto
    then show ?thesis
    proof cases
      case bad
      then show ?thesis using i pc ij x range tl_drop_Suc [of j body] r
        by (simp add: class_loop.simps [of body ch i] class_ranges.simps [of "drop i body"] parse_class_char_drop [of body "Suc j"])
    next
      case range': (range d rest')
      obtain k where k: "j + 1 < k" and pd: "parse_class_char body (j + 1) = Some (d, k - (j + 1))" and r': "rest' = drop k body"
        by (rule take_class_position [OF range'(3)])
      have jk: "j + (1 + (k - (j + 1))) = k" using k by simp
      have "class_loop body ch i \<longleftrightarrow> min c d \<le> ch \<and> ch \<le> max c d \<or> class_loop body ch k"
        using i pc ij range' pd jk by (auto simp: class_loop.simps [of body ch i])
      moreover have "class_loop body ch k \<longleftrightarrow> (\<exists>r\<in>set (class_ranges rest'). fst r \<le> ch \<and> ch \<le> snd r)"
        if "\<not> (min c d \<le> ch \<and> ch \<le> max c d)"
        unfolding r' by (rule "1.IH"(1) [OF i pc refl refl, unfolded ij, OF conjI [OF range'(1,2)] pd refl refl refl that, unfolded jk])
      moreover have "class_ranges (drop i body) = (min c d, max c d) # class_ranges rest'"
        using x range range' r tl_drop_Suc [of j body] by (simp add: class_ranges.simps [of "drop i body"])
      ultimately show ?thesis by auto
    next
      case single
      have "class_loop body ch i \<longleftrightarrow> ch = c \<or> class_loop body ch j"
        unfolding class_loop.simps [of body ch i] pc Let_def option.case prod.case ij by (simp only: i single if_True if_False) auto
      moreover have "class_loop body ch j \<longleftrightarrow> (\<exists>r\<in>set (class_ranges rest). fst r \<le> ch \<and> ch \<le> snd r)" if "ch \<noteq> c"
        unfolding r by (rule "1.IH"(2) [OF i pc refl refl, unfolded ij, OF single that])
      moreover have "class_ranges (drop i body) = (c, c) # class_ranges rest"
        unfolding class_ranges.simps [of "drop i body"] x option.case prod.case range by (simp only: single if_False)
      ultimately show ?thesis by auto
    qed
  qed
qed

lemma atom_set_iff [simp]: "c \<in> atom_set a \<longleftrightarrow> atom_matches a c"
  by (cases a) (auto simp: class_contains_def class_loop_iff Let_def)

lemma rx_here_Nil: "rx_here ([], e) t \<longleftrightarrow> \<not> e \<or> t = []"
  by (auto simp: rx_here_def)

lemma rx_here_Cons: "rx_here (x # xs, e) t \<longleftrightarrow> (\<exists>u v. t = u @ v \<and> u \<in> item_lang x \<and> rx_here (xs, e) v)"
proof
  assume "rx_here (x # xs, e) t"
  then obtain w v where "t = w @ v" "w \<in> rx_lang (x # xs)" "e \<longrightarrow> v = []" unfolding rx_here_def by auto
  moreover from this(2) obtain a b where "w = a @ b" "a \<in> item_lang x" "b \<in> rx_lang xs" by auto
  ultimately have "t = (a @ b) @ v" "a \<in> item_lang x" "b \<in> rx_lang xs" "e \<longrightarrow> v = []" by simp_all
  then show "\<exists>u v. t = u @ v \<and> u \<in> item_lang x \<and> rx_here (xs, e) v"
    by (intro exI [of _ a] exI [of _ "b @ v"]) (auto simp: rx_here_def)
next
  assume "\<exists>u v. t = u @ v \<and> u \<in> item_lang x \<and> rx_here (xs, e) v"
  then obtain a w where a: "t = a @ w" "a \<in> item_lang x" "rx_here (xs, e) w" by blast
  then obtain b v where "w = b @ v" "b \<in> rx_lang xs" "e \<longrightarrow> v = []" unfolding rx_here_def by auto
  with a have *: "t = (a @ b) @ v" "a \<in> item_lang x" "b \<in> rx_lang xs" "e \<longrightarrow> v = []" by simp_all
  then have "a @ b \<in> rx_lang (x # xs)" by auto
  with * show "rx_here (x # xs, e) t" unfolding rx_here_def fst_conv snd_conv by blast
qed

lemma take_max_eq: "i \<le> length t \<Longrightarrow> take_max a t i = i + length (takeWhile (atom_matches a) (drop i t))"
proof (induction a t i rule: take_max.induct)
  case (1 a t i)
  show ?case
  proof (cases "i < length t \<and> atom_matches a (t ! i)")
    case True
    with 1 have "take_max a t (i + 1) = i + 1 + length (takeWhile (atom_matches a) (drop (i + 1) t))" by simp
    then show ?thesis using True by (simp add: take_max.simps [of a t i] flip: Cons_nth_drop_Suc)
  next
    case False
    then have "take_max a t i = i" by (subst take_max.simps) auto
    moreover have "takeWhile (atom_matches a) (drop i t) = []" using False
      by (cases "i < length t") (simp_all flip: Cons_nth_drop_Suc)
    ultimately show ?thesis by simp
  qed
qed

lemma repeat_loop_iff: "repeat_loop rest t c i \<longleftrightarrow> (\<exists>k. c \<le> k \<and> k \<le> i \<and> match_here rest (drop k t))"
proof (induction i)
  case 0
  then show ?case by (subst repeat_loop.simps) auto
next
  case (Suc i)
  have "(\<exists>k. c \<le> k \<and> k \<le> Suc i \<and> match_here rest (drop k t))
      \<longleftrightarrow> c \<le> Suc i \<and> (match_here rest (drop (Suc i) t) \<or> (\<exists>k. c \<le> k \<and> k \<le> i \<and> match_here rest (drop k t)))"
    by (metis le_Suc_eq le_trans le_refl)
  then show ?case using Suc.IH by (subst repeat_loop.simps) auto
qed

lemma takeWhile_split:
  "(\<exists>k. c \<le> k \<and> k \<le> length (takeWhile P t) \<and> Q (drop k t))
    \<longleftrightarrow> (\<exists>u v. t = u @ v \<and> c \<le> length u \<and> (\<forall>x\<in>set u. P x) \<and> Q v)"
proof safe
  fix k assume k: "c \<le> k" "k \<le> length (takeWhile P t)" "Q (drop k t)"
  have "take k t = take k (takeWhile P t)" using k(2) by (subst takeWhile_eq_take) (simp add: min_absorb1)
  then have "\<forall>x\<in>set (take k t). P x" by (metis in_set_takeD set_takeWhileD)
  moreover have "k \<le> length t" using k(2) length_takeWhile_le [of P t] by linarith
  ultimately show "\<exists>u v. t = u @ v \<and> c \<le> length u \<and> (\<forall>x\<in>set u. P x) \<and> Q v"
    using k by (intro exI [of _ "take k t"] exI [of _ "drop k t"]) simp
next
  fix u v assume "c \<le> length u" "\<forall>x\<in>set u. P x" "Q v"
  then show "\<exists>k\<ge>c. k \<le> length (takeWhile P (u @ v)) \<and> Q (drop k (u @ v))"
    by (intro exI [of _ "length u"]) (simp add: takeWhile_append2)
qed

lemma match_repeat_Star:
  "match_repeat a 0 rest t \<longleftrightarrow> (\<exists>u v. t = u @ v \<and> u \<in> item_lang (a, Star) \<and> match_here rest v)"
  using takeWhile_split [of 0 "atom_matches a" t "match_here rest"]
  by (simp add: match_repeat.simps take_min.simps take_max_eq repeat_loop_iff)

lemma match_repeat_Plus:
  "match_repeat a 1 rest t \<longleftrightarrow> (\<exists>u v. t = u @ v \<and> u \<in> item_lang (a, Plus) \<and> match_here rest v)"
proof (cases "t \<noteq> [] \<and> atom_matches a (hd t)")
  case True
  then obtain c cs where t: "t = c # cs" "atom_matches a c" by (cases t) auto
  have "take_min a 1 t 0 = Some 1" using t by (simp add: take_min.simps)
  moreover have "take_max a t 1 = length (takeWhile (atom_matches a) t)" using t by (simp add: take_max_eq)
  ultimately show ?thesis
    using takeWhile_split [of 1 "atom_matches a" t "match_here rest"]
    by (simp add: match_repeat.simps repeat_loop_iff Suc_le_eq)
next
  case False
  then have "take_min a 1 t 0 = None" by (cases t) (auto simp: take_min.simps)
  moreover have "\<not> (\<exists>u v. t = u @ v \<and> u \<in> item_lang (a, Plus) \<and> match_here rest v)"
  proof
    assume "\<exists>u v. t = u @ v \<and> u \<in> item_lang (a, Plus) \<and> match_here rest v"
    then obtain u v where "t = u @ v" "u \<noteq> []" "\<forall>c\<in>set u. atom_matches a c" by auto
    with False show False by (cases u) auto
  qed
  ultimately show ?thesis by (simp add: match_repeat.simps)
qed

lemma one_char: "(\<exists>u v. t = u @ v \<and> (\<exists>c. u = [c] \<and> P c) \<and> Q v) \<longleftrightarrow> t \<noteq> [] \<and> P (hd t) \<and> Q (tl t)"
proof (cases t)
  case (Cons c cs)
  then show ?thesis by (auto intro: exI [of _ "[c]"])
qed simp

lemma item_Once: "(\<exists>u v. t = u @ v \<and> u \<in> item_lang (a, Once) \<and> Q v) \<longleftrightarrow> t \<noteq> [] \<and> atom_matches a (hd t) \<and> Q (tl t)"
  using one_char [of t "atom_matches a" Q] by simp

lemma match_here_atom:
  assumes "p \<noteq> []" "p \<noteq> ''$''" "parse_atom p = Some (a, n)"
  shows "match_here p t =
    (let rest = drop n p
     in if rest \<noteq> [] \<and> is_quantifier (hd rest)
        then let q = hd rest; after = tl rest
             in if q = CHR ''*'' then match_repeat a 0 after t
                else if q = CHR ''+'' then match_repeat a 1 after t
                else match_here after t \<or> t \<noteq> [] \<and> atom_matches a (hd t) \<and> match_here after (tl t)
        else t \<noteq> [] \<and> atom_matches a (hd t) \<and> match_here rest (tl t))"
proof -
  have c: "(hd p = CHR ''$'' \<and> length p = 1) = False" using assms(1,2) by (cases p) auto
  show ?thesis
    unfolding match_here.simps [of p t] c assms(3) using assms(1)
    by (auto simp: Let_def is_quantifier_def simp del: drop_eq_Nil)
qed

lemma match_here_quantified:
  assumes "p \<noteq> []" "p \<noteq> ''$''" "parse_atom p = Some (a, n)" "drop n p \<noteq> []" "is_quantifier (hd (drop n p))"
  shows "match_here p t \<longleftrightarrow>
    (\<exists>u v. t = u @ v \<and> u \<in> item_lang (a, quantifier_of (hd (drop n p))) \<and> match_here (tl (drop n p)) v)"
proof -
  have "(\<exists>u v. t = u @ v \<and> u \<in> item_lang (a, Optionally) \<and> match_here (tl (drop n p)) v)
      \<longleftrightarrow> match_here (tl (drop n p)) t \<or> t \<noteq> [] \<and> atom_matches a (hd t) \<and> match_here (tl (drop n p)) (tl t)"
    unfolding item_Once [symmetric] by auto
  then show ?thesis
    unfolding match_here_atom [OF assms(1-3)] Let_def quantifier_of_def match_repeat_Star match_repeat_Plus
    using assms(4,5) by (simp del: item_lang.simps drop_eq_Nil)
qed

lemma match_here_once:
  assumes "p \<noteq> []" "p \<noteq> ''$''" "parse_atom p = Some (a, n)" "\<not> (drop n p \<noteq> [] \<and> is_quantifier (hd (drop n p)))"
  shows "match_here p t \<longleftrightarrow> (\<exists>u v. t = u @ v \<and> u \<in> item_lang (a, Once) \<and> match_here (drop n p) v)"
  unfolding match_here_atom [OF assms(1-3)] Let_def item_Once using assms(4) by (simp only: if_False)

lemma match_here_iff: "rx_compile p = Some r \<Longrightarrow> match_here p t \<longleftrightarrow> rx_here r t"
proof (induction p arbitrary: r t rule: rx_compile.induct)
  case (1 p)
  consider (empty) "p = []" | (anchor) "p = ''$''" | (atom) a n where "p \<noteq> []" "p \<noteq> ''$''" "parse_atom p = Some (a, n)"
    using "1.prems" by (auto simp: rx_compile.simps [of p] split: if_splits option.splits)
  then show ?case
  proof cases
    case atom
    show ?thesis
    proof (cases "drop n p \<noteq> [] \<and> is_quantifier (hd (drop n p))")
      case True
      then obtain xs e where x: "rx_compile (tl (drop n p)) = Some (xs, e)" "r = ((a, quantifier_of (hd (drop n p))) # xs, e)"
        using "1.prems" atom by (auto simp: rx_compile.simps [of p] Let_def)
      show ?thesis unfolding match_here_quantified [OF atom conjunct1 [OF True] conjunct2 [OF True]] x(2) rx_here_Cons
        "1.IH"(1) [OF atom refl refl True x(1)] ..
    next
      case False
      then obtain xs e where x: "rx_compile (drop n p) = Some (xs, e)" "r = ((a, Once) # xs, e)"
        using "1.prems" atom by (auto simp: rx_compile.simps [of p] Let_def)
      show ?thesis unfolding match_here_once [OF atom False] x(2) rx_here_Cons "1.IH"(2) [OF atom refl refl False x(1)] ..
    qed
  qed (use "1.prems" in \<open>auto simp: rx_compile.simps match_here.simps rx_here_Nil\<close>)
qed

lemma search_iff: "search p t idx \<longleftrightarrow> (\<exists>k. idx \<le> k \<and> k \<le> max idx (length t) \<and> match_here p (drop k t))"
proof (induction p t idx rule: search.induct)
  case (1 p t idx)
  show ?case
  proof (cases "match_here p (drop idx t) \<or> length t \<le> idx")
    case True
    then show ?thesis by (subst search.simps) (auto simp: max_def)
  next
    case False
    then have "search p t idx \<longleftrightarrow> search p t (idx + 1)" by (subst search.simps) simp
    also have "\<dots> \<longleftrightarrow> (\<exists>k. idx + 1 \<le> k \<and> k \<le> length t \<and> match_here p (drop k t))" using 1 False by simp
    also have "\<dots> \<longleftrightarrow> (\<exists>k. idx \<le> k \<and> k \<le> length t \<and> match_here p (drop k t))"
      using False by (metis Suc_eq_plus1 le_antisym not_less_eq_eq order_refl le_SucI)
    finally show ?thesis using False by simp
  qed
qed

definition rx_valid :: "bool \<Rightarrow> string \<Rightarrow> bool" where
  "rx_valid prev s \<longleftrightarrow> (if s \<noteq> [] \<and> is_quantifier (hd s) then prev \<and> rx_compile (tl s) \<noteq> None else rx_compile s \<noteq> None)"

lemma quantifier_no_atom: "p \<noteq> [] \<Longrightarrow> is_quantifier (hd p) \<Longrightarrow> rx_compile p = None"
  by (subst rx_compile.simps) (auto simp: is_quantifier_def parse_atom_def neq_Nil_conv)

lemma rx_valid_step:
  "s \<noteq> [] \<Longrightarrow> s \<noteq> ''$'' \<Longrightarrow> parse_atom s = Some (a, n) \<Longrightarrow> rx_valid True (drop n s) \<longleftrightarrow> rx_compile s \<noteq> None"
  by (auto simp: rx_compile.simps [of s] rx_valid_def Let_def simp del: drop_eq_Nil)

lemma validate_loop_iff: "validate_loop p i prev = Inr () \<longleftrightarrow> rx_valid prev (drop i p)"
proof (induction p i prev rule: validate_loop.induct)
  case (1 p i prev)
  show ?case
  proof (cases "i < length p")
    case True
    then have d: "drop i p = p ! i # drop (i + 1) p" by (simp add: Cons_nth_drop_Suc)
    consider (anchor) "p ! i = CHR ''$''" "i + 1 = length p" | (quantifier) "is_quantifier (p ! i)"
      | (atom) "\<not> is_quantifier (p ! i)" "drop i p \<noteq> ''$''"
      using d True by (cases "is_quantifier (p ! i)"; cases "i + 1 = length p") auto
    then show ?thesis
    proof cases
      case anchor
      then show ?thesis using True d by (simp add: validate_loop.simps [of p i] rx_valid_def is_quantifier_def rx_compile.simps)
    next
      case quantifier
      then have "validate_loop p i prev = Inr () \<longleftrightarrow> prev \<and> rx_valid False (drop (i + 1) p)"
        using True "1.IH"(1) by (auto simp: validate_loop.simps [of p i prev] is_quantifier_def)
      also have "\<dots> \<longleftrightarrow> prev \<and> rx_compile (drop (i + 1) p) \<noteq> None"
        using quantifier_no_atom [of "drop (i + 1) p"] by (simp add: rx_valid_def)
      finally show ?thesis using quantifier unfolding rx_valid_def d by simp
    next
      case atom
      have na: "\<not> (p ! i = CHR ''$'' \<and> i + 1 = length p)" using atom(2) d by auto
      show ?thesis
      proof (cases "parse_atom (drop i p)")
        case None
        then have "rx_compile (drop i p) = None" using atom(2) d by (subst rx_compile.simps) simp
        moreover have "validate_loop p i prev \<noteq> Inr ()"
          using True None atom(1) na by (subst validate_loop.simps) simp
        ultimately show ?thesis using atom(1) unfolding rx_valid_def d by simp
      next
        case (Some an)
        obtain a n where an: "an = (a, n)" by force
        have "validate_loop p i prev = Inr () \<longleftrightarrow> rx_valid True (drop (i + n) p)"
          unfolding validate_loop.simps [of p i prev] "1.IH"(2) [OF True na atom(1) Some an [symmetric], symmetric]
          by (simp only: True Some an atom(1) na if_True if_False option.case prod.case)
        also have "\<dots> \<longleftrightarrow> rx_compile (drop i p) \<noteq> None"
          using rx_valid_step [of "drop i p" a n] Some an atom(2) True by (simp add: add.commute)
        finally show ?thesis using atom(1) unfolding rx_valid_def d by simp
      qed
    qed
  next
    case False
    then show ?thesis by (simp add: validate_loop.simps [of p i] rx_valid_def rx_compile.simps)
  qed
qed

text \<open>A pattern is its leading anchor and the rest.\<close>

definition rx_split :: "string \<Rightarrow> bool \<times> string" where
  "rx_split p = (case strip_prefix p ''^'' of Some rest \<Rightarrow> (True, rest) | None \<Rightarrow> (False, p))"

lemma validate_pattern_iff: "validate_pattern p = Inr () \<longleftrightarrow> rx_compile (snd (rx_split p)) \<noteq> None"
proof -
  have "rx_valid False s \<longleftrightarrow> rx_compile s \<noteq> None" for s using quantifier_no_atom [of s] by (auto simp: rx_valid_def)
  then show ?thesis
    by (cases p) (auto simp: validate_pattern_def validate_loop_iff rx_split_def strip_prefix_def starts_with_def)
qed

text \<open>A text in which every character is escaped.\<close>

definition escaped :: "string \<Rightarrow> string" where
  "escaped w = concat (map (\<lambda>c. [CHR 0x5C, c]) w)"

lemma rx_compile_escaped: "rx_compile (escaped w) = Some (map (\<lambda>c. (Byte c, Once)) w, False)"
proof (induction w)
  case Nil
  show ?case by (simp add: escaped_def rx_compile.simps)
next
  case (Cons c w)
  have "\<not> (escaped w \<noteq> [] \<and> is_quantifier (hd (escaped w)))" by (cases w) (simp_all add: escaped_def is_quantifier_def)
  then show ?case using Cons by (auto simp: escaped_def rx_compile.simps [of "_ # _"] parse_atom_def numeral_2_eq_2 Let_def)
qed

lemma rx_lang_literal: "rx_lang (map (\<lambda>c. (Byte c, Once)) w) = {w}"
  by (induction w) auto

lemma is_match_meaning:
  assumes "rx_compile (snd (rx_split p)) = Some r"
  shows "is_match p t = Inr (\<exists>before u behind. t = before @ u @ behind \<and> u \<in> rx_lang (fst r)
    \<and> (fst (rx_split p) \<longrightarrow> before = []) \<and> (snd r \<longrightarrow> behind = []))"
proof -
  have v: "validate_pattern p = Inr ()" using validate_pattern_iff [of p] assms by simp
  show ?thesis
  proof (cases "strip_prefix p ''^''")
    case None
    then have "search p t 0 \<longleftrightarrow> (\<exists>k. k \<le> length t \<and> rx_here r (drop k t))"
      using assms by (simp add: search_iff rx_split_def match_here_iff)
    also have "\<dots> \<longleftrightarrow> (\<exists>before rest. t = before @ rest \<and> rx_here r rest)"
      by (metis append_eq_conv_conj append_take_drop_id le_add1 length_append)
    finally show ?thesis using None v unfolding rx_here_def by (auto simp: is_match_def rx_split_def)
  next
    case (Some rest)
    then show ?thesis using assms v by (auto simp: is_match_def rx_split_def match_here_iff rx_here_def)
  qed
qed

section \<open>Properties\<close>

text \<open>C4: the matcher computes the meaning of the pattern.  A pattern that does not compile is refused with an error; for every
  other pattern the answer is whether the text has a piece in the pattern's language, starting at the
  beginning of the text when the pattern starts with an anchor and reaching its end when it ends with one.\<close>

theorem is_match_equivalent:
  "case rx_compile (snd (rx_split p)) of
     None \<Rightarrow> isl (is_match p t)
   | Some r \<Rightarrow> is_match p t = Inr (\<exists>before u behind. t = before @ u @ behind \<and> u \<in> rx_lang (fst r)
       \<and> (fst (rx_split p) \<longrightarrow> before = []) \<and> (snd r \<longrightarrow> behind = []))"
proof (cases "rx_compile (snd (rx_split p))")
  case None
  then show ?thesis using validate_pattern_iff [of p]
    by (cases "validate_pattern p") (simp_all add: is_match_def)
qed (simp add: is_match_meaning)

theorem is_match_equivalent_witness:
  "is_match ''^a*b$'' ''aab'' = Inr True \<and> isl (is_match ''a**'' ''aa'')"
proof
  have "rx_compile ''a*b$'' = Some ([(Byte CHR ''a'', Star), (Byte CHR ''b'', Once)], True)" by code_simp
  moreover have "rx_split ''^a*b$'' = (True, ''a*b$'')" by code_simp
  moreover have "''aab'' \<in> rx_lang [(Byte CHR ''a'', Star), (Byte CHR ''b'', Once)]"
    by (auto intro!: exI [of _ "''aa''"])
  ultimately show "is_match ''^a*b$'' ''aab'' = Inr True"
    using is_match_equivalent [of "''^a*b$''" "''aab''"] by auto
  have "rx_compile (snd (rx_split ''a**'')) = None" by code_simp
  then show "isl (is_match ''a**'' ''aa'')" using is_match_equivalent [of "''a**''" "''aa''"] by simp
qed

text \<open>A text with every character escaped is a valid pattern, and it matches exactly the texts that contain it.\<close>

lemma escaped_text_is_substring_search: "is_match (escaped w) t = Inr (sublist w t)"
proof -
  have "strip_prefix (escaped w) ''^'' = None" by (cases w) (simp_all add: escaped_def strip_prefix_def starts_with_def)
  then have "rx_split (escaped w) = (False, escaped w)" by (simp add: rx_split_def)
  then show ?thesis using is_match_meaning [of "escaped w" "(map (\<lambda>c. (Byte c, Once)) w, False)" t]
    by (simp add: rx_compile_escaped rx_lang_literal sublist_def)
qed

end
