(* ===== verification/Shell_Parser.thy ===== *)
theory Shell_Parser
  imports Text
begin

text \<open>
  The command line parser of the shell, \<^verbatim>\<open>seed/saios/src/shell/parser.rs\<close>.  Each loop over the characters of a
  line is a recursive function on the characters still to read; the slice \<open>line[start..idx]\<close> of the source is the
  argument \<open>cur\<close>, the characters read since the last separator.  Shown is that a line printed from commands with
  quoted words parses back to these commands, for both line-splitting scanners through one locale.
\<close>

section \<open>Parsed lines\<close>

datatype RedirectKind = Read | Write | Append

record Redirection =
  rd_kind :: RedirectKind
  rd_path :: string

record ParsedCommand =
  pc_command :: string
  pc_args :: "string list"
  pc_redirections :: "Redirection list"

datatype ControlOperator = Sequential | AndAnd | OrOr | Background

record ParsedPipeline =
  pp_commands :: "ParsedCommand list"

record ParsedStatement =
  ps_pipelines :: "ParsedPipeline list"
  ps_operator :: ControlOperator

section \<open>Splitting a line\<close>

abbreviation SQ :: char where "SQ \<equiv> CHR 0x27"
abbreviation DQ :: char where "DQ \<equiv> CHR 0x22"

definition push_part :: "string \<Rightarrow> ControlOperator \<Rightarrow> (string \<times> ControlOperator) list \<Rightarrow> (string \<times> ControlOperator) list" where
  "push_part cur pending out = (let part = trim cur in if part \<noteq> [] then out @ [(part, pending)] else out)"

function statements_loop ::
  "string \<Rightarrow> string \<Rightarrow> bool \<Rightarrow> bool \<Rightarrow> ControlOperator \<Rightarrow> (string \<times> ControlOperator) list \<Rightarrow> (string \<times> ControlOperator) list" where
  "statements_loop [] cur in_single in_double pending out = push_part cur pending out"
| "statements_loop (ch # rest) cur in_single in_double pending out =
     (if ch = SQ \<and> \<not> in_double then statements_loop rest (cur @ [ch]) (\<not> in_single) in_double pending out
      else if ch = DQ \<and> \<not> in_single then statements_loop rest (cur @ [ch]) in_single (\<not> in_double) pending out
      else if ch = CHR ''&'' \<and> \<not> in_single \<and> \<not> in_double \<and> rest \<noteq> [] \<and> hd rest = CHR ''&''
      then statements_loop (tl rest) [] in_single in_double AndAnd (push_part cur pending out)
      else if ch = CHR ''&'' \<and> \<not> in_single \<and> \<not> in_double
      then statements_loop rest [] in_single in_double Background (push_part cur pending out)
      else if ch = CHR ''|'' \<and> \<not> in_single \<and> \<not> in_double \<and> rest \<noteq> [] \<and> hd rest = CHR ''|''
      then statements_loop (tl rest) [] in_single in_double OrOr (push_part cur pending out)
      else if ch = CHR '';'' \<and> \<not> in_single \<and> \<not> in_double
      then statements_loop rest [] in_single in_double Sequential (push_part cur pending out)
      else statements_loop rest (cur @ [ch]) in_single in_double pending out)"

  by pat_completeness simp_all
termination
  by (relation "measure (\<lambda>(rest, cur, s, d, pending, out). length rest)") simp_all

definition split_statements :: "string \<Rightarrow> (string \<times> ControlOperator) list" where
  "split_statements line = statements_loop line [] False False Sequential []"

definition push_stage :: "string \<Rightarrow> string list \<Rightarrow> string list" where
  "push_stage cur out = (let part = trim cur in if part \<noteq> [] then out @ [part] else out)"

fun pipeline_loop :: "string \<Rightarrow> string \<Rightarrow> bool \<Rightarrow> bool \<Rightarrow> string list \<Rightarrow> string list" where
  "pipeline_loop [] cur in_single in_double out = push_stage cur out"
| "pipeline_loop (ch # rest) cur in_single in_double out =
     (if ch = SQ \<and> \<not> in_double then pipeline_loop rest (cur @ [ch]) (\<not> in_single) in_double out
      else if ch = DQ \<and> \<not> in_single then pipeline_loop rest (cur @ [ch]) in_single (\<not> in_double) out
      else if ch = CHR ''|'' \<and> \<not> in_single \<and> \<not> in_double then pipeline_loop rest [] in_single in_double (push_stage cur out)
      else pipeline_loop rest (cur @ [ch]) in_single in_double out)"

definition split_pipeline :: "string \<Rightarrow> string list" where
  "split_pipeline statement = pipeline_loop statement [] False False []"

section \<open>Words and commands\<close>

definition flush :: "string \<Rightarrow> string list \<Rightarrow> string list" where
  "flush current out = (if current \<noteq> [] then out @ [current] else out)"

function tokenize_loop :: "string \<Rightarrow> string \<Rightarrow> bool \<Rightarrow> bool \<Rightarrow> string list \<Rightarrow> string list" where
  "tokenize_loop [] current in_single in_double out = flush current out"
| "tokenize_loop (ch # rest) current in_single in_double out =
     (if ch = SQ \<and> \<not> in_double then tokenize_loop rest current (\<not> in_single) in_double out
      else if ch = DQ \<and> \<not> in_single then tokenize_loop rest current in_single (\<not> in_double) out
      else if (ch = CHR '' '' \<or> ch = CHR 0x09) \<and> \<not> in_single \<and> \<not> in_double
      then tokenize_loop rest [] in_single in_double (flush current out)
      else if ch = CHR ''>'' \<and> \<not> in_single \<and> \<not> in_double
      then (if rest \<noteq> [] \<and> hd rest = CHR ''>''
            then tokenize_loop (tl rest) [] in_single in_double (flush current out @ [''>>''])
            else tokenize_loop rest [] in_single in_double (flush current out @ [''>'']))
      else if ch = CHR ''<'' \<and> \<not> in_single \<and> \<not> in_double
      then tokenize_loop rest [] in_single in_double (flush current out @ [''<''])
      else tokenize_loop rest (current @ [ch]) in_single in_double out)"

  by pat_completeness simp_all
termination
  by (relation "measure (\<lambda>(rest, cur, s, d, out). length rest)") simp_all

definition tokenize :: "string \<Rightarrow> string list" where
  "tokenize part = tokenize_loop part [] False False []"

definition redirect_kind :: "string \<Rightarrow> RedirectKind option" where
  "redirect_kind token =
     (if token = ''>'' then Some Write else if token = ''>>'' then Some Append else if token = ''<'' then Some Read else None)"

fun command_loop ::
  "string list \<Rightarrow> string option \<Rightarrow> string list \<Rightarrow> Redirection list \<Rightarrow> ParsedCommand option" where
  "command_loop [] command args redirections =
     (case command of
        None \<Rightarrow> None
      | Some c \<Rightarrow> Some \<lparr>pc_command = c, pc_args = args, pc_redirections = redirections\<rparr>)"
| "command_loop (token # rest) command args redirections =
     (case redirect_kind token of
        Some k \<Rightarrow>
          (case rest of
             [] \<Rightarrow> None
           | path # rest' \<Rightarrow> command_loop rest' command args (redirections @ [\<lparr>rd_kind = k, rd_path = path\<rparr>]))
      | None \<Rightarrow>
          if command = None then command_loop rest (Some token) args redirections
          else command_loop rest command (args @ [token]) redirections)"

definition parse_command :: "string \<Rightarrow> ParsedCommand option" where
  "parse_command part = (let tokens = tokenize part in if tokens = [] then None else command_loop tokens None [] [])"

definition parse_statement :: "string \<Rightarrow> ParsedPipeline list" where
  "parse_statement statement =
     (let commands = List.map_filter parse_command (split_pipeline statement)
      in if commands \<noteq> [] then [\<lparr>pp_commands = commands\<rparr>] else [])"

definition parse_line :: "string \<Rightarrow> ParsedStatement list" where
  "parse_line line =
     concat (map (\<lambda>(statement, operator).
       let pipelines = parse_statement statement
       in if pipelines \<noteq> [] then [\<lparr>ps_pipelines = pipelines, ps_operator = operator\<rparr>] else []) (split_statements line))"

section \<open>Printing\<close>

definition quote :: "string \<Rightarrow> string" where
  "quote w = SQ # w @ [SQ]"

definition redirect_text :: "RedirectKind \<Rightarrow> string" where
  "redirect_text k = (case k of Read \<Rightarrow> ''<'' | Write \<Rightarrow> ''>'' | Append \<Rightarrow> ''>>'')"

definition print_redirection :: "Redirection \<Rightarrow> string" where
  "print_redirection r = redirect_text (rd_kind r) @ quote (rd_path r)"

definition print_command :: "ParsedCommand \<Rightarrow> string" where
  "print_command c = quote (pc_command c) @ concat (map (\<lambda>a. CHR '' '' # quote a) (pc_args c))
     @ concat (map print_redirection (pc_redirections c))"

definition print_pipeline :: "ParsedCommand list \<Rightarrow> string" where
  "print_pipeline cs = print_command (hd cs) @ concat (map (\<lambda>c. CHR ''|'' # print_command c) (tl cs))"

definition operator_text :: "ControlOperator \<Rightarrow> string" where
  "operator_text oper = (case oper of Sequential \<Rightarrow> '';'' | AndAnd \<Rightarrow> ''&&'' | OrOr \<Rightarrow> ''||'' | Background \<Rightarrow> ''&'')"

definition print_line :: "ParsedStatement list \<Rightarrow> string" where
  "print_line ss =
     (let pipe = (\<lambda>s. print_pipeline (pp_commands (hd (ps_pipelines s))))
      in pipe (hd ss) @ concat (map (\<lambda>s. operator_text (ps_operator s) @ pipe s) (tl ss)))"

section \<open>Lines that can be printed\<close>

text \<open>A word is not empty and has no single quote; a word outside a redirection is not spelled like a redirection operator.\<close>

definition word_ok :: "string \<Rightarrow> bool" where
  "word_ok w \<longleftrightarrow> w \<noteq> [] \<and> SQ \<notin> set w"

definition command_ok :: "ParsedCommand \<Rightarrow> bool" where
  "command_ok c \<longleftrightarrow> (\<forall>w\<in>set (pc_command c # pc_args c). word_ok w \<and> redirect_kind w = None)
     \<and> (\<forall>r\<in>set (pc_redirections c). word_ok (rd_path r))"

definition statement_ok :: "ParsedStatement \<Rightarrow> bool" where
  "statement_ok s \<longleftrightarrow> (\<exists>cs. ps_pipelines s = [\<lparr>pp_commands = cs\<rparr>] \<and> cs \<noteq> [] \<and> (\<forall>c\<in>set cs. command_ok c))"

definition line_ok :: "ParsedStatement list \<Rightarrow> bool" where
  "line_ok ss \<longleftrightarrow> ss \<noteq> [] \<and> ps_operator (hd ss) = Sequential \<and> (\<forall>s\<in>set ss. statement_ok s)"

section \<open>Scanning quoted text\<close>

text \<open>What the two line-splitting scanners share: quotes switch quoting on and off, quoted characters are copied, and so are
  unquoted ones that have no meaning of their own.\<close>

locale quote_scanner =
  fixes scan :: "string \<Rightarrow> string \<Rightarrow> bool \<Rightarrow> bool \<Rightarrow> 'r"
  assumes toggle: "scan (SQ # rest) cur s False = scan rest (cur @ [SQ]) (\<not> s) False"
    and copy_quoted: "SQ \<noteq> c \<Longrightarrow> scan (c # rest) cur True False = scan rest (cur @ [c]) True False"
    and copy_plain: "c \<in> {CHR '' '', CHR ''<'', CHR ''>''} \<Longrightarrow> scan (c # rest) cur False False = scan rest (cur @ [c]) False False"
begin

lemma quoted_body: "SQ \<notin> set w \<Longrightarrow> scan (w @ rest) cur True False = scan rest (cur @ w) True False"
  by (induction w arbitrary: cur) (simp_all add: copy_quoted)

lemma quoted_word: "word_ok w \<Longrightarrow> scan (quote w @ rest) cur False False = scan rest (cur @ quote w) False False"
  by (simp add: quote_def toggle quoted_body word_ok_def)

lemma plain_text:
  "set v \<subseteq> {CHR '' '', CHR ''<'', CHR ''>''} \<Longrightarrow> scan (v @ rest) cur False False = scan rest (cur @ v) False False"
  by (induction v arbitrary: cur) (simp_all add: copy_plain)

lemma quoted_args:
  "\<forall>a\<in>set args. word_ok a \<Longrightarrow> scan (concat (map (\<lambda>a. CHR '' '' # quote a) args) @ rest) cur False False
     = scan rest (cur @ concat (map (\<lambda>a. CHR '' '' # quote a) args)) False False"
  by (induction args arbitrary: cur) (simp_all add: copy_plain quoted_word)

lemma quoted_redirections:
  "\<forall>r\<in>set rs. word_ok (rd_path r) \<Longrightarrow> scan (concat (map print_redirection rs) @ rest) cur False False
     = scan rest (cur @ concat (map print_redirection rs)) False False"
proof (induction rs arbitrary: cur)
  case (Cons r rs)
  have "set (redirect_text (rd_kind r)) \<subseteq> {CHR '' '', CHR ''<'', CHR ''>''}"
    by (simp add: redirect_text_def split: RedirectKind.split)
  with Cons show ?case by (simp add: print_redirection_def plain_text quoted_word)
qed simp

lemma printed_command:
  "command_ok c \<Longrightarrow> scan (print_command c @ rest) cur False False = scan rest (cur @ print_command c) False False"
  by (simp add: print_command_def command_ok_def quoted_word quoted_args quoted_redirections)

end

interpretation statements: quote_scanner "\<lambda>rest cur s d. statements_loop rest cur s d pending out" for pending out
  by unfold_locales auto

interpretation stages: quote_scanner "\<lambda>rest cur s d. pipeline_loop rest cur s d out" for out
  by unfold_locales auto

section \<open>Splitting printed lines\<close>

definition delimited :: "string \<Rightarrow> bool" where
  "delimited v \<longleftrightarrow> v \<noteq> [] \<and> hd v = SQ \<and> last v = SQ"

lemma trim_delimited: "delimited v \<Longrightarrow> trim v = v"
proof -
  assume v: "delimited v"
  have "dropWhile is_whitespace v = v" using v by (cases v) (auto simp: delimited_def is_whitespace_def)
  moreover have "dropWhile is_whitespace (rev v) = rev v"
    using v by (cases v rule: rev_cases) (auto simp: delimited_def is_whitespace_def)
  ultimately show ?thesis by (simp add: trim_def trim_start_def trim_end_def)
qed

lemma delimited_append: "delimited u \<Longrightarrow> v = [] \<or> last v = SQ \<Longrightarrow> delimited (u @ v)"
  by (auto simp: delimited_def last_append)

lemma last_concat: "xs \<noteq> [] \<Longrightarrow> f (last xs) \<noteq> [] \<Longrightarrow> last (concat (map f xs)) = last (f (last xs))"
  by (cases xs rule: rev_cases) auto

lemma quote_delimited [simp]: "delimited (quote w)" "last (v @ quote w) = SQ" "quote w \<noteq> []"
  by (simp_all add: delimited_def quote_def)

lemma print_command_delimited: "delimited (print_command c)"
proof -
  have "last (concat (map (\<lambda>a. CHR '' '' # quote a) xs)) = SQ" if "xs \<noteq> []" for xs
    using that by (simp add: last_concat quote_def)
  moreover have "last (concat (map print_redirection rs)) = SQ" if "rs \<noteq> []" for rs
    using that by (simp add: last_concat print_redirection_def)
  ultimately show ?thesis unfolding print_command_def
    by (intro delimited_append quote_delimited) (auto simp: last_append print_redirection_def)
qed

lemma print_pipeline_delimited: "delimited (print_pipeline cs)"
proof -
  have "last (concat (map (\<lambda>c. CHR ''|'' # print_command c) xs)) = SQ" if "xs \<noteq> []" for xs
    using that print_command_delimited by (simp add: last_concat delimited_def)
  then show ?thesis unfolding print_pipeline_def
    by (intro delimited_append print_command_delimited) auto
qed

lemma delimited_Cons: "delimited v \<Longrightarrow> \<exists>w. v = SQ # w"
  by (cases v) (auto simp: delimited_def)

lemma statements_pipe:
  assumes "\<forall>c\<in>set cs. command_ok c"
  shows "statements_loop (concat (map (\<lambda>c. CHR ''|'' # print_command c) cs) @ rest) cur False False p out
    = statements_loop rest (cur @ concat (map (\<lambda>c. CHR ''|'' # print_command c) cs)) False False p out"
  using assms
proof (induction cs arbitrary: cur)
  case (Cons c cs)
  obtain w where w: "print_command c = SQ # w" using delimited_Cons [OF print_command_delimited] by blast
  have "statements_loop (CHR ''|'' # print_command c @ x) cur False False p out
      = statements_loop (print_command c @ x) (cur @ ''|'') False False p out" for x
    by (simp add: w)
  with Cons show ?case by (simp add: statements.printed_command del: statements_loop.simps)
qed simp

lemma statements_pipeline:
  "cs \<noteq> [] \<Longrightarrow> \<forall>c\<in>set cs. command_ok c \<Longrightarrow>
    statements_loop (print_pipeline cs @ rest) cur False False p out = statements_loop rest (cur @ print_pipeline cs) False False p out"
  by (cases cs) (simp_all add: print_pipeline_def statements.printed_command statements_pipe)

abbreviation pipe_text :: "ParsedStatement \<Rightarrow> string" where
  "pipe_text s \<equiv> print_pipeline (pp_commands (hd (ps_pipelines s)))"

lemma statements_operator:
  assumes "delimited v"
  shows "statements_loop (operator_text oper @ v @ rest) cur False False p out
    = statements_loop (v @ rest) [] False False oper (push_part cur p out)"
proof -
  obtain w where "v = SQ # w" using delimited_Cons [OF assms] by blast
  then show ?thesis by (cases oper) (simp_all add: operator_text_def)
qed

lemma statements_tail:
  assumes "\<forall>s\<in>set ss. statement_ok s" "delimited cur"
  shows "statements_loop (concat (map (\<lambda>s. operator_text (ps_operator s) @ pipe_text s) ss)) cur False False p out
    = out @ (cur, p) # map (\<lambda>s. (pipe_text s, ps_operator s)) ss"
  using assms
proof (induction ss arbitrary: cur p out)
  case Nil
  then show ?case by (simp add: push_part_def trim_delimited) (simp add: delimited_def)
next
  case (Cons s ss)
  have push: "push_part cur p out = out @ [(cur, p)]"
    using Cons.prems(2) by (simp add: push_part_def trim_delimited) (simp add: delimited_def)
  obtain cs where cs: "ps_pipelines s = [\<lparr>pp_commands = cs\<rparr>]" "cs \<noteq> []" "\<forall>c\<in>set cs. command_ok c"
    using Cons.prems(1) by (auto simp: statement_ok_def)
  have "statements_loop (concat (map (\<lambda>s. operator_text (ps_operator s) @ pipe_text s) (s # ss))) cur False False p out
      = statements_loop (concat (map (\<lambda>s. operator_text (ps_operator s) @ pipe_text s) ss)) (print_pipeline cs) False False
          (ps_operator s) (out @ [(cur, p)])"
    using cs by (simp add: statements_operator [OF print_pipeline_delimited] push statements_pipeline)
  also have "\<dots> = out @ [(cur, p)] @ (print_pipeline cs, ps_operator s) # map (\<lambda>s. (pipe_text s, ps_operator s)) ss"
    using Cons.IH [of "print_pipeline cs"] Cons.prems(1) print_pipeline_delimited by simp
  finally show ?case using cs(1) by simp
qed

lemma split_statements_print:
  assumes "line_ok ss"
  shows "split_statements (print_line ss) = map (\<lambda>s. (pipe_text s, ps_operator s)) ss"
proof -
  obtain s rest where ss: "ss = s # rest" "ps_operator s = Sequential" "statement_ok s" "\<forall>s\<in>set rest. statement_ok s"
    using assms by (cases ss) (auto simp: line_ok_def)
  obtain cs where "ps_pipelines s = [\<lparr>pp_commands = cs\<rparr>]" "cs \<noteq> []" "\<forall>c\<in>set cs. command_ok c"
    using ss(3) by (auto simp: statement_ok_def)
  then show ?thesis using ss statements_tail [OF ss(4) print_pipeline_delimited]
    by (simp add: split_statements_def print_line_def Let_def statements_pipeline)
qed

lemma stages_tail:
  assumes "\<forall>c\<in>set cs. command_ok c" "delimited cur"
  shows "pipeline_loop (concat (map (\<lambda>c. CHR ''|'' # print_command c) cs)) cur False False out = out @ cur # map print_command cs"
  using assms
proof (induction cs arbitrary: cur out)
  case Nil
  then show ?case by (simp add: push_stage_def trim_delimited) (simp add: delimited_def)
next
  case (Cons c cs)
  have "push_stage cur out = out @ [cur]"
    using Cons.prems(2) by (simp add: push_stage_def trim_delimited) (simp add: delimited_def)
  then show ?case using Cons print_command_delimited [of c] by (simp add: stages.printed_command)
qed

lemma split_pipeline_print:
  "cs \<noteq> [] \<Longrightarrow> \<forall>c\<in>set cs. command_ok c \<Longrightarrow> split_pipeline (print_pipeline cs) = map print_command cs"
  by (cases cs) (simp_all add: split_pipeline_def print_pipeline_def stages.printed_command stages_tail print_command_delimited)

section \<open>Words of printed commands\<close>

lemma tokenize_body: "SQ \<notin> set w \<Longrightarrow> tokenize_loop (w @ rest) cur True False out = tokenize_loop rest (cur @ w) True False out"
  by (induction w arbitrary: cur) auto

lemma tokenize_quote: "word_ok w \<Longrightarrow> tokenize_loop (quote w @ rest) cur False False out = tokenize_loop rest (cur @ w) False False out"
  by (simp add: quote_def word_ok_def tokenize_body)

lemma tokenize_args:
  assumes "\<forall>a\<in>set args. word_ok a" "cur \<noteq> []"
  shows "tokenize_loop (concat (map (\<lambda>a. CHR '' '' # quote a) args) @ rest) cur False False out
    = tokenize_loop rest (last (cur # args)) False False (out @ butlast (cur # args))"
  using assms
proof (induction args arbitrary: cur out)
  case (Cons a args)
  then have "a \<noteq> []" by (simp add: word_ok_def)
  with Cons show ?case by (simp add: tokenize_quote flush_def)
qed simp

lemma tokenize_redirections:
  assumes "\<forall>r\<in>set rs. word_ok (rd_path r)" "cur \<noteq> []"
  shows "tokenize_loop (concat (map print_redirection rs)) cur False False out
    = out @ cur # concat (map (\<lambda>r. [redirect_text (rd_kind r), rd_path r]) rs)"
  using assms
proof (induction rs arbitrary: cur out)
  case Nil
  then show ?case by (simp add: flush_def)
next
  case (Cons r rs)
  have p: "word_ok (rd_path r)" "rd_path r \<noteq> []" using Cons.prems(1) by (simp_all add: word_ok_def)
  have "tokenize_loop (redirect_text (rd_kind r) @ quote (rd_path r) @ x) cur False False out
      = tokenize_loop (quote (rd_path r) @ x) [] False False (out @ [cur, redirect_text (rd_kind r)])" for x
    using Cons.prems(2) by (cases "rd_kind r") (simp_all add: redirect_text_def quote_def flush_def)
  then show ?case using Cons p by (simp add: print_redirection_def tokenize_quote del: tokenize_loop.simps)
qed

lemma butlast_last_append: "xs \<noteq> [] \<Longrightarrow> butlast xs @ last xs # ys = xs @ ys"
  by (cases xs rule: rev_cases) simp_all

lemma tokenize_print:
  assumes "command_ok c"
  shows "tokenize (print_command c)
    = pc_command c # pc_args c @ concat (map (\<lambda>r. [redirect_text (rd_kind r), rd_path r]) (pc_redirections c))"
proof -
  have w: "\<forall>a\<in>set (pc_args c). word_ok a" "word_ok (pc_command c)" "\<forall>r\<in>set (pc_redirections c). word_ok (rd_path r)"
    using assms by (auto simp: command_ok_def)
  have "last (pc_command c # pc_args c) \<in> set (pc_command c # pc_args c)" by (rule last_in_set) simp
  then have l: "last (pc_command c # pc_args c) \<noteq> []" using w(1,2) by (auto simp: word_ok_def)
  have "tokenize (print_command c)
      = butlast (pc_command c # pc_args c) @ last (pc_command c # pc_args c)
          # concat (map (\<lambda>r. [redirect_text (rd_kind r), rd_path r]) (pc_redirections c))"
    using w(2) by (simp add: tokenize_def print_command_def tokenize_quote tokenize_args [OF w(1)] word_ok_def
        tokenize_redirections [OF w(3)] l del: last.simps butlast.simps)
  also have "\<dots> = (pc_command c # pc_args c) @ concat (map (\<lambda>r. [redirect_text (rd_kind r), rd_path r]) (pc_redirections c))"
    by (rule butlast_last_append) simp
  finally show ?thesis by simp
qed

lemma redirect_kind_text [simp]: "redirect_kind (redirect_text k) = Some k"
  by (cases k) (simp_all add: redirect_kind_def redirect_text_def)

lemma command_loop_redirections:
  "command_loop (concat (map (\<lambda>r. [redirect_text (rd_kind r), rd_path r]) rs)) (Some c) args ds
    = Some \<lparr>pc_command = c, pc_args = args, pc_redirections = ds @ rs\<rparr>"
  by (induction rs arbitrary: ds) simp_all

lemma command_loop_args:
  "\<forall>a\<in>set as. redirect_kind a = None \<Longrightarrow> command_loop (as @ rest) (Some c) args ds = command_loop rest (Some c) (args @ as) ds"
  by (induction as arbitrary: args) simp_all

lemma parse_command_print: "command_ok c \<Longrightarrow> parse_command (print_command c) = Some c"
  by (simp add: parse_command_def tokenize_print command_ok_def command_loop_args command_loop_redirections)

lemma parse_statement_print:
  assumes "statement_ok s"
  shows "parse_statement (pipe_text s) = ps_pipelines s"
proof -
  obtain cs where cs: "ps_pipelines s = [\<lparr>pp_commands = cs\<rparr>]" "cs \<noteq> []" "\<forall>c\<in>set cs. command_ok c"
    using assms by (auto simp: statement_ok_def)
  have "List.map_filter parse_command (map print_command cs) = cs" using cs(3)
    by (induction cs) (simp_all add: List.map_filter_def parse_command_print)
  then show ?thesis using cs by (simp add: parse_statement_def split_pipeline_print)
qed

section \<open>Properties\<close>

lemma parse_line_statements:
  assumes "line_ok ss"
  shows "parse_line (print_line ss) = ss"
proof -
  have "parse_line (print_line ss) = concat (map (\<lambda>s. [s]) ss)"
    unfolding parse_line_def split_statements_print [OF assms] map_map
  proof (intro arg_cong [where f = concat] map_cong refl)
    fix s assume "s \<in> set ss"
    then have "statement_ok s" using assms by (simp add: line_ok_def)
    moreover from this have "ps_pipelines s \<noteq> []" by (auto simp: statement_ok_def)
    ultimately show "((\<lambda>(statement, operator).
         let pipelines = parse_statement statement
         in if pipelines \<noteq> [] then [\<lparr>ps_pipelines = pipelines, ps_operator = operator\<rparr>] else [])
         \<circ> (\<lambda>s. (pipe_text s, ps_operator s))) s = [s]"
      by (simp add: parse_statement_print)
  qed
  then show ?thesis by simp
qed

text \<open>C9: printing and parsing.  Take pipelines of commands with operators between them, every word quoted; the words are not empty,
  have no single quote and, outside redirections, are not spelled like a redirection operator, because the parser strips the quotes
  before it looks for redirections.  The printed line parses to one statement for each pipeline, with its commands, arguments and
  redirections.  The first statement has the operator of a sequence and each other one the operator in front of it.\<close>

theorem parse_line_print:
  assumes "\<And>ds c w. ds \<in> set (cs # map snd rest) \<Longrightarrow> c \<in> set ds \<Longrightarrow> w \<in> set (pc_command c # pc_args c) \<Longrightarrow>
      w \<noteq> [] \<and> SQ \<notin> set w \<and> w \<notin> {''<'', ''>'', ''>>''}"
    and "\<And>ds c r. ds \<in> set (cs # map snd rest) \<Longrightarrow> c \<in> set ds \<Longrightarrow> r \<in> set (pc_redirections c) \<Longrightarrow>
      rd_path r \<noteq> [] \<and> SQ \<notin> set (rd_path r)"
    and "[] \<notin> set (cs # map snd rest)"
  shows "parse_line (print_pipeline cs @ concat (map (\<lambda>(oper, ds). operator_text oper @ print_pipeline ds) rest)) =
    \<lparr>ps_pipelines = [\<lparr>pp_commands = cs\<rparr>], ps_operator = Sequential\<rparr>
    # map (\<lambda>(oper, ds). \<lparr>ps_pipelines = [\<lparr>pp_commands = ds\<rparr>], ps_operator = oper\<rparr>) rest"
proof -
  let ?s = "\<lambda>(oper, ds). \<lparr>ps_pipelines = [\<lparr>pp_commands = ds\<rparr>], ps_operator = oper\<rparr>"
  have "statement_ok (?s (oper, ds))" if ds: "ds \<in> set (cs # map snd rest)" for oper ds
  proof -
    have "ds \<noteq> []" using assms(3) ds by metis
    moreover have "command_ok c" if c: "c \<in> set ds" for c
      unfolding command_ok_def
    proof (intro conjI ballI)
      fix w assume "w \<in> set (pc_command c # pc_args c)"
      from assms(1) [OF ds c this] have w: "w \<noteq> []" "SQ \<notin> set w" "w \<noteq> ''<''" "w \<noteq> ''>''" "w \<noteq> ''>>''" by simp_all
      show "word_ok w" using w(1,2) by (simp only: word_ok_def not_False_eq_True simp_thms)
      show "redirect_kind w = None" using w(3-5) by (simp only: redirect_kind_def if_False)
    next
      fix r assume "r \<in> set (pc_redirections c)"
      from assms(2) [OF ds c this] show "word_ok (rd_path r)" unfolding word_ok_def .
    qed
    ultimately show ?thesis by (simp add: statement_ok_def)
  qed
  then have ok: "statement_ok (?s p)" if "snd p \<in> set (cs # map snd rest)" for p using that by (cases p) simp
  have "statement_ok x" if "x \<in> set (?s (Sequential, cs) # map ?s rest)" for x
  proof -
    obtain p where p: "x = ?s p" "p = (Sequential, cs) \<or> p \<in> set rest" using \<open>x \<in> _\<close> by auto
    have "snd p \<in> set (cs # map snd rest)" using p(2) by auto
    from ok [OF this] show ?thesis unfolding p(1) .
  qed
  then have "line_ok (?s (Sequential, cs) # map ?s rest)" by (simp add: line_ok_def)
  from parse_line_statements [OF this] show ?thesis by (simp add: print_line_def Let_def case_prod_unfold comp_def)
qed

definition demo_command :: "string \<Rightarrow> string list \<Rightarrow> ParsedCommand" where
  "demo_command name args = \<lparr>pc_command = name, pc_args = args, pc_redirections = [\<lparr>rd_kind = Append, rd_path = ''out''\<rparr>]\<rparr>"

theorem parse_line_print_witness:
  "map ps_operator (parse_line (print_pipeline [demo_command ''cat'' [''a & b'', ''x|y''], demo_command ''grep'' [''h'']]
     @ ''&&'' @ print_pipeline [demo_command ''echo'' [''ok'']])) = [Sequential, AndAnd]"
proof -
  have "parse_line (print_pipeline [demo_command ''cat'' [''a & b'', ''x|y''], demo_command ''grep'' [''h'']]
      @ concat (map (\<lambda>(oper, ds). operator_text oper @ print_pipeline ds) [(AndAnd, [demo_command ''echo'' [''ok'']])]))
    = \<lparr>ps_pipelines = [\<lparr>pp_commands = [demo_command ''cat'' [''a & b'', ''x|y''], demo_command ''grep'' [''h'']]\<rparr>], ps_operator = Sequential\<rparr>
      # map (\<lambda>(oper, ds). \<lparr>ps_pipelines = [\<lparr>pp_commands = ds\<rparr>], ps_operator = oper\<rparr>) [(AndAnd, [demo_command ''echo'' [''ok'']])]"
    by (rule parse_line_print) (auto simp: demo_command_def)
  then show ?thesis by (simp add: operator_text_def)
qed

text \<open>The operator of a statement is the one in front of it, so the first of two statements is never the background one.\<close>

lemma operator_is_in_front:
  "map ps_operator (parse_line ''echo first & echo second || echo third'') = [Sequential, Background, OrOr]"
  by code_simp

text \<open>Quotes are stripped before redirections are recognised, so a quoted operator still redirects.\<close>

lemma quoted_operator_redirects:
  "parse_command (''echo '' @ quote ''>'' @ '' file'')
    = Some \<lparr>pc_command = ''echo'', pc_args = [], pc_redirections = [\<lparr>rd_kind = Write, rd_path = ''file''\<rparr>]\<rparr>"
  by code_simp

end
