(* ===== verification/Shell_Dispatch.thy ===== *)
theory Shell_Dispatch
  imports Shell_Parser
begin

text \<open>
  The session, the command registry and the dispatcher of the shell (\<^verbatim>\<open>session.rs\<close>, \<^verbatim>\<open>registry.rs\<close> and \<^verbatim>\<open>dispatcher.rs\<close>
  under \<^verbatim>\<open>seed/saios/src/shell\<close>).  The rest of the system, files, processes and the console, is the state \<open>'w\<close> with the
  operations of \<open>shell_sys\<close>; a built-in command is a function on the context and that state.  Scripts run the
  dispatcher again and a script may run itself, so the dispatcher takes a bound on the nesting of scripts; \<open>None\<close> is a
  deeper nesting.  Shown are which statements of a line run and that the standard input variable is restored.
\<close>

section \<open>Session\<close>

record CommandContext =
  cx_running :: bool
  cx_cwd :: string
  cx_namespace :: string
  environment :: "(string \<times> string) list"
  aliases :: "(string \<times> string) list"
  last_exit_code :: int
  history :: "string list"
  current_user :: "string option"
  command_catalog :: "(string \<times> string) list"

definition context_new :: "string \<Rightarrow> CommandContext" where
  "context_new cwd = \<lparr>cx_running = True, cx_cwd = cwd, cx_namespace = cwd, environment = [], aliases = [], last_exit_code = 0,
     history = [], current_user = None, command_catalog = []\<rparr>"

definition push_history :: "string \<Rightarrow> CommandContext \<Rightarrow> CommandContext" where
  "push_history line ctx =
     (let h = (if line \<noteq> [] then history ctx @ [line] else history ctx)
      in ctx\<lparr>history := if 128 < length h then drop (length h - 128) h else h\<rparr>)"

definition sync_namespace :: "string \<Rightarrow> CommandContext \<Rightarrow> CommandContext" where
  "sync_namespace cwd ctx = ctx\<lparr>cx_cwd := cwd, cx_namespace := cwd\<rparr>"

definition pairs_get :: "string \<Rightarrow> (string \<times> string) list \<Rightarrow> string option" where
  "pairs_get key ps = map_option snd (find (\<lambda>(k, _). k = key) ps)"

fun pairs_set :: "string \<Rightarrow> string \<Rightarrow> (string \<times> string) list \<Rightarrow> (string \<times> string) list" where
  "pairs_set key v [] = [(key, v)]"
| "pairs_set key v ((k, x) # ps) = (if k = key then (k, v) # ps else (k, x) # pairs_set key v ps)"

definition pairs_unset :: "string \<Rightarrow> (string \<times> string) list \<Rightarrow> (string \<times> string) list" where
  "pairs_unset key ps = filter (\<lambda>(k, _). k \<noteq> key) ps"

definition env_get :: "CommandContext \<Rightarrow> string \<Rightarrow> string option" where
  "env_get ctx key = pairs_get key (environment ctx)"

definition env_set :: "string \<Rightarrow> string \<Rightarrow> CommandContext \<Rightarrow> CommandContext" where
  "env_set key v ctx = ctx\<lparr>environment := pairs_set key v (environment ctx)\<rparr>"

definition env_unset :: "string \<Rightarrow> CommandContext \<Rightarrow> CommandContext" where
  "env_unset key ctx = ctx\<lparr>environment := pairs_unset key (environment ctx)\<rparr>"

definition alias_get :: "CommandContext \<Rightarrow> string \<Rightarrow> string option" where
  "alias_get ctx key = pairs_get key (aliases ctx)"

definition alias_set :: "string \<Rightarrow> string \<Rightarrow> CommandContext \<Rightarrow> CommandContext" where
  "alias_set key v ctx = ctx\<lparr>aliases := pairs_set key v (aliases ctx)\<rparr>"

definition alias_unset :: "string \<Rightarrow> CommandContext \<Rightarrow> CommandContext" where
  "alias_unset key ctx = ctx\<lparr>aliases := pairs_unset key (aliases ctx)\<rparr>"

section \<open>Registry\<close>

type_synonym 'w command = "CommandContext \<Rightarrow> string list \<Rightarrow> 'w \<Rightarrow> unit res \<times> CommandContext \<times> 'w"

record 'w Command =
  cmd_name :: string
  cmd_description :: string
  cmd_execute :: "'w command"

definition registry_register :: "'w Command \<Rightarrow> 'w Command list \<Rightarrow> 'w Command list" where
  "registry_register command commands =
     (if \<exists>c\<in>set commands. eq_ignore_ascii_case (cmd_name c) (cmd_name command) then commands else commands @ [command])"

definition registry_find :: "'w Command list \<Rightarrow> string \<Rightarrow> 'w Command option" where
  "registry_find commands name = find (\<lambda>c. eq_ignore_ascii_case (cmd_name c) name) commands"

section \<open>The rest of the system\<close>

record 'w shell_sys =
  sys_exec :: "string \<Rightarrow> string list \<Rightarrow> (string \<times> string) list \<Rightarrow> 'w \<Rightarrow> int res \<times> 'w"
  sys_begin_capture :: "bool \<Rightarrow> 'w \<Rightarrow> 'w"
  sys_end_capture :: "'w \<Rightarrow> string \<times> 'w"
  sys_println :: "string \<Rightarrow> 'w \<Rightarrow> 'w"
  sys_read_text :: "string \<Rightarrow> 'w \<Rightarrow> string option \<times> 'w"
  sys_remove :: "string \<Rightarrow> 'w \<Rightarrow> 'w"
  sys_touch :: "string \<Rightarrow> 'w \<Rightarrow> 'w"
  sys_open :: "string \<Rightarrow> 'w \<Rightarrow> bool \<times> 'w"
  sys_write :: "string \<Rightarrow> string \<Rightarrow> 'w \<Rightarrow> bool \<times> 'w"
  sys_pwd :: "'w \<Rightarrow> string"

section \<open>Expansion\<close>

definition is_key_char :: "char \<Rightarrow> bool" where
  "is_key_char c \<longleftrightarrow> to_ascii_lowercase c \<in> set ''abcdefghijklmnopqrstuvwxyz0123456789'' \<or> c = CHR ''_''"

text \<open>The name of a variable after the dollar sign, and what follows it.\<close>

definition var_key :: "string \<Rightarrow> string \<times> string" where
  "var_key cs =
     (if cs \<noteq> [] \<and> hd cs = CHR ''{''
      then (takeWhile (\<lambda>c. c \<noteq> CHR ''}'') (tl cs), drop 1 (dropWhile (\<lambda>c. c \<noteq> CHR ''}'') (tl cs)))
      else (takeWhile is_key_char cs, dropWhile is_key_char cs))"

lemma var_key_length: "var_key cs = (key, rest) \<Longrightarrow> key \<noteq> [] \<Longrightarrow> length rest < length cs"
proof (cases "cs \<noteq> [] \<and> hd cs = CHR ''{''")
  case True
  assume "var_key cs = (key, rest)"
  then have "length rest \<le> length (tl cs)"
    using True length_dropWhile_le [of "\<lambda>c. c \<noteq> CHR ''}''" "tl cs"] by (auto simp: var_key_def)
  then show ?thesis using True by (cases cs) auto
next
  case False
  assume "var_key cs = (key, rest)" "key \<noteq> []"
  then show ?thesis using False
    by (cases cs) (auto simp: var_key_def split: if_splits intro: le_imp_less_Suc length_dropWhile_le)
qed

function expand_vars :: "CommandContext \<Rightarrow> string \<Rightarrow> string" where
  "expand_vars ctx [] = []"
| "expand_vars ctx (c # cs) =
     (if c \<noteq> CHR ''$'' then c # expand_vars ctx cs
      else if cs = [] then ''$''
      else if hd cs = CHR ''?'' then int_string (last_exit_code ctx) @ expand_vars ctx (tl cs)
      else
        case var_key cs of
          (key, rest) \<Rightarrow>
            if key = [] then CHR ''$'' # expand_vars ctx cs
            else (case env_get ctx key of Some v \<Rightarrow> v | None \<Rightarrow> []) @ expand_vars ctx rest)"
  by pat_completeness auto
termination
  by (relation "measure (\<lambda>(ctx, s). length s)") (auto dest!: var_key_length [OF sym])

fun alias_loop :: "nat \<Rightarrow> CommandContext \<Rightarrow> string \<Rightarrow> string list \<Rightarrow> string \<times> string list" where
  "alias_loop 0 ctx name alias_args = (name, alias_args)"
| "alias_loop (Suc n) ctx name alias_args =
     (case alias_get ctx name of
        None \<Rightarrow> (name, alias_args)
      | Some al \<Rightarrow>
          (case split_whitespace al of
             [] \<Rightarrow> (name, alias_args)
           | token # tokens \<Rightarrow> alias_loop n ctx token (alias_args @ tokens)))"

definition expand_alias_and_env :: "CommandContext \<Rightarrow> ParsedCommand \<Rightarrow> ParsedCommand" where
  "expand_alias_and_env ctx cmd =
     (case alias_loop 8 ctx (pc_command cmd) [] of
        (name, alias_args) \<Rightarrow>
          cmd\<lparr>pc_command := expand_vars ctx name,
              pc_args := map (expand_vars ctx) (alias_args @ pc_args cmd),
              pc_redirections := map (\<lambda>r. r\<lparr>rd_path := expand_vars ctx (rd_path r)\<rparr>) (pc_redirections cmd)\<rparr>)"

section \<open>One command\<close>

definition restore_stdin :: "string option \<Rightarrow> CommandContext \<Rightarrow> CommandContext" where
  "restore_stdin previous ctx = (case previous of Some v \<Rightarrow> env_set ''SISH_STDIN'' v ctx | None \<Rightarrow> env_unset ''SISH_STDIN'' ctx)"

definition run_external ::
  "'w shell_sys \<Rightarrow> ParsedCommand \<Rightarrow> bool \<Rightarrow> CommandContext \<Rightarrow> 'w \<Rightarrow> int \<times> CommandContext \<times> 'w" where
  "run_external S cmd suppress ctx w =
     (case sys_exec S (pc_command cmd) (pc_args cmd) (environment ctx) w of
        (Inr code, w1) \<Rightarrow>
          (code, ctx\<lparr>last_exit_code := code\<rparr>,
           if code \<noteq> 0 \<and> \<not> suppress then sys_println S (''exit '' @ int_string code) w1 else w1)
      | (Inl _, w1) \<Rightarrow>
          (127, ctx, if \<not> suppress then sys_println S (''Unknown command: '' @ pc_command cmd) w1 else w1))"

definition execute_command ::
  "'w shell_sys \<Rightarrow> 'w Command list \<Rightarrow> ParsedCommand \<Rightarrow> string option \<Rightarrow> bool \<Rightarrow> CommandContext \<Rightarrow> 'w
     \<Rightarrow> (int \<times> string) res \<times> CommandContext \<times> 'w" where
  "execute_command S registry cmd stdin_data suppress ctx w =
     (let previous_stdin = env_get ctx ''SISH_STDIN'';
          ctx1 = (case stdin_data of Some input \<Rightarrow> env_set ''SISH_STDIN'' input ctx | None \<Rightarrow> env_unset ''SISH_STDIN'' ctx);
          w1 = sys_begin_capture S suppress w
      in case (case registry_find registry (pc_command cmd) of
                 Some command \<Rightarrow>
                   (case cmd_execute command ctx1 (pc_args cmd) w1 of
                      (Inl e, ctx2, w2) \<Rightarrow> (Inl e, 1, ctx2, w2)
                    | (Inr _, ctx2, w2) \<Rightarrow> (Inr (), 0, ctx2, w2))
               | None \<Rightarrow> (case run_external S cmd suppress ctx1 w1 of (code, ctx2, w2) \<Rightarrow> (Inr (), code, ctx2, w2))) of
           (result, code, ctx2, w2) \<Rightarrow>
             (case sys_end_capture S w2 of
                (captured, w3) \<Rightarrow>
                  let ctx3 = restore_stdin previous_stdin ctx2
                  in case result of
                       Inl e \<Rightarrow> (Inl e, ctx3, w3)
                     | Inr _ \<Rightarrow> (Inr (code, captured), ctx3\<lparr>last_exit_code := code\<rparr>, w3)))"

definition resolve_shell_path :: "'w shell_sys \<Rightarrow> string \<Rightarrow> 'w \<Rightarrow> string" where
  "resolve_shell_path S path w =
     (if starts_with path ''/'' then path
      else let cwd = sys_pwd S w in if cwd = ''/'' then CHR ''/'' # path else cwd @ ''/'' @ path)"

definition write_redirect :: "'w shell_sys \<Rightarrow> string \<Rightarrow> string \<Rightarrow> bool \<Rightarrow> 'w \<Rightarrow> unit res \<times> 'w" where
  "write_redirect S path0 data app w =
     (let path = resolve_shell_path S path0 w
      in case (if app
               then (case sys_read_text S path w of
                       (Some t, w1) \<Rightarrow> (t @ data, w1) | (None, w1) \<Rightarrow> (data, w1))
               else (data, w)) of
           (final_data, w1) \<Rightarrow>
             (case sys_open S path (sys_touch S path (sys_remove S path w1)) of
                (False, w2) \<Rightarrow> (Inl ''redirect: output open failed'', w2)
              | (True, w2) \<Rightarrow>
                  (case sys_write S path final_data w2 of
                     (True, w3) \<Rightarrow> (Inr (), w3)
                   | (False, w3) \<Rightarrow> (Inl ''redirect: output write failed'', w3))))"

text \<open>The redirections of a command: its input and where its output goes.\<close>

fun redirect_loop ::
  "'w shell_sys \<Rightarrow> Redirection list \<Rightarrow> string option \<Rightarrow> (string \<times> bool) option \<Rightarrow> 'w
     \<Rightarrow> (string option \<times> (string \<times> bool) option) res \<times> 'w" where
  "redirect_loop S [] stdin_data out_redirect w = (Inr (stdin_data, out_redirect), w)"
| "redirect_loop S (r # rs) stdin_data out_redirect w =
     (case rd_kind r of
        Read \<Rightarrow>
          (case sys_read_text S (rd_path r) w of
             (None, w1) \<Rightarrow> (Inl ''redirect: input open failed'', w1)
           | (Some t, w1) \<Rightarrow> redirect_loop S rs (Some t) out_redirect w1)
      | Write \<Rightarrow> redirect_loop S rs stdin_data (Some (rd_path r, False)) w
      | Append \<Rightarrow> redirect_loop S rs stdin_data (Some (rd_path r, True)) w)"

section \<open>Pipelines, statements and scripts\<close>

type_synonym ('a, 'w) shell_run = "('a res \<times> CommandContext \<times> 'w) option"

fun pipeline_run ::
  "'w shell_sys \<Rightarrow> 'w Command list \<Rightarrow> (string \<Rightarrow> CommandContext \<Rightarrow> 'w \<Rightarrow> (unit, 'w) shell_run)
     \<Rightarrow> ParsedCommand list \<Rightarrow> string option \<Rightarrow> bool \<Rightarrow> CommandContext \<Rightarrow> 'w \<Rightarrow> (bool, 'w) shell_run" where
  "pipeline_run S registry script [] pipe_input ok ctx w = Some (Inr ok, ctx, w)"
| "pipeline_run S registry script (cmd0 # rest) pipe_input ok ctx w =
     (let cmd = expand_alias_and_env ctx cmd0
      in if pc_command cmd = ''.'' \<or> eq_ignore_ascii_case (pc_command cmd) ''source''
         then (case pc_args cmd of
                 [] \<Rightarrow> Some (Inl ''source: missing path'', ctx, w)
               | path # _ \<Rightarrow>
                   (case script path ctx w of
                      None \<Rightarrow> None
                    | Some (Inl e, ctx1, w1) \<Rightarrow> Some (Inl e, ctx1, w1)
                    | Some (Inr _, ctx1, w1) \<Rightarrow> pipeline_run S registry script rest pipe_input ok ctx1 w1))
         else
           case redirect_loop S (pc_redirections cmd) pipe_input None w of
             (Inl e, w1) \<Rightarrow> Some (Inl e, ctx, w1)
           | (Inr (stdin_data, out_redirect), w1) \<Rightarrow>
               (case execute_command S registry cmd stdin_data (rest \<noteq> [] \<or> out_redirect \<noteq> None) ctx w1 of
                  (Inl e, ctx2, w2) \<Rightarrow> Some (Inl e, ctx2, w2)
                | (Inr (exit_code, captured), ctx2, w2) \<Rightarrow>
                    let ok' = (if exit_code \<noteq> 0 then False else ok)
                    in case out_redirect of
                         Some (path, app) \<Rightarrow>
                           (case write_redirect S path captured app w2 of
                              (Inl e, w3) \<Rightarrow> Some (Inl e, ctx2, w3)
                            | (Inr _, w3) \<Rightarrow> pipeline_run S registry script rest None ok' ctx2 w3)
                       | None \<Rightarrow>
                           pipeline_run S registry script rest (if rest \<noteq> [] then Some captured else None) ok' ctx2 w2))"

fun pipelines_run ::
  "(ParsedCommand list \<Rightarrow> CommandContext \<Rightarrow> 'w \<Rightarrow> (bool, 'w) shell_run) \<Rightarrow> ParsedPipeline list \<Rightarrow> CommandContext \<Rightarrow> 'w
     \<Rightarrow> (bool, 'w) shell_run" where
  "pipelines_run run [] ctx w = Some (Inr True, ctx, w)"
| "pipelines_run run (p # ps) ctx w =
     (case run (pp_commands p) ctx w of
        None \<Rightarrow> None
      | Some (Inl e, ctx1, w1) \<Rightarrow> Some (Inl e, ctx1, w1)
      | Some (Inr ok, ctx1, w1) \<Rightarrow> if ok then pipelines_run run ps ctx1 w1 else Some (Inr False, ctx1, w1))"

fun statements_run ::
  "(ParsedCommand list \<Rightarrow> CommandContext \<Rightarrow> 'w \<Rightarrow> (bool, 'w) shell_run) \<Rightarrow> ParsedStatement list \<Rightarrow> bool \<Rightarrow> CommandContext
     \<Rightarrow> 'w \<Rightarrow> (unit, 'w) shell_run" where
  "statements_run run [] previous_ok ctx w = Some (Inr (), ctx, w)"
| "statements_run run (s # ss) previous_ok ctx w =
     (case pipelines_run run (ps_pipelines s) ctx w of
        None \<Rightarrow> None
      | Some (Inl e, ctx1, w1) \<Rightarrow> Some (Inl e, ctx1, w1)
      | Some (Inr ok, ctx1, w1) \<Rightarrow>
          let previous_ok = (if ok then previous_ok else False)
          in case ps_operator s of
               AndAnd \<Rightarrow> if \<not> previous_ok then Some (Inr (), ctx1, w1) else statements_run run ss previous_ok ctx1 w1
             | OrOr \<Rightarrow> if previous_ok then Some (Inr (), ctx1, w1) else statements_run run ss previous_ok ctx1 w1
             | Background \<Rightarrow> statements_run run ss True ctx1 w1
             | Sequential \<Rightarrow> statements_run run ss previous_ok ctx1 w1)"

fun script_lines ::
  "(string \<Rightarrow> CommandContext \<Rightarrow> 'w \<Rightarrow> (unit, 'w) shell_run) \<Rightarrow> string list \<Rightarrow> CommandContext \<Rightarrow> 'w \<Rightarrow> (unit, 'w) shell_run" where
  "script_lines run [] ctx w = Some (Inr (), ctx, w)"
| "script_lines run (raw # ls) ctx w =
     (let line = trim raw
      in if line = [] \<or> starts_with line ''#'' then script_lines run ls ctx w
         else
           case run line ctx w of
             None \<Rightarrow> None
           | Some (Inl e, ctx1, w1) \<Rightarrow> Some (Inl e, ctx1, w1)
           | Some (Inr _, ctx1, w1) \<Rightarrow> script_lines run ls ctx1 w1)"

definition run_script ::
  "'w shell_sys \<Rightarrow> (string \<Rightarrow> CommandContext \<Rightarrow> 'w \<Rightarrow> (unit, 'w) shell_run) \<Rightarrow> string \<Rightarrow> CommandContext \<Rightarrow> 'w \<Rightarrow> (unit, 'w) shell_run" where
  "run_script S run path ctx w =
     (case sys_read_text S (resolve_shell_path S path w) w of
        (None, w1) \<Rightarrow> Some (Inl ''source: read failed'', ctx, w1)
      | (Some t, w1) \<Rightarrow> script_lines run (lines t) ctx w1)"

definition dispatch_pipeline ::
  "'w shell_sys \<Rightarrow> 'w Command list \<Rightarrow> (string \<Rightarrow> CommandContext \<Rightarrow> 'w \<Rightarrow> (unit, 'w) shell_run) \<Rightarrow> ParsedCommand list
     \<Rightarrow> CommandContext \<Rightarrow> 'w \<Rightarrow> (bool, 'w) shell_run" where
  "dispatch_pipeline S registry script commands ctx w =
     (if commands = [] then Some (Inr True, ctx, w) else pipeline_run S registry script commands None True ctx w)"

primrec dispatch ::
  "'w shell_sys \<Rightarrow> 'w Command list \<Rightarrow> nat \<Rightarrow> string \<Rightarrow> CommandContext \<Rightarrow> 'w \<Rightarrow> (unit, 'w) shell_run" where
  "dispatch S registry 0 = (\<lambda>line ctx w. None)"
| "dispatch S registry (Suc n) = (\<lambda>line ctx w.
     statements_run (dispatch_pipeline S registry (run_script S (dispatch S registry n))) (parse_line line) True ctx w)"

section \<open>Key-value lists\<close>

text \<open>What the environment and the aliases share.\<close>

locale key_store =
  fixes lookup :: "'c \<Rightarrow> string \<Rightarrow> string option"
    and put :: "string \<Rightarrow> string \<Rightarrow> 'c \<Rightarrow> 'c"
    and remove :: "string \<Rightarrow> 'c \<Rightarrow> 'c"
  assumes lookup_put: "lookup (put k v c) j = (if j = k then Some v else lookup c j)"
    and lookup_remove: "lookup (remove k c) j = (if j = k then None else lookup c j)"
begin

definition reset :: "string \<Rightarrow> string option \<Rightarrow> 'c \<Rightarrow> 'c" where
  "reset k previous c = (case previous of Some v \<Rightarrow> put k v c | None \<Rightarrow> remove k c)"

lemma lookup_reset: "lookup (reset k previous c) j = (if j = k then previous else lookup c j)"
  by (simp add: reset_def lookup_put lookup_remove split: option.split)

lemma put_put: "lookup (put k v (put k u c)) = lookup (put k v c)"
  by (simp add: fun_eq_iff lookup_put)

end

lemma pairs_get_set: "pairs_get j (pairs_set k v ps) = (if j = k then Some v else pairs_get j ps)"
  by (induction k v ps rule: pairs_set.induct) (auto simp: pairs_get_def)

lemma pairs_get_unset: "pairs_get j (pairs_unset k ps) = (if j = k then None else pairs_get j ps)"
  by (induction ps) (auto simp: pairs_get_def pairs_unset_def)

interpretation environ: key_store env_get env_set env_unset
  by unfold_locales (simp_all add: env_get_def env_set_def env_unset_def pairs_get_set pairs_get_unset)

interpretation aliased: key_store alias_get alias_set alias_unset
  by unfold_locales (simp_all add: alias_get_def alias_set_def alias_unset_def pairs_get_set pairs_get_unset)

section \<open>Standard input\<close>

lemma restore_stdin_get: "env_get (restore_stdin previous ctx) ''SISH_STDIN'' = previous"
  using environ.lookup_reset [of "''SISH_STDIN''" previous ctx] by (simp add: restore_stdin_def environ.reset_def)

lemma env_get_exit_code [simp]: "env_get (ctx\<lparr>last_exit_code := c\<rparr>) = env_get ctx"
  by (simp add: env_get_def fun_eq_iff)

lemma execute_command_stdin:
  "execute_command S registry cmd stdin suppress ctx w = (r, ctx', w') \<Longrightarrow> env_get ctx' ''SISH_STDIN'' = env_get ctx ''SISH_STDIN''"
  by (auto simp: execute_command_def Let_def restore_stdin_get split: prod.splits sum.splits)

text \<open>A function that leaves the standard input of the session as it was.\<close>

definition keeps_stdin :: "(CommandContext \<Rightarrow> 'w \<Rightarrow> ('a, 'w) shell_run) \<Rightarrow> bool" where
  "keeps_stdin run \<longleftrightarrow> (\<forall>ctx w r ctx' w'. run ctx w = Some (r, ctx', w') \<longrightarrow> env_get ctx' ''SISH_STDIN'' = env_get ctx ''SISH_STDIN'')"

lemma keeps_stdinD:
  "keeps_stdin run \<Longrightarrow> run ctx w = Some (r, ctx', w') \<Longrightarrow> env_get ctx' ''SISH_STDIN'' = env_get ctx ''SISH_STDIN''"
  unfolding keeps_stdin_def by blast

lemma pipeline_run_stdin:
  assumes "\<And>path. keeps_stdin (script path)"
  shows "keeps_stdin (pipeline_run S registry script cmds pipe ok)"
proof (induction cmds arbitrary: pipe ok)
  case Nil
  then show ?case by (simp add: keeps_stdin_def)
next
  case (Cons cmd0 rest)
  show ?case unfolding keeps_stdin_def
  proof (intro allI impI)
    fix ctx w r ctx' w'
    assume run: "pipeline_run S registry script (cmd0 # rest) pipe ok ctx w = Some (r, ctx', w')"
    let ?cmd = "expand_alias_and_env ctx cmd0"
    have IH: "env_get c2 ''SISH_STDIN'' = env_get c1 ''SISH_STDIN''"
      if "pipeline_run S registry script rest pi k c1 x1 = Some (q, c2, x2)" for pi k c1 x1 q c2 x2
      using Cons that unfolding keeps_stdin_def by blast
    show "env_get ctx' ''SISH_STDIN'' = env_get ctx ''SISH_STDIN''"
    proof (cases "pc_command ?cmd = ''.'' \<or> eq_ignore_ascii_case (pc_command ?cmd) ''source''")
      case source: True
      show ?thesis
      proof (cases "pc_args ?cmd")
        case Nil
        then show ?thesis using run source by (simp add: Let_def)
      next
        case (Cons path more)
        then obtain q c1 x1 where sc: "script path ctx w = Some (q, c1, x1)"
          using run source by (cases "script path ctx w") (auto simp: Let_def)
        have "env_get c1 ''SISH_STDIN'' = env_get ctx ''SISH_STDIN''" using assms sc unfolding keeps_stdin_def by blast
        then show ?thesis using run source Cons sc IH by (cases q) (auto simp: Let_def)
      qed
    next
      case plain: False
      obtain rl w1 where rl: "redirect_loop S (pc_redirections ?cmd) pipe None w = (rl, w1)" by force
      show ?thesis
      proof (cases rl)
        case (Inl e)
        then show ?thesis using run plain rl by (simp add: Let_def)
      next
        case (Inr x)
        obtain stdin out where x: "x = (stdin, out)" by force
        obtain q c2 x2 where ex: "execute_command S registry ?cmd stdin (rest \<noteq> [] \<or> out \<noteq> None) ctx w1 = (q, c2, x2)"
          by (metis prod_cases3)
        note e = execute_command_stdin [OF ex]
        show ?thesis
        proof (cases q)
          case (Inl err)
          then show ?thesis using run plain rl Inr x ex e by (simp add: Let_def)
        next
          case q: (Inr y)
          obtain code captured where y: "y = (code, captured)" by force
          show ?thesis
          proof (cases out)
            case None
            then show ?thesis using run plain rl Inr x ex e q y IH by (simp add: Let_def)
          next
            case (Some pa)
            obtain path app where pa: "pa = (path, app)" by force
            obtain wr x3 where "write_redirect S path captured app x2 = (wr, x3)" by force
            then show ?thesis using run plain rl Inr x ex e q y Some pa IH by (cases wr) (simp_all add: Let_def)
          qed
        qed
      qed
    qed
  qed
qed

lemma pipelines_run_stdin:
  assumes "\<And>cmds. keeps_stdin (run cmds)"
  shows "keeps_stdin (pipelines_run run ps)"
proof (induction ps)
  case (Cons p ps)
  show ?case unfolding keeps_stdin_def
  proof (intro allI impI)
    fix ctx w r ctx' w' assume r: "pipelines_run run (p # ps) ctx w = Some (r, ctx', w')"
    then obtain q c1 x1 where q: "run (pp_commands p) ctx w = Some (q, c1, x1)"
      by (cases "run (pp_commands p) ctx w") auto
    then have "env_get c1 ''SISH_STDIN'' = env_get ctx ''SISH_STDIN''" using assms unfolding keeps_stdin_def by blast
    then show "env_get ctx' ''SISH_STDIN'' = env_get ctx ''SISH_STDIN''"
      using r q by (cases q) (auto split: if_splits dest: keeps_stdinD [OF Cons])
  qed
qed (simp add: keeps_stdin_def)

lemma statements_run_stdin:
  assumes "\<And>cmds. keeps_stdin (run cmds)"
  shows "keeps_stdin (statements_run run ss ok)"
proof (induction ss arbitrary: ok)
  case (Cons s ss)
  show ?case unfolding keeps_stdin_def
  proof (intro allI impI)
    fix ctx w r ctx' w' assume r: "statements_run run (s # ss) ok ctx w = Some (r, ctx', w')"
    then obtain q c1 x1 where q: "pipelines_run run (ps_pipelines s) ctx w = Some (q, c1, x1)"
      by (cases "pipelines_run run (ps_pipelines s) ctx w") auto
    then have e: "env_get c1 ''SISH_STDIN'' = env_get ctx ''SISH_STDIN''"
      using keeps_stdinD [OF pipelines_run_stdin [where run = run, OF assms]] by blast
    show "env_get ctx' ''SISH_STDIN'' = env_get ctx ''SISH_STDIN''"
    proof (cases q)
      case (Inr b)
      then have "ctx' = c1 \<or> (\<exists>k. statements_run run ss k c1 x1 = Some (r, ctx', w'))"
        using r q by (cases "ps_operator s") (auto simp: Let_def split: if_splits)
      then show ?thesis using e keeps_stdinD [OF Cons] by metis
    qed (use r q e in simp)
  qed
qed (simp add: keeps_stdin_def)

lemma script_lines_stdin:
  assumes "\<And>line. keeps_stdin (run line)"
  shows "keeps_stdin (script_lines run ls)"
proof (induction ls)
  case (Cons raw ls)
  show ?case unfolding keeps_stdin_def
  proof (intro allI impI)
    fix ctx w r ctx' w' assume r: "script_lines run (raw # ls) ctx w = Some (r, ctx', w')"
    show "env_get ctx' ''SISH_STDIN'' = env_get ctx ''SISH_STDIN''"
    proof (cases "trim raw = [] \<or> starts_with (trim raw) ''#''")
      case True
      then show ?thesis using r keeps_stdinD [OF Cons] by (simp add: Let_def)
    next
      case False
      then obtain q c1 x1 where q: "run (trim raw) ctx w = Some (q, c1, x1)"
        using r by (cases "run (trim raw) ctx w") (auto simp: Let_def)
      then have "env_get c1 ''SISH_STDIN'' = env_get ctx ''SISH_STDIN''" using assms unfolding keeps_stdin_def by blast
      then show ?thesis using r q False by (cases q) (auto simp: Let_def dest: keeps_stdinD [OF Cons])
    qed
  qed
qed (simp add: keeps_stdin_def)

lemma run_script_stdin:
  assumes "\<And>line. keeps_stdin (run line)"
  shows "keeps_stdin (run_script S run path)"
  unfolding keeps_stdin_def
  by (auto simp: run_script_def split: prod.splits option.splits dest: keeps_stdinD [OF script_lines_stdin [where run = run, OF assms]])

lemma dispatch_stdin: "keeps_stdin (dispatch S registry n line)"
proof (induction n arbitrary: line)
  case (Suc n)
  let ?script = "run_script S (dispatch S registry n)"
  have "keeps_stdin (?script path)" for path by (rule run_script_stdin) (rule Suc)
  then have p: "keeps_stdin (pipeline_run S registry ?script cmds None True)" for cmds by (rule pipeline_run_stdin)
  have "keeps_stdin (dispatch_pipeline S registry ?script cmds)" for cmds
    unfolding keeps_stdin_def dispatch_pipeline_def by (auto dest: keeps_stdinD [OF p])
  then have "keeps_stdin (statements_run (dispatch_pipeline S registry ?script) ss True)" for ss by (rule statements_run_stdin)
  then show ?case unfolding keeps_stdin_def by simp
qed (simp add: keeps_stdin_def)

section \<open>Which statements run\<close>

text \<open>Whether the flag \<open>previous_ok\<close> is set after statement \<open>i\<close>: no failure since the last background operator.\<close>

definition ok_since :: "bool \<Rightarrow> ParsedStatement list \<Rightarrow> (nat \<Rightarrow> bool) \<Rightarrow> nat \<Rightarrow> bool" where
  "ok_since p ss b i \<longleftrightarrow> (\<forall>j\<le>i. (\<forall>m. j \<le> m \<and> m < i \<longrightarrow> ps_operator (ss ! m) \<noteq> Background) \<longrightarrow> b j)
     \<and> ((\<forall>m<i. ps_operator (ss ! m) \<noteq> Background) \<longrightarrow> p)"

definition stops :: "ControlOperator \<Rightarrow> bool \<Rightarrow> bool" where
  "stops op ok \<longleftrightarrow> op = AndAnd \<and> \<not> ok \<or> op = OrOr \<and> ok"

definition stops_line :: "ParsedStatement list \<Rightarrow> (nat \<Rightarrow> bool) \<Rightarrow> nat \<Rightarrow> bool" where
  "stops_line ss b i \<longleftrightarrow> stops (ps_operator (ss ! i)) (ok_since True ss b i)"

lemma ok_since_0: "ok_since p ss b 0 \<longleftrightarrow> p \<and> b 0"
  by (auto simp: ok_since_def)

lemma ok_since_Suc:
  "ok_since p (s # ss) b (Suc i) \<longleftrightarrow> ok_since (ps_operator s = Background \<or> p \<and> b 0) ss (\<lambda>i. b (Suc i)) i"
proof -
  have all: "(\<forall>m<Suc i. P m) \<longleftrightarrow> P 0 \<and> (\<forall>m<i. P (Suc m))" for P by (auto simp: less_Suc_eq_0_disj)
  have le: "(\<forall>j\<le>Suc i. P j) \<longleftrightarrow> P 0 \<and> (\<forall>j\<le>i. P (Suc j))" for P by (metis Suc_le_mono le0 not0_implies_Suc)
  have from0: "(\<forall>m. 0 \<le> m \<and> m < Suc i \<longrightarrow> ps_operator ((s # ss) ! m) \<noteq> Background)
      \<longleftrightarrow> ps_operator s \<noteq> Background \<and> (\<forall>m<i. ps_operator (ss ! m) \<noteq> Background)"
    using all [of "\<lambda>m. ps_operator ((s # ss) ! m) \<noteq> Background"] by simp
  have "(\<forall>m. Suc j \<le> m \<and> m < Suc i \<longrightarrow> ps_operator ((s # ss) ! m) \<noteq> Background)
      \<longleftrightarrow> (\<forall>m. j \<le> m \<and> m < i \<longrightarrow> ps_operator (ss ! m) \<noteq> Background)" for j
    by (metis Suc_le_D Suc_le_mono Suc_less_eq nth_Cons_Suc)
  then show ?thesis
    unfolding ok_since_def le [of "\<lambda>j. (\<forall>m. j \<le> m \<and> m < Suc i \<longrightarrow> ps_operator ((s # ss) ! m) \<noteq> Background) \<longrightarrow> b j"]
      from0 all [of "\<lambda>m. ps_operator ((s # ss) ! m) \<noteq> Background"] by auto
qed

lemma statements_run_Cons:
  assumes "pipelines_run run (ps_pipelines s) ctx w = Some (Inr ok, ctx1, w1)"
  shows "statements_run run (s # ss) p ctx w = (if stops (ps_operator s) (p \<and> ok) then Some (Inr (), ctx1, w1)
    else statements_run run ss (ps_operator s = Background \<or> p \<and> ok) ctx1 w1)"
  using assms by (auto simp: stops_def Let_def split: ControlOperator.split)

lemma statements_run_prefix:
  assumes "k \<le> length ss" "\<And>i. i < k \<Longrightarrow> pipelines_run run (ps_pipelines (ss ! i)) (fst (st i)) (snd (st i)) = Some (Inr (b i), st (Suc i))"
    "\<And>i. Suc i < k \<Longrightarrow> \<not> stops (ps_operator (ss ! i)) (ok_since p ss b i)"
  shows "(k = length ss \<or> 0 < k \<and> stops (ps_operator (ss ! (k - 1))) (ok_since p ss b (k - 1)) \<longrightarrow>
      statements_run run ss p (fst (st 0)) (snd (st 0)) = Some (Inr (), st k))
    \<and> (k < length ss \<and> \<not> (0 < k \<and> stops (ps_operator (ss ! (k - 1))) (ok_since p ss b (k - 1))) \<longrightarrow>
      (\<forall>e s'. pipelines_run run (ps_pipelines (ss ! k)) (fst (st k)) (snd (st k)) = Some (Inl e, s')
        \<longrightarrow> statements_run run ss p (fst (st 0)) (snd (st 0)) = Some (Inl e, s')))"
  using assms
proof (induction ss arbitrary: p k st b)
  case Nil
  then show ?case by simp
next
  case (Cons s ss)
  show ?case
  proof (cases k)
    case 0
    then show ?thesis by auto
  next
    case (Suc k')
    let ?p = "ps_operator s = Background \<or> p \<and> b 0"
    have one: "pipelines_run run (ps_pipelines s) (fst (st 0)) (snd (st 0)) = Some (Inr (b 0), fst (st 1), snd (st 1))"
      using Cons.prems(2) [of 0] Suc by simp
    note step = statements_run_Cons [OF one, of ss p]
    show ?thesis
    proof (cases k')
      case 0
      have "(ss = [] \<longrightarrow> statements_run run ss ?p (fst (st 1)) (snd (st 1)) = Some (Inr (), st 1))
        \<and> (ss \<noteq> [] \<longrightarrow> (\<forall>e s'. pipelines_run run (ps_pipelines (ss ! 0)) (fst (st 1)) (snd (st 1)) = Some (Inl e, s')
            \<longrightarrow> statements_run run ss ?p (fst (st 1)) (snd (st 1)) = Some (Inl e, s')))"
        by (cases ss) auto
      then show ?thesis using step by (auto simp: Suc 0 ok_since_0)
    next
      case (Suc k2)
      have go: "\<not> stops (ps_operator s) (p \<and> b 0)"
        using Cons.prems(3) [of 0] \<open>k = Suc k'\<close> Suc by (simp add: ok_since_0)
      have IH: "(k' = length ss \<or> 0 < k' \<and> stops (ps_operator (ss ! (k' - 1))) (ok_since ?p ss (\<lambda>i. b (Suc i)) (k' - 1)) \<longrightarrow>
          statements_run run ss ?p (fst (st 1)) (snd (st 1)) = Some (Inr (), st (Suc k')))
        \<and> (k' < length ss \<and> \<not> (0 < k' \<and> stops (ps_operator (ss ! (k' - 1))) (ok_since ?p ss (\<lambda>i. b (Suc i)) (k' - 1))) \<longrightarrow>
          (\<forall>e s'. pipelines_run run (ps_pipelines (ss ! k')) (fst (st (Suc k'))) (snd (st (Suc k'))) = Some (Inl e, s')
            \<longrightarrow> statements_run run ss ?p (fst (st 1)) (snd (st 1)) = Some (Inl e, s')))"
        using Cons.IH [of k' "\<lambda>i. st (Suc i)" "\<lambda>i. b (Suc i)" ?p] Cons.prems(1) Cons.prems(2) [of "Suc _"] Cons.prems(3) [of "Suc _"]
        by (simp add: \<open>k = Suc k'\<close> ok_since_Suc)
      then show ?thesis using step go by (simp add: \<open>k = Suc k'\<close> Suc ok_since_Suc)
    qed
  qed
qed

section \<open>A system that records the programs it runs\<close>

definition log_sys :: "string list shell_sys" where
  "log_sys = \<lparr>sys_exec = \<lambda>name args env w. (Inr (if name = ''false'' then 1 else 0), w @ [name]),
     sys_begin_capture = \<lambda>_ w. w, sys_end_capture = \<lambda>w. ([], w), sys_println = \<lambda>_ w. w,
     sys_read_text = \<lambda>_ w. (None, w), sys_remove = \<lambda>_ w. w, sys_touch = \<lambda>_ w. w, sys_open = \<lambda>_ w. (False, w),
     sys_write = \<lambda>_ _ w. (False, w), sys_pwd = \<lambda>w. ''/''\<rparr>"

section \<open>Properties\<close>

text \<open>C28: which statements of a line run.  Suppose the first \<open>k\<close> statements run one after the other without an error, statement \<open>i\<close> taking
  the state \<open>st i\<close> to \<open>st (i + 1)\<close> with success \<open>b i\<close>, and none of them before the last stops the line.  If the last one
  stops it, or if there are no more statements, the line ends in \<open>st k\<close>; otherwise the next statement runs, and an error of
  it is the result of the line.  A statement stops the line by the operator in front of it, after it has run: an and operator
  when a statement since the last background operator failed, itself included, an or operator when none did.  So an
  operator does not decide whether its right operand runs, but whether the statement after that one does.\<close>

theorem statements_run_until_stop:
  assumes "parse_line line = ss" "k \<le> length ss" "st 0 = (ctx, w)"
    and "\<And>i. i < k \<Longrightarrow> pipelines_run (dispatch_pipeline S registry (run_script S (dispatch S registry n)))
        (ps_pipelines (ss ! i)) (fst (st i)) (snd (st i)) = Some (Inr (b i), st (Suc i))"
    and "\<And>i. Suc i < k \<Longrightarrow> \<not> stops_line ss b i"
  shows "(k = length ss \<or> 0 < k \<and> stops_line ss b (k - 1) \<longrightarrow> dispatch S registry (Suc n) line ctx w = Some (Inr (), st k))
    \<and> (k < length ss \<and> \<not> (0 < k \<and> stops_line ss b (k - 1)) \<longrightarrow>
        (\<forall>e s'. pipelines_run (dispatch_pipeline S registry (run_script S (dispatch S registry n)))
            (ps_pipelines (ss ! k)) (fst (st k)) (snd (st k)) = Some (Inl e, s')
          \<longrightarrow> dispatch S registry (Suc n) line ctx w = Some (Inl e, s')))"
  using statements_run_prefix [where p = True and ss = ss and k = k and st = st and b = b] assms
  by (simp add: stops_line_def)

theorem statements_run_until_stop_witness:
  "\<exists>ctx. dispatch log_sys [] 1 ''false && reboot && date'' (context_new ''/'') [] = Some (Inr (), ctx, [''false'', ''reboot''])"
proof -
  let ?run = "pipelines_run (dispatch_pipeline log_sys [] (run_script log_sys (dispatch log_sys [] 0)))"
  let ?cmd = "\<lambda>name. [\<lparr>pp_commands = [\<lparr>pc_command = name, pc_args = [], pc_redirections = []\<rparr>]\<rparr>]"
  define ss where "ss = [\<lparr>ps_pipelines = ?cmd ''false'', ps_operator = Sequential\<rparr>, \<lparr>ps_pipelines = ?cmd ''reboot'', ps_operator = AndAnd\<rparr>,
      \<lparr>ps_pipelines = ?cmd ''date'', ps_operator = AndAnd\<rparr>]"
  have p: "parse_line ''false && reboot && date'' = ss" unfolding ss_def by code_simp
  have r: "\<exists>ctx'. ?run (?cmd name) ctx w = Some (Inr (name \<noteq> ''false''), ctx', w @ [name]) \<and> aliases ctx' = aliases ctx"
    if "aliases ctx = []" "name \<in> {''false'', ''reboot''}" for name ctx w
    using that by (auto simp: dispatch_pipeline_def expand_alias_and_env_def numeral_eq_Suc alias_get_def pairs_get_def
        execute_command_def registry_find_def run_external_def log_sys_def restore_stdin_def env_set_def env_unset_def Let_def
        eq_ignore_ascii_case_def to_ascii_lowercase_def upper_letters_def lower_letters_def split: option.split)
  obtain ctx1 where 1: "?run (?cmd ''false'') (context_new ''/'') [] = Some (Inr False, ctx1, [''false''])" "aliases ctx1 = []"
    using r [of "context_new ''/''" "''false''" "[]"] by (auto simp: context_new_def)
  obtain ctx2 where 2: "?run (?cmd ''reboot'') ctx1 [''false''] = Some (Inr True, ctx2, [''false'', ''reboot''])"
    using r [of ctx1 "''reboot''" "[''false'']"] 1(2) by auto
  define st where "st = (!) [(context_new ''/'', []), (ctx1, [''false'']), (ctx2, [''false'', ''reboot''])]"
  define b where "b = (!) [False, True]"
  have runs: "?run (ps_pipelines (ss ! i)) (fst (st i)) (snd (st i)) = Some (Inr (b i), st (Suc i))" if "i < 2" for i
    using that 1(1) 2 by (auto simp: ss_def st_def b_def less_Suc_eq numeral_2_eq_2)
  have go: "\<not> stops_line ss b i" if "Suc i < 2" for i
    using that by (simp add: stops_line_def stops_def ss_def)
  have "stops_line ss b 1"
    by (simp add: stops_line_def stops_def ok_since_def ss_def b_def) (auto intro!: exI [of _ 0])
  moreover have "st 0 = (context_new ''/'', [])" "2 \<le> length ss" by (simp_all add: st_def ss_def)
  ultimately have "dispatch log_sys [] (Suc 0) ''false && reboot && date'' (context_new ''/'') [] = Some (Inr (), st 2)"
    using statements_run_until_stop [OF p, of 2 st "context_new ''/''" "[]" log_sys "[]" 0 b] runs go by simp
  then show ?thesis by (simp add: st_def)
qed

text \<open>C25: running a line, with all its pipelines and nested scripts, leaves the standard input variable of the session as it was,
  also when the line ends with an error.\<close>

theorem dispatch_restores_stdin:
  assumes "dispatch S registry n line ctx w = Some (r, ctx', w')"
  shows "env_get ctx' ''SISH_STDIN'' = env_get ctx ''SISH_STDIN''"
  using dispatch_stdin [of S registry n line] assms unfolding keeps_stdin_def by blast

theorem dispatch_restores_stdin_witness:
  "\<exists>ctx w. dispatch log_sys [] 1 ''echo a | cat'' (env_set ''SISH_STDIN'' ''x'' (context_new ''/'')) [] = Some (Inr (), ctx, w)
    \<and> env_get ctx ''SISH_STDIN'' = Some ''x''"
proof -
  have "case dispatch log_sys [] 1 ''echo a | cat'' (env_set ''SISH_STDIN'' ''x'' (context_new ''/'')) [] of
      Some (Inr _, _, _) \<Rightarrow> True | _ \<Rightarrow> False" by code_simp
  then obtain ctx w where d: "dispatch log_sys [] 1 ''echo a | cat'' (env_set ''SISH_STDIN'' ''x'' (context_new ''/'')) [] = Some (Inr (), ctx, w)"
    by (auto split: option.splits prod.splits sum.splits)
  then show ?thesis using dispatch_restores_stdin [OF d] by (auto simp: environ.lookup_put)
qed

text \<open>The arguments of nested aliases come out in the order in which the aliases are looked up, not in the order of the text.\<close>

lemma nested_alias_order:
  "alias_loop 8 (alias_set ''b'' ''c y'' (alias_set ''a'' ''b x'' (context_new ''/''))) ''a'' [] = (''c'', [''x'', ''y''])"
  by code_simp

text \<open>A variable that has been set expands to its value.\<close>

lemma expand_braced:
  assumes "key \<noteq> []" "CHR ''}'' \<notin> set key"
  shows "expand_vars (env_set key v ctx) (''${'' @ key @ ''}'' @ rest) = v @ expand_vars (env_set key v ctx) rest"
proof -
  have "\<forall>c\<in>set key. c \<noteq> CHR ''}''" using assms(2) by blast
  then have "var_key (''{'' @ key @ ''}'' @ rest) = (key, rest)"
    by (simp add: var_key_def takeWhile_append2 dropWhile_append2)
  then show ?thesis using assms(1) by (simp add: environ.lookup_put)
qed

end
