(* ===== verification/Spec2Isabelle.thy ===== *)
theory Spec2Isabelle
  imports Kernel_Heap Boot_Tables Timer Devices Ksf Package Process Saifs Shell_Regex Shell_Dispatch
begin

text \<open>
  SAIOS is a single-address-space kernel for x86-64 written in Rust (\<^verbatim>\<open>seed/saios/src\<close>), with a UEFI loader
  (\<^verbatim>\<open>boot/\<close>) and a hardware layer (\<^verbatim>\<open>hal/\<close>).  This library models the parts of the kernel that compute:
  memory, threads, time, kernel objects, services, files, programs, processes and the shell.  All paths
  below are relative to \<^verbatim>\<open>seed/saios/src\<close> unless they name another top directory.

  \<^bold>\<open>How the parts interact.\<close>  The page allocator hands out physical pages to the kernel heap, to the page
  tables and to the virtual memory manager.  The scheduler runs kernel threads; the timer interrupt drives it and the
  sleeping of threads.  The object registry gives every device, driver and service a kernel object; the
  event bus records what happens to them.  The service framework starts the other components in the order
  of their dependencies.  The in-memory file system lies below the virtual file system, which sends paths
  to it, to mounted volumes or to the object manager; the name space \<^verbatim>\<open>saifs.rs\<close> lies above both.  The
  package image writes programs into the file system, the loader reads and links them, the process table
  runs them, and the shell parses command lines and runs their commands.

  \<^bold>\<open>Conventions.\<close>  A struct is a record, an enum a datatype with the constructors of the source, a method a
  function from the state to the result and the new state.  \<open>Result<T, &str>\<close> is \<open>string + 'a\<close> with the message of
  the source on the left.  Words keep their width where bits or wrap-around matter (the release profile,
  in which \<open>+\<close> wraps and \<open>debug_assert!\<close> is absent); indices and counts that cannot come near
  their bound are natural numbers.  A global cell guarded by a spin lock is passed explicitly, and one
  locked operation is one step.  Texts are ASCII.  Code of other components that a component calls, and
  hardware, are arguments of the definitions; nothing is assumed of them unless a theorem says so.

  \<^bold>\<open>Memory.\<close>
  \<^item> \<open>Prelude\<close>: machine integers, Rust's saturating and checked arithmetic, alignment, and the list operations shared by
    the components.
  \<^item> \<open>Phys_Mem\<close>: the bitmap page allocator (\<^verbatim>\<open>driver/memory.rs\<close>) and its facade (\<^verbatim>\<open>pmm.rs\<close>).  The invariant
    \<open>pmm_inv\<close> ties the free counter to the bitmap.  Start-up frees exactly the usable pages; an allocation takes a run
    of free pages and is refused only when there is none; freeing what was allocated restores the
    allocator.  The locale \<open>page_allocator\<close> states what the clients rely on.
  \<^item> \<open>Kernel_Heap\<close>: the global allocator (\<^verbatim>\<open>heap.rs\<close>), proved over any \<open>page_allocator\<close>.  Blocks handed out
    are aligned, disjoint and inside pages of the heap; start-up panics exactly without low pages;
    requests above 4 MiB always fail.
  \<^item> \<open>Paging\<close>: page-table entries (\<^verbatim>\<open>hal/src/arch/x86_64/paging.rs\<close>) and the page operations of \<^verbatim>\<open>vmm.rs\<close>.
    Memory is a function from frames to their 512 entries.  The tables are reached through pointers in
    the recursive slot, so the processor's walk \<open>mmu\<close> is part of the model, and \<open>None\<close> stands for a page fault.  The
    invariant \<open>pt_inv\<close> says that the tables form a tree of frames that are not free; a lemma for each kind of
    change (linking, writing a leaf, unlinking) shows what it does to the tree, and the page operations
    are compositions of these.
  \<^item> \<open>Vmm\<close>: the virtual memory manager (\<^verbatim>\<open>vmm.rs\<close>).  Its loops are proved over the locale \<open>page_mapper\<close>, which
    \<open>Paging\<close> implements.  The page tables are the image of the recorded mappings in every state reached by
    requests the manager can serve, mapping is atomic for these, and releasing undoes an allocation, except that
    tables unlinked on the way are lost.  The code also accepts requests in the recursive slot, user requests in
    slot 0 and physical addresses of more than 52 bits; the steps \<open>vmm_step\<close> leave these out.
  \<^item> \<open>Boot_Tables\<close>: the page tables \<^verbatim>\<open>vmm.rs\<close> builds before the manager runs, written through physical addresses because
    the firmware maps memory to itself at that time.  The invariant \<open>bt_inv\<close> holds between the steps; at the end
    it gives the initial condition of \<open>Vmm\<close>, and the first GiB and every requested range below 512 GiB is
    mapped to itself, then and after any such use of the manager.  Also shown: when the construction succeeds, and
    that the search for a low page proposes the same page again once the first one is too high.

  \<^bold>\<open>Threads and time.\<close>
  \<^item> \<open>Scheduler\<close> (\<^verbatim>\<open>scheduler.rs\<close>): the step relation \<open>sched_step\<close>, the invariant of its reachable states, refinement of the
    scheduling decision to a rotation (locale \<open>fair_queue\<close>), bounded waiting, preservation of suspended
    contexts, and what happens when the idle thread or a spawned thread runs.
  \<^item> \<open>Timer\<close> (\<^verbatim>\<open>timer.rs\<close>): programming of the interval timer, and when \<open>sleep\<close> returns.  The waiting loop takes fuel,
    the number of loads of the tick counter; the theorem gives the amount that is enough.

  \<^bold>\<open>Kernel objects and services.\<close>
  \<^item> \<open>Event_Bus\<close> (\<^verbatim>\<open>kernel/event.rs\<close>): the bus is a window over the history of publications.
  \<^item> \<open>Kom\<close> (\<^verbatim>\<open>kernel/object/\<close>): the object registry, with the locale \<open>id_registry\<close> for its clients.
  \<^item> \<open>Devices\<close> (\<^verbatim>\<open>kernel/device.rs\<close>, \<^verbatim>\<open>kernel/driver.rs\<close>): device and driver registries; the hooks of the
    individual drivers are parameters.
  \<^item> \<open>Ksf\<close> (\<^verbatim>\<open>ksf.rs\<close>): services and their start in dependency order.  The loop of \<open>start_all\<close> is a partial function,
    and its returning is a theorem.

  \<^bold>\<open>Files.\<close>
  \<^item> \<open>Text\<close>: the string operations of the standard library that the code uses.
  \<^item> \<open>Tmpfs\<close> and \<open>Vfs\<close> (\<^verbatim>\<open>vfs.rs\<close>): the tree invariant of the in-memory file system, round trips between nodes and paths,
    descriptors that never dangle, reading back what was written.  A rename keeps the tree exactly under two conditions the
    code does not check (\<open>safe_rename\<close>).  The locale \<open>tree_invariant\<close> is what \<open>Vfs\<close> needs of the tree: with the tree
    invariant it covers safe renames, with no invariant any rename, which is enough for the descriptors.  The climb
    from a node to the root is a partial function, since a rename into the moved subtree makes it run
    forever; in every state reached by safe renames the path operations return.
  \<^item> \<open>Saifs\<close> (\<^verbatim>\<open>saifs.rs\<close>): canonical paths, mounts and handles; a path is served by the innermost mount above it.

  \<^bold>\<open>Programs and processes.\<close>
  \<^item> \<open>Program_Image\<close> (\<^verbatim>\<open>shell/programs.rs\<close>, \<^verbatim>\<open>kernel/dynamic_linker.rs\<close>): the ELF reader, the linker, and the bytes
    of the images the package contains.
  \<^item> \<open>Package\<close> (\<^verbatim>\<open>kernel/package_image.rs\<close>): what it writes is read back and accepted by the loader.
  \<^item> \<open>Process\<close> (\<^verbatim>\<open>kernel/process.rs\<close>, \<^verbatim>\<open>kernel/crt.rs\<close>): the process table as a step relation, its invariant, and what
    \<open>exec\<close> reports.

  \<^bold>\<open>The shell.\<close>
  \<^item> \<open>Shell_Regex\<close> (\<^verbatim>\<open>shell/regex.rs\<close>): the back-tracking matcher computes the declarative meaning of the pattern.
  \<^item> \<open>Shell_Parser\<close> (\<^verbatim>\<open>shell/parser.rs\<close>): printed command lines parse back, for both scanners through the locale
    \<open>quote_scanner\<close>.
  \<^item> \<open>Shell_Dispatch\<close> (\<^verbatim>\<open>shell/session.rs\<close>, \<^verbatim>\<open>shell/registry.rs\<close>, \<^verbatim>\<open>shell/dispatcher.rs\<close>): variables and aliases
    (locale \<open>key_store\<close>), expansion, redirections, pipelines, scripts, and which statements of a line run.  Fuel bounds the nesting of
    scripts and \<open>None\<close> stands for exceeding it; the alias loop has the bound 8 of the source.

  \<^bold>\<open>Not modelled.\<close>  Processor caches of translations are taken as coherent (the place where the code does not make
  them so is a theorem of \<open>Vmm\<close>), and accessed and dirty bits are not set.  Port, memory-mapped and DMA input and output (console back ends, keyboard, PCI,
  storage, USB and network drivers), inline assembly of the hardware layer and firmware calls of the loader
  have no meaning in the logic and appear as parameters where other code depends on them.  The object
  manager and its providers, telemetry, the validation suite, the command implementations and the task
  manager gather and print what the modelled components report; they change no state of these components except by
  calling their operations.
\<close>

end
